theory Spec2Isabelle
  imports Main "HOL-Library.Word" "HOL-Library.Multiset"
begin

unbundle bit_operations_syntax

text \<open>
  A failed \<^verbatim>\<open>check\<close> of the source is the error \<open>CheckFailed\<close>, an index outside an
  array is \<open>OutOfBounds\<close>, and a model that bounds a recursion of the source by fuel fails
  with \<open>OutOfFuel\<close> when the fuel is used up. Reading through a null pointer is
  \<open>NullDereference\<close>, \<^verbatim>\<open>UE_LOG(..., Fatal, ...)\<close> is \<open>FatalError\<close>, and waiting for an event
  that nothing will trigger is \<open>Blocked\<close>.
\<close>

datatype gc_error = CheckFailed | OutOfBounds | OutOfFuel | NullDereference | FatalError | Blocked

section \<open>Scratch page cache (FPageAllocator)\<close>

text \<open>
  A page is the address \<^verbatim>\<open>void*\<close> of a 4 KiB block. The collector keeps one
  \<^verbatim>\<open>FWorkerCache\<close> per worker (a fixed array of \<^verbatim>\<open>Capacity\<close> slots of which the
  first \<^verbatim>\<open>Num\<close> are in use, modelled as the list of the used slots) and one
  \<^verbatim>\<open>FSharedCache\<close> (an unbounded array behind a critical section). Calls of
  \<^verbatim>\<open>FMemory::Free\<close> are recorded in \<open>Freed\<close>, oldest first.
\<close>

type_synonym page = nat

definition MaxWorkers :: nat where
  "MaxWorkers = 16"

definition PageSize :: nat where
  "PageSize = 4096"

definition WorkerCache_Capacity :: nat where
  "WorkerCache_Capacity = 512 div MaxWorkers"

record FPageAllocator =
  SharedCache :: "page list"
  WorkerCaches :: "page list list"
  Freed :: "page list"

definition IsValidPage :: "page \<Rightarrow> bool" where
  "IsValidPage Page = (Page \<noteq> 0 \<and> Page mod PageSize = 0)"

text \<open>\<^verbatim>\<open>FWorkerCache::Push\<close>: stores the page when \<^verbatim>\<open>Num < Capacity\<close> and
  reports whether it did.\<close>

definition WorkerCache_Push :: "page list \<Rightarrow> page \<Rightarrow> gc_error + (bool \<times> page list)" where
  "WorkerCache_Push Pages Page =
     (if Page = 0 then Inl CheckFailed
      else if length Pages < WorkerCache_Capacity then Inr (True, Pages @ [Page])
      else Inr (False, Pages))"

definition WorkerCache_Pop :: "page list \<Rightarrow> page option \<times> page list" where
  "WorkerCache_Pop Pages = (if Pages \<noteq> [] then (Some (last Pages), butlast Pages) else (None, Pages))"

definition SharedCache_Push :: "page list \<Rightarrow> page \<Rightarrow> page list" where
  "SharedCache_Push Pages Page = Pages @ [Page]"

definition SharedCache_Pop :: "page list \<Rightarrow> page option \<times> page list" where
  "SharedCache_Pop Pages = (if Pages = [] then (None, Pages) else (Some (last Pages), butlast Pages))"

text \<open>\<^verbatim>\<open>FSharedCache::PushSurplus\<close>: moves the pages of a worker cache beyond the
  first \<open>NumWorkerInitialPages = 2 + GetNumSlowAROs()\<close> to the shared cache.\<close>

definition SharedCache_PushSurplus :: "nat \<Rightarrow> page list \<Rightarrow> page list \<Rightarrow> page list \<times> page list" where
  "SharedCache_PushSurplus NumSlowAROs Shared Worker =
     (let NumWorkerInitialPages = 2 + NumSlowAROs in
      if length Worker > NumWorkerInitialPages
      then (Shared @ drop NumWorkerInitialPages Worker, take NumWorkerInitialPages Worker)
      else (Shared, Worker))"

text \<open>\<^verbatim>\<open>FPageAllocator::FreePage\<close>: checks the page and hands it to
  \<^verbatim>\<open>FMemory::Free\<close>.\<close>

definition FreePage :: "page \<Rightarrow> FPageAllocator \<Rightarrow> gc_error + FPageAllocator" where
  "FreePage Page a =
     (if \<not> IsValidPage Page then Inl CheckFailed else Inr (a\<lparr>Freed := Freed a @ [Page]\<rparr>))"

text \<open>\<^verbatim>\<open>FPageAllocator::AllocatePage\<close>: the worker's cache first, then the shared
  cache, then \<^verbatim>\<open>FMemory::Malloc\<close>, whose result is the parameter \<open>NewPage\<close>.\<close>

definition AllocatePage :: "nat \<Rightarrow> page \<Rightarrow> FPageAllocator \<Rightarrow> gc_error + (page \<times> FPageAllocator)" where
  "AllocatePage WorkerIdx NewPage a =
     (if \<not> (WorkerIdx < MaxWorkers \<and> WorkerIdx < length (WorkerCaches a)) then Inl CheckFailed
      else case WorkerCache_Pop (WorkerCaches a ! WorkerIdx) of
        (Some WorkerPage, Pages') \<Rightarrow>
          if IsValidPage WorkerPage
          then Inr (WorkerPage, a\<lparr>WorkerCaches := (WorkerCaches a)[WorkerIdx := Pages']\<rparr>)
          else Inl CheckFailed
      | (None, _) \<Rightarrow>
          (case SharedCache_Pop (SharedCache a) of
             (Some SharedPage, Shared') \<Rightarrow>
               if IsValidPage SharedPage then Inr (SharedPage, a\<lparr>SharedCache := Shared'\<rparr>)
               else Inl CheckFailed
           | (None, _) \<Rightarrow> Inr (NewPage, a)))"

text \<open>\<^verbatim>\<open>FPageAllocator::ReturnWorkerPage\<close>: the page goes to the worker's cache;
  when \<^verbatim>\<open>Push\<close> reports that the cache is full the page is passed to
  \<^verbatim>\<open>FreePage\<close>. An index outside \<^verbatim>\<open>WorkerCaches\<close> is outside the array in the
  source and is an error here.\<close>

definition ReturnWorkerPage :: "nat \<Rightarrow> page \<Rightarrow> FPageAllocator \<Rightarrow> gc_error + FPageAllocator" where
  "ReturnWorkerPage WorkerIdx Page a =
     (if \<not> IsValidPage Page then Inl CheckFailed
      else if \<not> WorkerIdx < length (WorkerCaches a) then Inl OutOfBounds
      else case WorkerCache_Push (WorkerCaches a ! WorkerIdx) Page of
        Inl e \<Rightarrow> Inl e
      | Inr (True, Pages') \<Rightarrow> Inr (a\<lparr>WorkerCaches := (WorkerCaches a)[WorkerIdx := Pages']\<rparr>)
      | Inr (False, _) \<Rightarrow> FreePage Page a)"

definition ReturnSharedPage :: "page \<Rightarrow> FPageAllocator \<Rightarrow> gc_error + FPageAllocator" where
  "ReturnSharedPage Page a =
     (if \<not> IsValidPage Page then Inl CheckFailed
      else Inr (a\<lparr>SharedCache := SharedCache_Push (SharedCache a) Page\<rparr>))"

definition CountBytes :: "FPageAllocator \<Rightarrow> nat" where
  "CountBytes a = (length (SharedCache a) + sum_list (map length (WorkerCaches a))) * PageSize"

text \<open>An allocator whose worker 0 holds \<open>Capacity = 32\<close> pages and whose other
  caches are empty.\<close>

definition full_worker_alloc :: FPageAllocator where
  "full_worker_alloc =
     \<lparr>SharedCache = [], WorkerCaches = map (\<lambda>k. (k + 1) * 4096) [0..<32] # replicate 15 [],
      Freed = []\<rparr>"


section \<open>Work-stealing queue (FBoundedWorkstealingQueue, FWorkstealingQueue)\<close>

text \<open>
  A slot of the bounded queue is a \<^verbatim>\<open>uint64\<close>: \<open>FreeSlot = 0\<close>, \<open>TakenSlot = 1\<close>, or the
  address of a work block. \<^verbatim>\<open>Head\<close> and \<^verbatim>\<open>Tail\<close> are \<^verbatim>\<open>uint32\<close> counters that wrap;
  \<^verbatim>\<open>Head\<close> starts at \<^verbatim>\<open>~0u\<close>. The operations are modelled as one thread runs them: an
  atomic load reads the slot, a compare-exchange on the value just read succeeds.
\<close>

type_synonym block = "64 word"

definition Queue_Capacity :: nat where
  "Queue_Capacity = 16"

definition FreeSlot :: "64 word" where
  "FreeSlot = 0"

definition TakenSlot :: "64 word" where
  "TakenSlot = 1"

record FBoundedWorkstealingQueue =
  Head :: "32 word"
  Tail :: "32 word"
  Slots :: "64 word list"

definition BoundedQueue_init :: FBoundedWorkstealingQueue where
  "BoundedQueue_init = \<lparr>Head = NOT 0, Tail = 0, Slots = replicate Queue_Capacity 0\<rparr>"

text \<open>\<^verbatim>\<open>Push\<close>, called by the single producer: stores the block in the slot after
  \<^verbatim>\<open>Head\<close> when that slot is free.\<close>

definition Bounded_Push :: "block \<Rightarrow> FBoundedWorkstealingQueue \<Rightarrow> bool \<times> FBoundedWorkstealingQueue" where
  "Bounded_Push Item q =
     (let Idx = unat (Head q + 1) mod Queue_Capacity;
          Slot = Slots q ! Idx
      in if Slot = FreeSlot
         then (True, q\<lparr>Slots := (Slots q)[Idx := Item], Head := Head q + 1\<rparr>)
         else (False, q))"

text \<open>\<^verbatim>\<open>Pop\<close>, called by the single producer: takes the block at \<^verbatim>\<open>Head\<close>.\<close>

definition Bounded_Pop :: "FBoundedWorkstealingQueue \<Rightarrow> block option \<times> FBoundedWorkstealingQueue" where
  "Bounded_Pop q =
     (let Idx = unat (Head q) mod Queue_Capacity;
          Slot = Slots q ! Idx
      in if TakenSlot < Slot
         then (Some Slot, q\<lparr>Slots := (Slots q)[Idx := FreeSlot], Head := Head q - 1\<rparr>)
         else (None, q))"

text \<open>\<^verbatim>\<open>Steal\<close>, called by other consumers: a \<^verbatim>\<open>while (true)\<close> loop that returns
  \<^verbatim>\<open>nullptr\<close> on a free slot, takes the block at \<^verbatim>\<open>Tail\<close> otherwise, and goes round
  again while the slot reads \<open>TakenSlot\<close>. The outer \<open>None\<close> is the loop that never
  returns.\<close>

partial_function (option) Bounded_Steal ::
  "FBoundedWorkstealingQueue \<Rightarrow> (block option \<times> FBoundedWorkstealingQueue) option" where
  "Bounded_Steal q =
     (let IdxVer = Tail q;
          Idx = unat IdxVer mod Queue_Capacity;
          Slot = Slots q ! Idx
      in if Slot = FreeSlot then Some (None, q)
         else if Slot \<noteq> TakenSlot
         then Some (Some Slot, q\<lparr>Tail := IdxVer + 1, Slots := (Slots q)[Idx := FreeSlot]\<rparr>)
         else Bounded_Steal q)"

record FWorkstealingQueue =
  SharedBlocks :: FBoundedWorkstealingQueue
  LocalBlocks :: "block list"

definition Queue_init :: FWorkstealingQueue where
  "Queue_init = \<lparr>SharedBlocks = BoundedQueue_init, LocalBlocks = []\<rparr>"

definition Queue_Push :: "block \<Rightarrow> FWorkstealingQueue \<Rightarrow> FWorkstealingQueue" where
  "Queue_Push Block q =
     (case Bounded_Push Block (SharedBlocks q) of
        (True, s) \<Rightarrow> q\<lparr>SharedBlocks := s\<rparr>
      | (False, s) \<Rightarrow> q\<lparr>SharedBlocks := s, LocalBlocks := LocalBlocks q @ [Block]\<rparr>)"

text \<open>The loop of \<^verbatim>\<open>FWorkstealingQueue::Pop\<close> that moves the remaining local blocks,
  last first, to the shared queue while \<^verbatim>\<open>Push\<close> succeeds; it returns the new
  \<^verbatim>\<open>LocalNum\<close>.\<close>

fun move_to_shared :: "nat \<Rightarrow> block list \<Rightarrow> FBoundedWorkstealingQueue \<Rightarrow> nat \<times> FBoundedWorkstealingQueue" where
  "move_to_shared 0 Local s = (0, s)"
| "move_to_shared (Suc n) Local s =
     (case Bounded_Push (Local ! n) s of
        (True, s') \<Rightarrow> move_to_shared n Local s'
      | (False, s') \<Rightarrow> (Suc n, s'))"

definition Queue_Pop :: "FWorkstealingQueue \<Rightarrow> block option \<times> FWorkstealingQueue" where
  "Queue_Pop q =
     (let LocalNum = length (LocalBlocks q) in
      if LocalNum = 0
      then (case Bounded_Pop (SharedBlocks q) of (r, s) \<Rightarrow> (r, q\<lparr>SharedBlocks := s\<rparr>))
      else (let Out = LocalBlocks q ! (LocalNum - 1) in
            case move_to_shared (LocalNum - 1) (LocalBlocks q) (SharedBlocks q) of
              (LocalNum', s) \<Rightarrow>
                (Some Out, \<lparr>SharedBlocks = s, LocalBlocks = take LocalNum' (LocalBlocks q)\<rparr>)))"

definition Queue_Steal :: "FWorkstealingQueue \<Rightarrow> (block option \<times> FWorkstealingQueue) option" where
  "Queue_Steal q =
     (case Bounded_Steal (SharedBlocks q) of
        None \<Rightarrow> None
      | Some (r, s) \<Rightarrow> Some (r, q\<lparr>SharedBlocks := s\<rparr>))"

text \<open>A run of owner operations from a queue, with the result of every \<^verbatim>\<open>Pop\<close> in
  order; and the same operations on a stack, which is what the specification says of the
  owner: \<^verbatim>\<open>Pop\<close> returns the most recently pushed block not yet removed, or
  \<^verbatim>\<open>nullptr\<close> when there is none.\<close>

datatype queue_op = OpPush block | OpPop

fun run_queue :: "queue_op list \<Rightarrow> FWorkstealingQueue \<Rightarrow> block option list \<times> FWorkstealingQueue" where
  "run_queue [] q = ([], q)"
| "run_queue (OpPush b # ops) q = run_queue ops (Queue_Push b q)"
| "run_queue (OpPop # ops) q =
     (case Queue_Pop q of (r, q') \<Rightarrow> (case run_queue ops q' of (rs, q'') \<Rightarrow> (r # rs, q'')))"

fun run_stack :: "queue_op list \<Rightarrow> block list \<Rightarrow> block option list \<times> block list" where
  "run_stack [] stk = ([], stk)"
| "run_stack (OpPush b # ops) stk = run_stack ops (b # stk)"
| "run_stack (OpPop # ops) [] = (case run_stack ops [] of (rs, stk') \<Rightarrow> (None # rs, stk'))"
| "run_stack (OpPop # ops) (b # stk) = (case run_stack ops stk of (rs, stk') \<Rightarrow> (Some b # rs, stk'))"

fun pushed :: "queue_op list \<Rightarrow> block list" where
  "pushed [] = []"
| "pushed (OpPush b # ops) = b # pushed ops"
| "pushed (OpPop # ops) = pushed ops"

text \<open>A block address is neither of the two sentinels (the \<^verbatim>\<open>checkSlow\<close> of
  \<^verbatim>\<open>Push\<close>).\<close>

definition is_block :: "block \<Rightarrow> bool" where
  "is_block b = (TakenSlot < b)"

text \<open>The queue holds no block: every slot is free and the local overflow is empty.\<close>

definition Queue_holds_no_blocks :: "FWorkstealingQueue \<Rightarrow> bool" where
  "Queue_holds_no_blocks q =
     (LocalBlocks q = [] \<and> list_all (\<lambda>Slot. Slot = FreeSlot) (Slots (SharedBlocks q)))"

text \<open>The representation of a stack by a queue that only its owner has used: the shared
  slots hold the oldest blocks from slot 0 upwards, the local overflow the newer ones, and
  the overflow is in use only while the shared buffer is full.\<close>

definition queue_rel :: "FWorkstealingQueue \<Rightarrow> block list \<Rightarrow> bool" where
  "queue_rel q stk =
     (\<exists>sh. length sh \<le> Queue_Capacity
        \<and> Slots (SharedBlocks q) = sh @ replicate (Queue_Capacity - length sh) FreeSlot
        \<and> Head (SharedBlocks q) = word_of_nat (length sh) - 1
        \<and> (LocalBlocks q \<noteq> [] \<longrightarrow> length sh = Queue_Capacity)
        \<and> list_all is_block (sh @ LocalBlocks q)
        \<and> stk = rev (sh @ LocalBlocks q))"


definition lifo_ops :: "queue_op list" where
  "lifo_ops =
     map OpPush [4096, 8192, 12288, 16384, 20480, 24576, 28672, 32768, 36864, 40960, 45056,
                 49152, 53248, 57344, 61440, 65536, 69632, 73728]
     @ [OpPop, OpPop, OpPop, OpPush 77824,
        OpPop, OpPop, OpPop, OpPop, OpPop, OpPop, OpPop, OpPop, OpPop, OpPop, OpPop, OpPop,
        OpPop, OpPop, OpPop, OpPop, OpPop]"


section \<open>Object table, clusters and reference slots\<close>

text \<open>
  The flags of \<^verbatim>\<open>EInternalObjectFlags\<close> that the collector tests, as a datatype; the
  \<^verbatim>\<open>int32 Flags\<close> word of an object item is the set of the flags it has.
  \<^verbatim>\<open>GarbageCollectionKeepFlags\<close> is a mask of several bits in the source; the collector only
  asks whether an item has any of them, which is membership of this one flag here.
  \<^verbatim>\<open>EObjectFlags\<close> (the \<^verbatim>\<open>RF_\<close> flags of the object itself) is a 32-bit mask.
\<close>

datatype EInternalObjectFlags =
  Garbage | ReachableInCluster | ClusterRoot | Unreachable | PendingKill | RootSet
  | PendingConstruction | GarbageCollectionKeepFlags

type_synonym EObjectFlags = "32 word"

definition RF_NoFlags :: EObjectFlags where
  "RF_NoFlags = 0"

text \<open>An object is named by its index in the object table (\<^verbatim>\<open>ObjectToIndex\<close> is the
  identity); \<^verbatim>\<open>Object\<close> is \<open>None\<close> for an empty slot. \<open>ObjectFlags\<close> are the
  \<^verbatim>\<open>EObjectFlags\<close> of the object the item points to.

  \<^verbatim>\<open>FUObjectItem\<close> and its accessors are declared outside the sources at hand; they are
  modelled as the engine's header has them, on the one field \<^verbatim>\<open>ClusterRootIndex\<close>:
  \<^verbatim>\<open>GetOwnerIndex()\<close> returns the field (positive: the item is a cluster member and this is
  its root's index; negative: the item is a cluster root), \<^verbatim>\<open>SetOwnerIndex\<close> writes it,
  and \<^verbatim>\<open>GetClusterIndex()\<close> decodes the cluster index of a root as
  \<^verbatim>\<open>-ClusterRootIndex - 1\<close>. \<open>OwnerIndex\<close> and \<open>ClusterIndex\<close> are what the two getters
  return.\<close>

type_synonym UObject = nat

record FUObjectItem =
  Object :: "UObject option"
  Flags :: "EInternalObjectFlags set"
  ClusterRootIndex :: int
  ObjectFlags :: EObjectFlags

abbreviation OwnerIndex :: "FUObjectItem \<Rightarrow> int" where
  "OwnerIndex \<equiv> ClusterRootIndex"

definition SetOwnerIndex :: "int \<Rightarrow> FUObjectItem \<Rightarrow> FUObjectItem" where
  "SetOwnerIndex InOwnerIndex Item = Item\<lparr>ClusterRootIndex := InOwnerIndex\<rparr>"

definition ClusterIndex :: "FUObjectItem \<Rightarrow> int" where
  "ClusterIndex Item = - ClusterRootIndex Item - 1"

record FUObjectCluster =
  Objects :: "int list"
  ReferencedClusters :: "int list"
  MutableObjects :: "int list"
  bNeedsDissolving :: bool

text \<open>A reference slot holds a null pointer, an object handle that is not resolved, or
  a pointer to an object.\<close>

datatype ObjectPtr = nullptr | UnresolvedHandle nat | ObjPtr UObject

text \<open>The collector's view of the heap: \<^verbatim>\<open>GUObjectArray\<close>, \<^verbatim>\<open>GUObjectClusters\<close> with its
  needs-dissolving bit and the clusters handed to \<^verbatim>\<open>FreeCluster\<close>, the memory that holds
  reference slots (by address), the container that receives objects to serialize
  (\<^verbatim>\<open>Context.ObjectsToSerialize\<close> or \<^verbatim>\<open>InitialObjects\<close>), and
  \<^verbatim>\<open>Context.Stats.bFoundGarbageRef\<close>.\<close>

record gc_heap =
  ObjectItems :: "FUObjectItem list"
  Clusters :: "FUObjectCluster list"
  ClustersNeedDissolving :: bool
  FreedClusters :: "int list"
  RefSlots :: "nat \<Rightarrow> ObjectPtr"
  ObjectsToSerialize :: "UObject option list"
  bFoundGarbageRef :: bool

definition HasAnyFlags :: "EInternalObjectFlags set \<Rightarrow> FUObjectItem \<Rightarrow> bool" where
  "HasAnyFlags FlagsToCheck Item = (Flags Item \<inter> FlagsToCheck \<noteq> {})"

definition SetFlags :: "EInternalObjectFlags set \<Rightarrow> FUObjectItem \<Rightarrow> FUObjectItem" where
  "SetFlags FlagsToSet Item = Item\<lparr>Flags := Flags Item \<union> FlagsToSet\<rparr>"

definition ClearFlags :: "EInternalObjectFlags set \<Rightarrow> FUObjectItem \<Rightarrow> FUObjectItem" where
  "ClearFlags FlagsToClear Item = Item\<lparr>Flags := Flags Item - FlagsToClear\<rparr>"

definition IsUnreachable :: "FUObjectItem \<Rightarrow> bool" where
  "IsUnreachable Item = (Unreachable \<in> Flags Item)"

definition IsRootSet :: "FUObjectItem \<Rightarrow> bool" where
  "IsRootSet Item = (RootSet \<in> Flags Item)"

definition IsPendingKill :: "FUObjectItem \<Rightarrow> bool" where
  "IsPendingKill Item = (PendingKill \<in> Flags Item)"

definition Object_HasAnyFlags :: "EObjectFlags \<Rightarrow> FUObjectItem \<Rightarrow> bool" where
  "Object_HasAnyFlags FlagsToCheck Item = (ObjectFlags Item AND FlagsToCheck \<noteq> 0)"

text \<open>\<^verbatim>\<open>IndexToObjectUnsafeForGC\<close> and \<^verbatim>\<open>GUObjectClusters[...]\<close>: an index outside the
  table is outside the array in the source and the error \<open>OutOfBounds\<close> here.\<close>

definition valid_index :: "int \<Rightarrow> 'a list \<Rightarrow> bool" where
  "valid_index i xs = (0 \<le> i \<and> nat i < length xs)"

definition upd_item :: "int \<Rightarrow> (FUObjectItem \<Rightarrow> FUObjectItem) \<Rightarrow> gc_heap \<Rightarrow> gc_heap" where
  "upd_item i f h = h\<lparr>ObjectItems := (ObjectItems h)[nat i := f (ObjectItems h ! nat i)]\<rparr>"

definition upd_cluster :: "int \<Rightarrow> (FUObjectCluster \<Rightarrow> FUObjectCluster) \<Rightarrow> gc_heap \<Rightarrow> gc_heap" where
  "upd_cluster i f h = h\<lparr>Clusters := (Clusters h)[nat i := f (Clusters h ! nat i)]\<rparr>"

definition Add_Object :: "UObject option \<Rightarrow> gc_heap \<Rightarrow> gc_heap" where
  "Add_Object Obj h = h\<lparr>ObjectsToSerialize := ObjectsToSerialize h @ [Obj]\<rparr>"

section \<open>Cluster marking\<close>

text \<open>The first loop of \<^verbatim>\<open>MarkReferencedClustersAsReachable\<close>, over the positions of
  \<^verbatim>\<open>Cluster.ReferencedClusters\<close>: a live referenced root loses \<open>Unreachable\<close>; an entry
  whose root is \<open>PendingKill\<close> or \<open>Garbage\<close> is overwritten with \<open>-1\<close> and the result
  flag is raised.\<close>

fun MarkReferencedClusters_loop ::
  "int \<Rightarrow> nat list \<Rightarrow> bool \<Rightarrow> gc_heap \<Rightarrow> gc_error + (bool \<times> gc_heap)" where
  "MarkReferencedClusters_loop ci [] b h = Inr (b, h)"
| "MarkReferencedClusters_loop ci (k # ks) b h =
     (let ReferencedClusterIndex = ReferencedClusters (Clusters h ! nat ci) ! k in
      if ReferencedClusterIndex \<ge> 0 then
        if \<not> valid_index ReferencedClusterIndex (ObjectItems h) then Inl OutOfBounds
        else
          let Item = ObjectItems h ! nat ReferencedClusterIndex in
          if \<not> HasAnyFlags {PendingKill, Garbage} Item then
            if IsUnreachable Item
            then MarkReferencedClusters_loop ci ks b
                   (upd_item ReferencedClusterIndex (ClearFlags {Unreachable}) h)
            else MarkReferencedClusters_loop ci ks b h
          else MarkReferencedClusters_loop ci ks True
                 (upd_cluster ci (\<lambda>c. c\<lparr>ReferencedClusters := (ReferencedClusters c)[k := - 1]\<rparr>) h)
      else MarkReferencedClusters_loop ci ks b h)"

text \<open>One iteration of the loop of \<^verbatim>\<open>MarkClusterMutableObjectsAsReachable\<close> over
  position \<open>k\<close> of \<^verbatim>\<open>Cluster.MutableObjects\<close>, up to its nested call: the iteration
  fails, or goes on with the next position, or first marks the clusters referenced by
  another cluster. A live unreachable object loses \<open>Unreachable\<close> and is added to the
  container (and, being a cluster root, has its referenced clusters marked); a clustered
  object without \<open>ReachableInCluster\<close> gets that flag and its unreachable root is
  cleared and marked; an entry whose object is \<open>PendingKill\<close> or \<open>Garbage\<close> is
  overwritten with \<open>-1\<close> and the result flag is raised.\<close>

datatype mark_step = StepFail gc_error | StepNext bool gc_heap | StepMark int bool gc_heap

definition MarkClusterMutableObjects_step :: "int \<Rightarrow> nat \<Rightarrow> bool \<Rightarrow> gc_heap \<Rightarrow> mark_step" where
  "MarkClusterMutableObjects_step ci k b h =
     (let ReferencedMutableObjectIndex = MutableObjects (Clusters h ! nat ci) ! k in
      if ReferencedMutableObjectIndex \<ge> 0 then
        if \<not> valid_index ReferencedMutableObjectIndex (ObjectItems h) then StepFail OutOfBounds
        else
          let Item = ObjectItems h ! nat ReferencedMutableObjectIndex in
          if \<not> HasAnyFlags {PendingKill, Garbage} Item then
            if IsUnreachable Item then
              (let h1 = Add_Object (Object Item)
                          (upd_item ReferencedMutableObjectIndex (ClearFlags {Unreachable}) h) in
               if OwnerIndex Item < 0 then StepMark (ClusterIndex Item) b h1
               else StepNext b h1)
            else if OwnerIndex Item > 0 \<and> \<not> HasAnyFlags {ReachableInCluster} Item then
              (let h1 = upd_item ReferencedMutableObjectIndex (SetFlags {ReachableInCluster}) h in
               if \<not> valid_index (OwnerIndex Item) (ObjectItems h1) then StepFail OutOfBounds
               else
                 let RootItem = ObjectItems h1 ! nat (OwnerIndex Item) in
                 if IsUnreachable RootItem
                 then StepMark (ClusterIndex RootItem) b
                        (upd_item (OwnerIndex Item) (ClearFlags {Unreachable}) h1)
                 else StepNext b h1)
            else StepNext b h
          else StepNext True
                 (upd_cluster ci (\<lambda>c. c\<lparr>MutableObjects := (MutableObjects c)[k := - 1]\<rparr>) h)
      else StepNext b h)"

text \<open>The end of \<^verbatim>\<open>MarkReferencedClustersAsReachable\<close>: when an entry was overwritten,
  every object of the cluster is added to the container and the cluster is flagged for
  dissolving.\<close>

definition AddClusterObjectsToSerialize :: "int \<Rightarrow> gc_heap \<Rightarrow> gc_error + gc_heap" where
  "AddClusterObjectsToSerialize ci h =
     (if \<not> list_all (\<lambda>i. valid_index i (ObjectItems h)) (Objects (Clusters h ! nat ci))
      then Inl OutOfBounds
      else Inr ((upd_cluster ci (\<lambda>c. c\<lparr>bNeedsDissolving := True\<rparr>)
                  (fold (\<lambda>i. Add_Object (Object (ObjectItems h ! nat i)))
                     (Objects (Clusters h ! nat ci)) h))
                \<lparr>ClustersNeedDissolving := True\<rparr>))"

text \<open>\<^verbatim>\<open>MarkReferencedClustersAsReachable\<close> and the loop of
  \<^verbatim>\<open>MarkClusterMutableObjectsAsReachable\<close> call each other; every nested call follows the
  clearing of an \<open>Unreachable\<close> flag, so the recursion ends in the source. The model
  counts the nesting with fuel and fails with \<open>OutOfFuel\<close> when it is used up. The loops are
  written as one thread runs them: an atomic clear or set that finds the flag as read
  succeeds.\<close>

fun MarkReferencedClustersAsReachable :: "nat \<Rightarrow> int \<Rightarrow> gc_heap \<Rightarrow> gc_error + gc_heap"
  and MarkClusterMutableObjects_loop ::
    "nat \<Rightarrow> int \<Rightarrow> nat list \<Rightarrow> bool \<Rightarrow> gc_heap \<Rightarrow> gc_error + (bool \<times> gc_heap)" where
  "MarkReferencedClustersAsReachable 0 ci h = Inl OutOfFuel"
| "MarkReferencedClustersAsReachable (Suc fuel) ci h =
     (if \<not> valid_index ci (Clusters h) then Inl OutOfBounds
      else
        case MarkReferencedClusters_loop ci
               [0..<length (ReferencedClusters (Clusters h ! nat ci))] False h of
          Inl e \<Rightarrow> Inl e
        | Inr (b1, h1) \<Rightarrow>
            (case MarkClusterMutableObjects_loop fuel ci
                    [0..<length (MutableObjects (Clusters h1 ! nat ci))] False h1 of
               Inl e \<Rightarrow> Inl e
             | Inr (b2, h2) \<Rightarrow>
                 if b1 \<or> b2 then AddClusterObjectsToSerialize ci h2 else Inr h2))"
| "MarkClusterMutableObjects_loop fuel ci [] b h = Inr (b, h)"
| "MarkClusterMutableObjects_loop fuel ci (k # ks) b h =
     (case MarkClusterMutableObjects_step ci k b h of
        StepFail e \<Rightarrow> Inl e
      | StepNext b' h' \<Rightarrow> MarkClusterMutableObjects_loop fuel ci ks b' h'
      | StepMark cj b' h' \<Rightarrow>
          (case MarkReferencedClustersAsReachable fuel cj h' of
             Inl e \<Rightarrow> Inl e
           | Inr h2 \<Rightarrow> MarkClusterMutableObjects_loop fuel ci ks b' h2))"

section \<open>Reachability processor (TReachabilityProcessor)\<close>

text \<open>\<^verbatim>\<open>EGCOptions\<close>: the two option bits.\<close>

record EGCOptions =
  Parallel :: bool
  WithPendingKill :: bool

datatype EKillable = No | Yes

datatype EOrigin = Other | Blueprint

definition IsWithPendingKill :: "EGCOptions \<Rightarrow> bool" where
  "IsWithPendingKill Options = WithPendingKill Options"

definition KillFlag :: "EGCOptions \<Rightarrow> EInternalObjectFlags" where
  "KillFlag Options = (if IsWithPendingKill Options then PendingKill else Garbage)"

definition MayKill :: "EGCOptions \<Rightarrow> EOrigin \<Rightarrow> bool \<Rightarrow> EKillable" where
  "MayKill Options Origin bAllowKill =
     (if bAllowKill \<and> (IsWithPendingKill Options \<or> Origin = Blueprint) then Yes else No)"

text \<open>\<^verbatim>\<open>FReferenceMetadata\<close>: the item of the referenced object and the flags read from it
  when the metadata was built.\<close>

record FReferenceMetadata =
  MetaFlags :: "EInternalObjectFlags set"
  MetaObjectItem :: nat

definition Metadata_of :: "nat \<Rightarrow> gc_heap \<Rightarrow> FReferenceMetadata" where
  "Metadata_of ObjectIndex h =
     \<lparr>MetaFlags = Flags (ObjectItems h ! ObjectIndex), MetaObjectItem = ObjectIndex\<rparr>"

definition Metadata_Has :: "EInternalObjectFlags \<Rightarrow> FReferenceMetadata \<Rightarrow> bool" where
  "Metadata_Has InFlags Metadata = (InFlags \<in> MetaFlags Metadata)"

text \<open>\<^verbatim>\<open>ValidateReference\<close>: the pointer is not in the permanent object pool, is not null,
  and is a resolved handle. (The fatal log under \<^verbatim>\<open>ENABLE_GC_OBJECT_CHECKS\<close> is left
  out.)\<close>

definition ValidateReference :: "(UObject \<Rightarrow> bool) \<Rightarrow> ObjectPtr \<Rightarrow> bool" where
  "ValidateReference PermanentPool Obj =
     (case Obj of nullptr \<Rightarrow> False | UnresolvedHandle _ \<Rightarrow> False | ObjPtr p \<Rightarrow> \<not> PermanentPool p)"

definition KillReference :: "nat \<Rightarrow> gc_heap \<Rightarrow> gc_heap" where
  "KillReference Slot h = h\<lparr>RefSlots := (RefSlots h)(Slot := nullptr)\<rparr>"

text \<open>\<^verbatim>\<open>ClearUnreachableInterlocked\<close>: whether the flag was cleared, and the item.\<close>

definition ClearUnreachableInterlocked :: "FUObjectItem \<Rightarrow> bool \<times> FUObjectItem" where
  "ClearUnreachableInterlocked Item =
     (if Unreachable \<in> Flags Item then (True, ClearFlags {Unreachable} Item) else (False, Item))"

text \<open>\<^verbatim>\<open>DetectGarbageReference\<close>: \<^verbatim>\<open>TrackPotentialGarbageReference\<close> is declared outside
  the sources at hand; by its name and its use it records in \<^verbatim>\<open>bFoundGarbageRef\<close> that a
  reference to a garbage object was seen.\<close>

definition DetectGarbageReference :: "EGCOptions \<Rightarrow> FReferenceMetadata \<Rightarrow> gc_heap \<Rightarrow> gc_heap" where
  "DetectGarbageReference Options Metadata h =
     h\<lparr>bFoundGarbageRef :=
         bFoundGarbageRef h \<or> (\<not> IsWithPendingKill Options \<and> Metadata_Has (KillFlag Options) Metadata)\<rparr>"

text \<open>\<^verbatim>\<open>HandleValidReference\<close>: returns whether this reference was the first to reach
  the object.\<close>

definition HandleValidReference ::
  "EGCOptions \<Rightarrow> nat \<Rightarrow> UObject \<Rightarrow> FReferenceMetadata \<Rightarrow> gc_heap \<Rightarrow> gc_error + (bool \<times> gc_heap)" where
  "HandleValidReference Options fuel Obj Metadata h =
     (let i = MetaObjectItem Metadata; Item = ObjectItems h ! i in
      case ClearUnreachableInterlocked Item of
        (True, Item') \<Rightarrow>
          (let h1 = h\<lparr>ObjectItems := (ObjectItems h)[i := Item']\<rparr> in
           if \<not> Metadata_Has ClusterRoot Metadata
           then Inr (True, Add_Object (Some Obj) h1)
           else (case MarkReferencedClustersAsReachable fuel (ClusterIndex Item) h1 of
                   Inl e \<Rightarrow> Inl e
                 | Inr h2 \<Rightarrow> Inr (True, h2)))
      | (False, _) \<Rightarrow>
          if OwnerIndex Item > 0 \<and> \<not> Metadata_Has ReachableInCluster Metadata then
            if \<not> valid_index (OwnerIndex Item) (ObjectItems h) then Inl OutOfBounds
            else
              let bNeedsDoing = (if Parallel Options then ReachableInCluster \<notin> Flags Item else True);
                  h1 = h\<lparr>ObjectItems := (ObjectItems h)[i := SetFlags {ReachableInCluster} Item]\<rparr>;
                  RootObjectItem = ObjectItems h1 ! nat (OwnerIndex Item)
              in if bNeedsDoing \<and> IsUnreachable RootObjectItem then
                   (case MarkReferencedClustersAsReachable fuel (ClusterIndex RootObjectItem)
                           (upd_item (OwnerIndex Item) (ClearFlags {Unreachable}) h1) of
                      Inl e \<Rightarrow> Inl e
                    | Inr h2 \<Rightarrow> Inr (False, h2))
                 else Inr (False, h1)
          else Inr (False, h))"

text \<open>\<^verbatim>\<open>ProcessReferenceDirectly<Killable>\<close> on the reference slot at address \<open>Slot\<close>.
  The \<^verbatim>\<open>check\<close> in the killing branch is the error \<open>CheckFailed\<close>; the \<^verbatim>\<open>checkSlow\<close>
  lines are left out.\<close>

definition ProcessReferenceDirectly ::
  "EGCOptions \<Rightarrow> nat \<Rightarrow> (UObject \<Rightarrow> bool) \<Rightarrow> UObject option \<Rightarrow> nat \<Rightarrow> EKillable \<Rightarrow> gc_heap
     \<Rightarrow> gc_error + gc_heap" where
  "ProcessReferenceDirectly Options fuel PermanentPool ReferencingObject Slot Killable h =
     (case RefSlots h Slot of
        ObjPtr Obj \<Rightarrow>
          if ValidateReference PermanentPool (ObjPtr Obj) then
            if \<not> Obj < length (ObjectItems h) then Inl OutOfBounds
            else
              let Metadata = Metadata_of Obj h;
                  bKillable = (Killable = Yes)
              in if Metadata_Has (KillFlag Options) Metadata \<and> bKillable then
                   if ReferencingObject \<noteq> None \<or> IsWithPendingKill Options
                   then Inr (KillReference Slot h)
                   else Inl CheckFailed
                 else (case HandleValidReference Options fuel Obj Metadata
                              (DetectGarbageReference Options Metadata h) of
                         Inl e \<Rightarrow> Inl e
                       | Inr (_, h') \<Rightarrow> Inr h')
          else Inr h
      | _ \<Rightarrow> Inr h)"

text \<open>\<^verbatim>\<open>HandleBatchedReference\<close> for a \<^verbatim>\<open>FResolvedMutableReference\<close> (a validated
  reference from the killable batcher: the object, and the address \<open>Mutable\<close> of its
  slot), and for a \<^verbatim>\<open>FImmutableReference\<close>.\<close>

definition HandleBatchedReference_Mutable ::
  "EGCOptions \<Rightarrow> nat \<Rightarrow> UObject \<Rightarrow> nat \<Rightarrow> FReferenceMetadata \<Rightarrow> gc_heap \<Rightarrow> gc_error + gc_heap" where
  "HandleBatchedReference_Mutable Options fuel Obj Mutable Metadata h =
     (if Metadata_Has (KillFlag Options) Metadata then Inr (KillReference Mutable h)
      else (case HandleValidReference Options fuel Obj Metadata h of
              Inl e \<Rightarrow> Inl e
            | Inr (_, h') \<Rightarrow> Inr h'))"

definition HandleBatchedReference_Immutable ::
  "EGCOptions \<Rightarrow> nat \<Rightarrow> UObject \<Rightarrow> FReferenceMetadata \<Rightarrow> gc_heap \<Rightarrow> gc_error + gc_heap" where
  "HandleBatchedReference_Immutable Options fuel Obj Metadata h =
     (case HandleValidReference Options fuel Obj Metadata (DetectGarbageReference Options Metadata h) of
        Inl e \<Rightarrow> Inl e
      | Inr (_, h') \<Rightarrow> Inr h')"


text \<open>A heap of three objects: object 0 is a live referencer, object 1 is garbage (and
  was marked unreachable), object 2 is pending kill. Slot 7 and slot 8 hold references to
  objects 1 and 2.\<close>

definition kill_heap :: gc_heap where
  "kill_heap =
     \<lparr>ObjectItems =
        [\<lparr>Object = Some 0, Flags = {}, ClusterRootIndex = 0, ObjectFlags = 0\<rparr>,
         \<lparr>Object = Some 1, Flags = {Garbage, Unreachable}, ClusterRootIndex = 0,
           ObjectFlags = 0\<rparr>,
         \<lparr>Object = Some 2, Flags = {PendingKill, Unreachable}, ClusterRootIndex = 0,
           ObjectFlags = 0\<rparr>],
      Clusters = [], ClustersNeedDissolving = False, FreedClusters = [],
      RefSlots = (\<lambda>a. if a = 7 then ObjPtr 1 else if a = 8 then ObjPtr 2 else nullptr),
      ObjectsToSerialize = [], bFoundGarbageRef = False\<rparr>"

definition no_pool :: "UObject \<Rightarrow> bool" where
  "no_pool p = False"


section \<open>Mark phase (FRealtimeGC::MarkObjectsAsUnreachable)\<close>

text \<open>
  The parallel pass of \<^verbatim>\<open>MarkObjectsAsUnreachable\<close> and the flattening of the per-thread
  arrays that follows it. The state of the pass: the object items, one
  \<^verbatim>\<open>ObjectsToSerializeArrays\<close> entry per thread, the two lock-free lists (of item
  indices), the object counter and \<^verbatim>\<open>InitialObjects\<close>. The part of the function after
  that (dissolving the listed clusters, marking the clusters referenced by the kept ones)
  is not part of this model.
\<close>

record mark_pass =
  MarkItems :: "FUObjectItem list"
  ObjectsToSerializeArrays :: "UObject option list list"
  ClustersToDissolveList :: "nat list"
  KeepClusterRefsList :: "nat list"
  ObjectCountDuringMarkPhase :: nat
  InitialObjects :: "UObject option list"

text \<open>The range of object indices of one task, as \<^verbatim>\<open>MarkObjectsAsUnreachable\<close> and
  \<^verbatim>\<open>GatherUnreachableObjects\<close> compute it from the number of items, the first index to
  visit and the number of threads (\<^verbatim>\<open>int32\<close> arithmetic, modelled on \<open>int\<close>; the
  values stay far from overflow).\<close>

definition stripe_bounds :: "int \<Rightarrow> int \<Rightarrow> int \<Rightarrow> int \<Rightarrow> int \<times> int" where
  "stripe_bounds ArrayNum FirstIndex NumThreads ThreadIndex =
     (let MaxNumberOfObjects = ArrayNum - FirstIndex;
          NumberOfObjectsPerThread = MaxNumberOfObjects div NumThreads + 1;
          FirstObjectIndex = ThreadIndex * NumberOfObjectsPerThread + FirstIndex;
          NumObjects = (if ThreadIndex < NumThreads - 1 then NumberOfObjectsPerThread
                        else MaxNumberOfObjects - (NumThreads - 1) * NumberOfObjectsPerThread);
          LastObjectIndex = min (ArrayNum - 1) (FirstObjectIndex + NumObjects - 1)
      in (FirstObjectIndex, LastObjectIndex))"

definition stripe_indices :: "int \<Rightarrow> int \<Rightarrow> int \<Rightarrow> int \<Rightarrow> nat list" where
  "stripe_indices ArrayNum FirstIndex NumThreads ThreadIndex =
     (case stripe_bounds ArrayNum FirstIndex NumThreads ThreadIndex of
        (FirstObjectIndex, LastObjectIndex) \<Rightarrow> map nat [FirstObjectIndex..LastObjectIndex])"

definition Local_Add :: "nat \<Rightarrow> UObject \<Rightarrow> mark_pass \<Rightarrow> mark_pass" where
  "Local_Add ThreadIndex Obj m =
     m\<lparr>ObjectsToSerializeArrays :=
         (ObjectsToSerializeArrays m)[ThreadIndex := ObjectsToSerializeArrays m ! ThreadIndex @ [Some Obj]]\<rparr>"

definition KeepClusterRefs_Push :: "nat \<Rightarrow> mark_pass \<Rightarrow> mark_pass" where
  "KeepClusterRefs_Push ObjectIndex m = m\<lparr>KeepClusterRefsList := KeepClusterRefsList m @ [ObjectIndex]\<rparr>"

definition ClustersToDissolve_Push :: "nat \<Rightarrow> mark_pass \<Rightarrow> mark_pass" where
  "ClustersToDissolve_Push ObjectIndex m =
     m\<lparr>ClustersToDissolveList := ClustersToDissolveList m @ [ObjectIndex]\<rparr>"

definition Mark_upd_item :: "nat \<Rightarrow> (FUObjectItem \<Rightarrow> FUObjectItem) \<Rightarrow> mark_pass \<Rightarrow> mark_pass" where
  "Mark_upd_item ObjectIndex f m = m\<lparr>MarkItems := (MarkItems m)[ObjectIndex := f (MarkItems m ! ObjectIndex)]\<rparr>"

text \<open>The body of the loop over object indices in one task: what the pass does with
  the item at \<open>ObjectIndex\<close>. \<open>bMarkAsUnreachable\<close> is cleared for an item with
  \<open>GarbageCollectionKeepFlags\<close>, or else for one that is not pending kill and has one of
  the non-empty \<open>KeepFlags\<close>; or else, a cluster root that is \<open>PendingKill\<close> or
  \<open>Garbage\<close> is pushed to the clusters to dissolve. The \<^verbatim>\<open>checkf\<close> at the top is the
  error \<open>CheckFailed\<close>; \<^verbatim>\<open>checkSlow\<close> lines are left out.\<close>

definition MarkObject :: "EObjectFlags \<Rightarrow> bool \<Rightarrow> nat \<Rightarrow> nat \<Rightarrow> mark_pass \<Rightarrow> gc_error + mark_pass" where
  "MarkObject KeepFlags bIsRerun ThreadIndex ObjectIndex m =
     (let ObjectItem = MarkItems m ! ObjectIndex in
      case Object ObjectItem of
        None \<Rightarrow> Inr m
      | Some Obj \<Rightarrow>
          if \<not> (bIsRerun \<or> \<not> HasAnyFlags {Unreachable, PendingConstruction} ObjectItem)
          then Inl CheckFailed
          else
            let m1 = Mark_upd_item ObjectIndex (ClearFlags {ReachableInCluster})
                       (m\<lparr>ObjectCountDuringMarkPhase := ObjectCountDuringMarkPhase m + 1\<rparr>)
            in if IsRootSet ObjectItem then
                 Inr (Local_Add ThreadIndex Obj
                        (if HasAnyFlags {ClusterRoot} ObjectItem \<or> OwnerIndex ObjectItem > 0
                         then KeepClusterRefs_Push ObjectIndex m1 else m1))
               else if OwnerIndex ObjectItem > 0 then
                 Inr (if HasAnyFlags {GarbageCollectionKeepFlags} ObjectItem
                      then Local_Add ThreadIndex Obj (KeepClusterRefs_Push ObjectIndex m1)
                      else m1)
               else
                 let bMarkAsUnreachable =
                       (if HasAnyFlags {GarbageCollectionKeepFlags} ObjectItem then False
                        else if \<not> IsPendingKill ObjectItem \<and> KeepFlags \<noteq> RF_NoFlags
                                \<and> Object_HasAnyFlags KeepFlags ObjectItem then False
                        else True);
                     m2 = (if \<not> HasAnyFlags {GarbageCollectionKeepFlags} ObjectItem
                              \<and> \<not> (\<not> IsPendingKill ObjectItem \<and> KeepFlags \<noteq> RF_NoFlags
                                     \<and> Object_HasAnyFlags KeepFlags ObjectItem)
                              \<and> HasAnyFlags {PendingKill, Garbage} ObjectItem
                              \<and> HasAnyFlags {ClusterRoot} ObjectItem
                           then ClustersToDissolve_Push ObjectIndex m1 else m1)
                 in if \<not> bMarkAsUnreachable then
                      Inr (let m3 = Local_Add ThreadIndex Obj m2 in
                           if HasAnyFlags {ClusterRoot} ObjectItem
                           then KeepClusterRefs_Push ObjectIndex m3 else m3)
                    else Inr (Mark_upd_item ObjectIndex (SetFlags {Unreachable}) m2))"

fun MarkStripe_loop :: "EObjectFlags \<Rightarrow> bool \<Rightarrow> nat \<Rightarrow> nat list \<Rightarrow> mark_pass \<Rightarrow> gc_error + mark_pass" where
  "MarkStripe_loop KeepFlags bIsRerun ThreadIndex [] m = Inr m"
| "MarkStripe_loop KeepFlags bIsRerun ThreadIndex (ObjectIndex # rest) m =
     (case MarkObject KeepFlags bIsRerun ThreadIndex ObjectIndex m of
        Inl e \<Rightarrow> Inl e
      | Inr m' \<Rightarrow> MarkStripe_loop KeepFlags bIsRerun ThreadIndex rest m')"

text \<open>\<^verbatim>\<open>ParallelFor\<close> over the thread indices: the tasks touch disjoint items, so a
  run is some order of the tasks, given by \<open>Schedule\<close>. (Finer interleavings only change
  the order of the entries of the two shared lists.)\<close>

fun MarkTasks :: "EObjectFlags \<Rightarrow> bool \<Rightarrow> int \<Rightarrow> int \<Rightarrow> nat list \<Rightarrow> mark_pass \<Rightarrow> gc_error + mark_pass" where
  "MarkTasks KeepFlags bIsRerun FirstGCIndex NumThreads [] m = Inr m"
| "MarkTasks KeepFlags bIsRerun FirstGCIndex NumThreads (ThreadIndex # rest) m =
     (case MarkStripe_loop KeepFlags bIsRerun ThreadIndex
             (stripe_indices (int (length (MarkItems m))) FirstGCIndex NumThreads (int ThreadIndex)) m of
        Inl e \<Rightarrow> Inl e
      | Inr m' \<Rightarrow> MarkTasks KeepFlags bIsRerun FirstGCIndex NumThreads rest m')"

text \<open>The pass from \<^verbatim>\<open>NumThreads = Max(1, GetNumWorkerThreads())\<close> fresh per-thread
  arrays, and then the appending of these arrays, in thread order, to
  \<^verbatim>\<open>InitialObjects\<close>.\<close>

definition MarkObjectsAsUnreachable_pass ::
  "EObjectFlags \<Rightarrow> bool \<Rightarrow> nat \<Rightarrow> int \<Rightarrow> nat list \<Rightarrow> FUObjectItem list \<Rightarrow> UObject option list
     \<Rightarrow> gc_error + mark_pass" where
  "MarkObjectsAsUnreachable_pass KeepFlags bIsRerun FirstGCIndex NumWorkerThreads Schedule Items Initial =
     (let NumThreads = max 1 NumWorkerThreads in
      case MarkTasks KeepFlags bIsRerun (int FirstGCIndex) NumThreads Schedule
             \<lparr>MarkItems = Items, ObjectsToSerializeArrays = replicate (nat NumThreads) [],
              ClustersToDissolveList = [], KeepClusterRefsList = [],
              ObjectCountDuringMarkPhase = 0, InitialObjects = Initial\<rparr> of
        Inl e \<Rightarrow> Inl e
      | Inr m \<Rightarrow> Inr (m\<lparr>InitialObjects := InitialObjects m @ concat (ObjectsToSerializeArrays m),
                       ObjectsToSerializeArrays := []\<rparr>))"

text \<open>What a task may change when it handles item \<open>j\<close>, the effect of the pass on a
  regular object or cluster root, and the invariant of the pass over the set \<open>S\<close> of items
  handled so far (used in the proofs only).\<close>

definition mark_frame :: "nat \<Rightarrow> mark_pass \<Rightarrow> mark_pass \<Rightarrow> bool" where
  "mark_frame j m m' =
     (length (MarkItems m') = length (MarkItems m)
      \<and> length (ObjectsToSerializeArrays m') = length (ObjectsToSerializeArrays m)
      \<and> (\<forall>i. i \<noteq> j \<longrightarrow> MarkItems m' ! i = MarkItems m ! i)
      \<and> set (ClustersToDissolveList m) \<subseteq> set (ClustersToDissolveList m')
      \<and> set (ClustersToDissolveList m') \<subseteq> insert j (set (ClustersToDissolveList m))
      \<and> set (concat (ObjectsToSerializeArrays m)) \<subseteq> set (concat (ObjectsToSerializeArrays m')))"

definition keeps_object :: "EObjectFlags \<Rightarrow> FUObjectItem \<Rightarrow> bool" where
  "keeps_object KeepFlags Item =
     (HasAnyFlags {GarbageCollectionKeepFlags} Item
      \<or> (\<not> IsPendingKill Item \<and> KeepFlags \<noteq> RF_NoFlags \<and> Object_HasAnyFlags KeepFlags Item))"

definition mark_effect :: "EObjectFlags \<Rightarrow> FUObjectItem \<Rightarrow> mark_pass \<Rightarrow> nat \<Rightarrow> bool" where
  "mark_effect KeepFlags Item m' j =
     (case Object Item of
        None \<Rightarrow> True
      | Some Obj \<Rightarrow>
          if IsRootSet Item \<or> OwnerIndex Item > 0 then True
          else if keeps_object KeepFlags Item
          then Some Obj \<in> set (concat (ObjectsToSerializeArrays m'))
               \<and> Flags (MarkItems m' ! j) = Flags Item - {ReachableInCluster}
          else Flags (MarkItems m' ! j) = insert Unreachable (Flags Item - {ReachableInCluster})
               \<and> (j \<in> set (ClustersToDissolveList m')
                    \<longleftrightarrow> HasAnyFlags {PendingKill, Garbage} Item \<and> HasAnyFlags {ClusterRoot} Item))"

definition mark_inv :: "EObjectFlags \<Rightarrow> nat set \<Rightarrow> mark_pass \<Rightarrow> mark_pass \<Rightarrow> bool" where
  "mark_inv KeepFlags S m0 m =
     (length (MarkItems m) = length (MarkItems m0)
      \<and> length (ObjectsToSerializeArrays m) = length (ObjectsToSerializeArrays m0)
      \<and> (\<forall>i. i \<notin> S \<longrightarrow> MarkItems m ! i = MarkItems m0 ! i \<and> i \<notin> set (ClustersToDissolveList m))
      \<and> (\<forall>i\<in>S. mark_effect KeepFlags (MarkItems m0 ! i) m i))"

text \<open>Five objects: 0 has keep flags, 1 is a garbage cluster root, 2 is a plain object,
  3 has the object flag 4, and 4 has the object flag 4 and is pending kill. A result of
  the pass over them with \<open>KeepFlags = 4\<close> and two threads.\<close>

definition mark_items :: "FUObjectItem list" where
  "mark_items =
     [\<lparr>Object = Some 0, Flags = {GarbageCollectionKeepFlags}, ClusterRootIndex = 0,
       ObjectFlags = 0\<rparr>,
      \<lparr>Object = Some 1, Flags = {ClusterRoot, Garbage}, ClusterRootIndex = - 1,
       ObjectFlags = 0\<rparr>,
      \<lparr>Object = Some 2, Flags = {}, ClusterRootIndex = 0, ObjectFlags = 0\<rparr>,
      \<lparr>Object = Some 3, Flags = {}, ClusterRootIndex = 0, ObjectFlags = 4\<rparr>,
      \<lparr>Object = Some 4, Flags = {PendingKill}, ClusterRootIndex = 0, ObjectFlags = 4\<rparr>]"

definition mark_result :: mark_pass where
  "mark_result =
     \<lparr>MarkItems =
        [\<lparr>Object = Some 0, Flags = {GarbageCollectionKeepFlags}, ClusterRootIndex = 0,
          ObjectFlags = 0\<rparr>,
         \<lparr>Object = Some 1, Flags = {Unreachable, ClusterRoot, Garbage}, ClusterRootIndex = - 1, ObjectFlags = 0\<rparr>,
         \<lparr>Object = Some 2, Flags = {Unreachable}, ClusterRootIndex = 0, ObjectFlags = 0\<rparr>,
         \<lparr>Object = Some 3, Flags = {}, ClusterRootIndex = 0, ObjectFlags = 4\<rparr>,
         \<lparr>Object = Some 4, Flags = {Unreachable, PendingKill}, ClusterRootIndex = 0,
          ObjectFlags = 4\<rparr>],
      ObjectsToSerializeArrays = [], ClustersToDissolveList = [1], KeepClusterRefsList = [],
      ObjectCountDuringMarkPhase = 5, InitialObjects = [Some 0, Some 3]\<rparr>"


section \<open>Gathering the unreachable objects (GatherUnreachableObjects)\<close>

text \<open>
  The result is the list \<^verbatim>\<open>GUnreachableObjects\<close> (of item indices; the function first
  resets it and the cursor \<^verbatim>\<open>GUnrechableObjectIndex\<close>) and the heap. The tasks of the
  \<^verbatim>\<open>ParallelFor\<close> only read the items; each collects the unreachable items of its range
  and, among them, the cluster roots, and appends both to the shared lists under the
  lock when it found any. As in the mark phase, a run is an order \<open>Schedule\<close> of the
  tasks.
\<close>

fun GatherStripe_loop :: "FUObjectItem list \<Rightarrow> nat list \<Rightarrow> nat list \<times> nat list \<Rightarrow> nat list \<times> nat list" where
  "GatherStripe_loop Items [] acc = acc"
| "GatherStripe_loop Items (ObjectIndex # rest) (ThisThreadUnreachableObjects, ThisThreadClusterItemsToDestroy) =
     (let ObjectItem = Items ! ObjectIndex in
      if IsUnreachable ObjectItem
      then GatherStripe_loop Items rest
             (ThisThreadUnreachableObjects @ [ObjectIndex],
              if HasAnyFlags {ClusterRoot} ObjectItem
              then ThisThreadClusterItemsToDestroy @ [ObjectIndex]
              else ThisThreadClusterItemsToDestroy)
      else GatherStripe_loop Items rest (ThisThreadUnreachableObjects, ThisThreadClusterItemsToDestroy))"

fun GatherTasks :: "FUObjectItem list \<Rightarrow> int \<Rightarrow> int \<Rightarrow> nat list \<Rightarrow> nat list \<times> nat list \<Rightarrow> nat list \<times> nat list" where
  "GatherTasks Items FirstIndex NumThreads [] acc = acc"
| "GatherTasks Items FirstIndex NumThreads (ThreadIndex # rest) (UnreachableObjects, ClusterItemsToDestroy) =
     (case GatherStripe_loop Items
             (stripe_indices (int (length Items)) FirstIndex NumThreads (int ThreadIndex)) ([], []) of
        (ThisThreadUnreachableObjects, ThisThreadClusterItemsToDestroy) \<Rightarrow>
          GatherTasks Items FirstIndex NumThreads rest
            (if ThisThreadUnreachableObjects \<noteq> []
             then (UnreachableObjects @ ThisThreadUnreachableObjects,
                   ClusterItemsToDestroy @ ThisThreadClusterItemsToDestroy)
             else (UnreachableObjects, ClusterItemsToDestroy)))"

text \<open>The loop over \<^verbatim>\<open>ClusterItemsToDestroy\<close> and, inside it, over the objects of
  the root's cluster: the root loses \<open>ClusterRoot\<close>; every object of the cluster gets
  owner index 0, and those without \<open>ReachableInCluster\<close> are marked \<open>Unreachable\<close> and
  appended to the list; then the cluster is freed.\<close>

fun DestroyClusterObjects_loop :: "int list \<Rightarrow> nat list \<times> gc_heap \<Rightarrow> gc_error + (nat list \<times> gc_heap)" where
  "DestroyClusterObjects_loop [] acc = Inr acc"
| "DestroyClusterObjects_loop (ClusterObjectIndex # rest) (UnreachableObjects, h) =
     (if \<not> valid_index ClusterObjectIndex (ObjectItems h) then Inl OutOfBounds
      else
        let h1 = upd_item ClusterObjectIndex (SetOwnerIndex 0) h in
        if \<not> HasAnyFlags {ReachableInCluster} (ObjectItems h1 ! nat ClusterObjectIndex)
        then DestroyClusterObjects_loop rest
               (UnreachableObjects @ [nat ClusterObjectIndex],
                upd_item ClusterObjectIndex (SetFlags {Unreachable}) h1)
        else DestroyClusterObjects_loop rest (UnreachableObjects, h1))"

text \<open>Modelled from the spec: \<^verbatim>\<open>FUObjectClusterContainer::FreeCluster\<close> is not among the
  sources at hand. The specification only says that dead clusters are destroyed, so the
  call is recorded in \<open>FreedClusters\<close> and the cluster table is left as it is.\<close>

definition FreeCluster :: "int \<Rightarrow> gc_heap \<Rightarrow> gc_heap" where
  "FreeCluster InClusterIndex h = h\<lparr>FreedClusters := FreedClusters h @ [InClusterIndex]\<rparr>"

fun DestroyClusters_loop :: "nat list \<Rightarrow> nat list \<times> gc_heap \<Rightarrow> gc_error + (nat list \<times> gc_heap)" where
  "DestroyClusters_loop [] acc = Inr acc"
| "DestroyClusters_loop (ClusterRootItem # rest) (UnreachableObjects, h) =
     (let h1 = upd_item (int ClusterRootItem) (ClearFlags {ClusterRoot}) h;
          ClusterIndex = ClusterIndex (ObjectItems h1 ! ClusterRootItem)
      in if \<not> valid_index ClusterIndex (Clusters h1) then Inl OutOfBounds
         else case DestroyClusterObjects_loop (Objects (Clusters h1 ! nat ClusterIndex))
                     (UnreachableObjects, h1) of
                Inl e \<Rightarrow> Inl e
              | Inr (UnreachableObjects', h2) \<Rightarrow>
                  DestroyClusters_loop rest (UnreachableObjects', FreeCluster ClusterIndex h2))"

definition GatherUnreachableObjects ::
  "bool \<Rightarrow> nat \<Rightarrow> int \<Rightarrow> nat list \<Rightarrow> gc_heap \<Rightarrow> gc_error + (nat list \<times> gc_heap)" where
  "GatherUnreachableObjects GExitPurge FirstGCIndex NumWorkerThreads Schedule h =
     (let NumThreads = max 1 NumWorkerThreads;
          FirstIndex = (if GExitPurge then 0 else int FirstGCIndex)
      in case GatherTasks (ObjectItems h) FirstIndex NumThreads Schedule ([], []) of
           (UnreachableObjects, ClusterItemsToDestroy) \<Rightarrow>
             DestroyClusters_loop ClusterItemsToDestroy (UnreachableObjects, h))"

text \<open>What the function is given after the reachability analysis. The collected range
  is \<open>gc_range\<close>; \<open>dead_roots\<close> are its unreachable cluster roots and \<open>cluster_members\<close> the
  objects of a root's cluster. \<open>gather_ready\<close> is the state of the clusters of the dead
  roots at that point: the root's cluster exists, and each of its objects is in the
  table, is a member of a cluster (\<^verbatim>\<open>GetOwnerIndex() > 0\<close>) and does not carry
  \<open>ReachableInCluster\<close>. (The mark phase clears \<open>ReachableInCluster\<close> on every item, and
  whatever sets it on a member during the analysis clears \<open>Unreachable\<close> on the member's
  root, which nothing sets again before the gathering.)\<close>

definition gc_range :: "int \<Rightarrow> gc_heap \<Rightarrow> nat list" where
  "gc_range FirstIndex h = map nat [FirstIndex .. int (length (ObjectItems h)) - 1]"

definition dead_roots :: "int \<Rightarrow> gc_heap \<Rightarrow> nat list" where
  "dead_roots FirstIndex h =
     filter (\<lambda>i. IsUnreachable (ObjectItems h ! i) \<and> HasAnyFlags {ClusterRoot} (ObjectItems h ! i))
       (gc_range FirstIndex h)"

definition cluster_members :: "gc_heap \<Rightarrow> nat \<Rightarrow> nat list" where
  "cluster_members h r = map nat (Objects (Clusters h ! nat (ClusterIndex (ObjectItems h ! r))))"

definition gather_ready :: "int \<Rightarrow> gc_heap \<Rightarrow> bool" where
  "gather_ready FirstIndex h =
     list_all (\<lambda>r. valid_index (ClusterIndex (ObjectItems h ! r)) (Clusters h)
                 \<and> list_all (\<lambda>j. valid_index j (ObjectItems h)
                                 \<and> 0 < OwnerIndex (ObjectItems h ! nat j)
                                 \<and> \<not> HasAnyFlags {ReachableInCluster} (ObjectItems h ! nat j))
                      (Objects (Clusters h ! nat (ClusterIndex (ObjectItems h ! r)))))
       (dead_roots FirstIndex h)"

text \<open>What the loop over the roots needs of the roots still to come (used in the proofs only;
  an object whose owner index has been set to 0 still counts).\<close>

definition clusters_ready :: "nat list \<Rightarrow> gc_heap \<Rightarrow> bool" where
  "clusters_ready rs h =
     (\<forall>r\<in>set rs. r < length (ObjectItems h)
        \<and> valid_index (ClusterIndex (ObjectItems h ! r)) (Clusters h)
        \<and> (\<forall>j\<in>set (Objects (Clusters h ! nat (ClusterIndex (ObjectItems h ! r)))).
              valid_index j (ObjectItems h)
              \<and> 0 \<le> OwnerIndex (ObjectItems h ! nat j)
              \<and> \<not> HasAnyFlags {ReachableInCluster} (ObjectItems h ! nat j)))"

text \<open>The object table after the gathering: the roots of \<open>R\<close> have lost \<open>ClusterRoot\<close>,
  the objects of \<open>M\<close> have owner index 0 and are \<open>Unreachable\<close>.\<close>

definition gathered_items :: "nat set \<Rightarrow> nat set \<Rightarrow> FUObjectItem list \<Rightarrow> FUObjectItem list" where
  "gathered_items R M Items =
     map (\<lambda>k. if k \<in> M then SetFlags {Unreachable} (SetOwnerIndex 0 (Items ! k))
               else if k \<in> R then ClearFlags {ClusterRoot} (Items ! k)
               else Items ! k) [0..<length Items]"

text \<open>A heap of five objects: an unreachable cluster root (1) with the members 2 and
  3, and an unreachable plain object (4). Below it, the heap after gathering.\<close>

definition gather_heap :: gc_heap where
  "gather_heap =
     \<lparr>ObjectItems =
        [\<lparr>Object = Some 0, Flags = {}, ClusterRootIndex = 0, ObjectFlags = 0\<rparr>,
         \<lparr>Object = Some 1, Flags = {Unreachable, ClusterRoot}, ClusterRootIndex = - 1,
           ObjectFlags = 0\<rparr>,
         \<lparr>Object = Some 2, Flags = {}, ClusterRootIndex = 1, ObjectFlags = 0\<rparr>,
         \<lparr>Object = Some 3, Flags = {}, ClusterRootIndex = 1, ObjectFlags = 0\<rparr>,
         \<lparr>Object = Some 4, Flags = {Unreachable}, ClusterRootIndex = 0, ObjectFlags = 0\<rparr>],
      Clusters = [\<lparr>Objects = [2, 3], ReferencedClusters = [], MutableObjects = [],
                   bNeedsDissolving = False\<rparr>],
      ClustersNeedDissolving = False, FreedClusters = [],
      RefSlots = (\<lambda>a. nullptr), ObjectsToSerialize = [], bFoundGarbageRef = False\<rparr>"

definition gather_result :: gc_heap where
  "gather_result =
     \<lparr>ObjectItems =
        [\<lparr>Object = Some 0, Flags = {}, ClusterRootIndex = 0, ObjectFlags = 0\<rparr>,
         \<lparr>Object = Some 1, Flags = {Unreachable}, ClusterRootIndex = - 1, ObjectFlags = 0\<rparr>,
         \<lparr>Object = Some 2, Flags = {Unreachable}, ClusterRootIndex = 0, ObjectFlags = 0\<rparr>,
         \<lparr>Object = Some 3, Flags = {Unreachable}, ClusterRootIndex = 0, ObjectFlags = 0\<rparr>,
         \<lparr>Object = Some 4, Flags = {Unreachable}, ClusterRootIndex = 0, ObjectFlags = 0\<rparr>],
      Clusters = [\<lparr>Objects = [2, 3], ReferencedClusters = [], MutableObjects = [],
                   bNeedsDissolving = False\<rparr>],
      ClustersNeedDissolving = False, FreedClusters = [0],
      RefSlots = (\<lambda>a. nullptr), ObjectsToSerialize = [], bFoundGarbageRef = False\<rparr>"

section \<open>Purge pipeline and collection entry points\<close>

text \<open>
  The coordinator is modelled as the game thread runs it, with destruction on the game
  thread (\<^verbatim>\<open>bMultithreadedPurge\<close> false, which is what the default
  \<^verbatim>\<open>GMultithreadedDestructionEnabled = 0\<close> gives): \<^verbatim>\<open>GAsyncPurge\<close> exists and has no
  thread. Calls into objects and subscribers are recorded, in order, in \<open>Trace\<close>.
\<close>

datatype gc_delegate =
  PreGarbageCollect | PostReachabilityAnalysis | PostGarbageCollect | PostPurgeGarbage
  | PreGarbageCollectConditionalBeginDestroy | PostGarbageCollectConditionalBeginDestroy

datatype gc_event =
  AcquireGCLock | TryGCLock bool | ReleaseGCLock
  | Broadcast gc_delegate
  | ConditionalBeginDestroy UObject
  | ConditionalFinishDestroy UObject
  | Destructor UObject
  | FreeUObject UObject
  | ReachabilityAnalysis
  | FlushAsyncLoading
  | MemoryTrim
  | DisableDisregardForGC
  | ShrinkUObjectHashTables
  | DeleteLoaders
  | LogWarning

record FAsyncPurge =
  ObjCurrentPurgeObjectIndex :: nat
  NumObjectsToDestroyOnGameThread :: nat
  NumObjectsDestroyedOnGameThread :: nat
  ObjCurrentPurgeObjectIndexOnGameThread :: nat
  LastUnreachableObjectsCount :: nat
  ObjectsDestroyedSinceLastMarkPhase :: nat
  FinishedPurgeEvent :: bool

text \<open>The globals of the collector. An entry of \<^verbatim>\<open>GUnreachableObjects\<close> is the object
  of the item it points to, or \<open>None\<close> once the entry has been nulled.
  \<open>GCLockHeld\<close> says that the collecting thread holds the GC lock and
  \<open>GCLockHeldByOther\<close> that another thread does. The three counters at the end count
  the questions put to the environment: time-limit tests, calls of
  \<^verbatim>\<open>IsReadyForFinishDestroy\<close>, and tests of the FinishDestroy stall timer.
  \<^verbatim>\<open>GNumAttemptsSinceLastGC\<close> is an \<^verbatim>\<open>int32\<close>; the model does not bound it.\<close>

record gc_state =
  GIsInitialLoad :: bool
  GExitPurge :: bool
  GCLockHeld :: bool
  GCLockHeldByOther :: bool
  GNumAttemptsSinceLastGC :: int
  GObjPurgeIsRequired :: bool
  GObjIncrementalPurgeIsInProgress :: bool
  GObjFinishDestroyHasBeenRoutedToAllObjects :: bool
  GObjCurrentPurgeObjectIndexNeedsReset :: bool
  GObjCurrentPurgeObjectIndex :: nat
  GUnrechableObjectIndex :: nat
  GUnreachableObjects :: "UObject option list"
  GGCObjectsPendingDestruction :: "UObject list"
  GGCObjectsPendingDestructionCount :: nat
  GIsGarbageCollecting :: bool
  GObjUnhashUnreachableIsInProgress :: bool
  GWarningTimeOutHasBeenDisplayedGC :: bool
  GAsyncPurge :: FAsyncPurge
  ClockPolls :: nat
  ReadyQueries :: nat
  StallPolls :: nat
  Trace :: "gc_event list"

text \<open>Console variables and platform properties, and the environment: the answer of the
  \<open>n\<close>-th time-limit test (has the budget of the call run out?), of the \<open>n\<close>-th call of
  \<^verbatim>\<open>IsReadyForFinishDestroy\<close> (on which object), of the \<open>n\<close>-th test of the stall timer,
  and whether the engine is loading.\<close>

record gc_config =
  GNumRetriesBeforeForcingGC :: int
  GFlushStreamingOnGC :: bool
  GIncrementalBeginDestroyEnabled :: bool
  RequiresCookedData :: bool
  PLATFORM_DESKTOP :: bool
  GEnableTimeoutOnPendingDestroyedObjectGC :: bool

record gc_env =
  TimeUp :: "nat \<Rightarrow> bool"
  IsReadyForFinishDestroy :: "nat \<Rightarrow> UObject \<Rightarrow> bool"
  StallTimeUp :: "nat \<Rightarrow> bool"
  IsAsyncLoading :: bool
  IsLoading :: bool

definition log_event :: "gc_event \<Rightarrow> gc_state \<Rightarrow> gc_state" where
  "log_event e s = s\<lparr>Trace := Trace s @ [e]\<rparr>"

text \<open>The test \<^verbatim>\<open>(FPlatformTime::Seconds() - StartTime) > TimeLimit\<close>.\<close>

definition poll_time_limit :: "gc_env \<Rightarrow> gc_state \<Rightarrow> bool \<times> gc_state" where
  "poll_time_limit env s = (TimeUp env (ClockPolls s), s\<lparr>ClockPolls := ClockPolls s + 1\<rparr>)"

definition query_ready :: "gc_env \<Rightarrow> UObject \<Rightarrow> gc_state \<Rightarrow> bool \<times> gc_state" where
  "query_ready env Obj s =
     (IsReadyForFinishDestroy env (ReadyQueries s) Obj, s\<lparr>ReadyQueries := ReadyQueries s + 1\<rparr>)"

subsection \<open>UnhashUnreachableObjects\<close>

text \<open>The loop over \<^verbatim>\<open>GUnreachableObjects\<close> from the cursor \<^verbatim>\<open>GUnrechableObjectIndex\<close>;
  the list argument is the part of \<^verbatim>\<open>GUnreachableObjects\<close> from the cursor on. The clock
  is asked only when \<^verbatim>\<open>bUseTimeLimit\<close> and \<^verbatim>\<open>bPollTimeLimit\<close> both hold.\<close>

fun Unhash_loop :: "gc_env \<Rightarrow> bool \<Rightarrow> nat \<Rightarrow> UObject option list \<Rightarrow> gc_state \<Rightarrow> gc_error + gc_state" where
  "Unhash_loop env bUseTimeLimit TimePollCounter [] s = Inr s"
| "Unhash_loop env bUseTimeLimit TimePollCounter (ObjectItem # rest) s =
     (case ObjectItem of
        None \<Rightarrow> Inl NullDereference
      | Some Obj \<Rightarrow>
          let s1 = log_event (ConditionalBeginDestroy Obj)
                     (s\<lparr>GUnrechableObjectIndex := GUnrechableObjectIndex s + 1\<rparr>);
              bPollTimeLimit = (TimePollCounter mod 10 = 0)
          in if bUseTimeLimit \<and> bPollTimeLimit then
               (case poll_time_limit env s1 of
                  (True, s2) \<Rightarrow> Inr s2
                | (False, s2) \<Rightarrow> Unhash_loop env bUseTimeLimit (TimePollCounter + 1) rest s2)
             else Unhash_loop env bUseTimeLimit (TimePollCounter + 1) rest s1)"

definition UnhashUnreachableObjects :: "gc_env \<Rightarrow> bool \<Rightarrow> gc_state \<Rightarrow> gc_error + (bool \<times> gc_state)" where
  "UnhashUnreachableObjects env bUseTimeLimit s =
     (let s1 = log_event (Broadcast PreGarbageCollectConditionalBeginDestroy)
                 (s\<lparr>GObjUnhashUnreachableIsInProgress := True\<rparr>)
      in case Unhash_loop env bUseTimeLimit 0
                (drop (GUnrechableObjectIndex s1) (GUnreachableObjects s1)) s1 of
           Inl e \<Rightarrow> Inl e
         | Inr s2 \<Rightarrow>
             let bTimeLimitReached = (GUnrechableObjectIndex s2 < length (GUnreachableObjects s2));
                 s3 = log_event (Broadcast PostGarbageCollectConditionalBeginDestroy) s2
             in Inr (bTimeLimitReached,
                     s3\<lparr>GObjUnhashUnreachableIsInProgress := GObjUnhashUnreachableIsInProgress s\<rparr>))"

subsection \<open>IncrementalDestroyGarbage\<close>

text \<open>The first sweep that routes \<^verbatim>\<open>FinishDestroy\<close>: an object that is ready gets
  \<^verbatim>\<open>ConditionalFinishDestroy\<close>, one that is not is appended to
  \<^verbatim>\<open>GGCObjectsPendingDestruction\<close>. The result says whether the time limit was reached and
  gives the value of \<^verbatim>\<open>TimeLimitTimePollCounter\<close>.\<close>

fun FinishDestroy_loop ::
  "gc_env \<Rightarrow> bool \<Rightarrow> nat \<Rightarrow> UObject option list \<Rightarrow> gc_state \<Rightarrow> gc_error + (bool \<times> nat \<times> gc_state)" where
  "FinishDestroy_loop env bUseTimeLimit TimeLimitTimePollCounter [] s =
     Inr (False, TimeLimitTimePollCounter, s)"
| "FinishDestroy_loop env bUseTimeLimit TimeLimitTimePollCounter (ObjectItem # rest) s =
     (case ObjectItem of
        None \<Rightarrow> Inl NullDereference
      | Some Obj \<Rightarrow>
          (case query_ready env Obj s of
             (bReady, s1) \<Rightarrow>
               let s2 = (if bReady then log_event (ConditionalFinishDestroy Obj) s1
                         else s1\<lparr>GGCObjectsPendingDestruction := GGCObjectsPendingDestruction s1 @ [Obj],
                                 GGCObjectsPendingDestructionCount :=
                                   GGCObjectsPendingDestructionCount s1 + 1\<rparr>);
                   s3 = s2\<lparr>GObjCurrentPurgeObjectIndex := GObjCurrentPurgeObjectIndex s2 + 1\<rparr>;
                   bPollTimeLimit = (TimeLimitTimePollCounter mod 10 = 0)
               in if bUseTimeLimit \<and> bPollTimeLimit then
                    (case poll_time_limit env s3 of
                       (True, s4) \<Rightarrow> Inr (True, TimeLimitTimePollCounter + 1, s4)
                     | (False, s4) \<Rightarrow>
                         FinishDestroy_loop env bUseTimeLimit (TimeLimitTimePollCounter + 1) rest s4)
                  else FinishDestroy_loop env bUseTimeLimit (TimeLimitTimePollCounter + 1) rest s3))"

text \<open>One pass over the pending objects, from \<^verbatim>\<open>CurPendingObjIndex\<close>: a ready object
  gets \<^verbatim>\<open>ConditionalFinishDestroy\<close> and is replaced by the last pending one.
  \<open>PendingPass_step\<close> is the body of the loop up to the test of the time limit; it gives
  the new \<^verbatim>\<open>CurPendingObjIndex\<close>.\<close>

definition PendingPass_step :: "gc_env \<Rightarrow> nat \<Rightarrow> gc_state \<Rightarrow> nat \<times> gc_state" where
  "PendingPass_step env CurPendingObjIndex s =
     (let Obj = GGCObjectsPendingDestruction s ! CurPendingObjIndex in
      case query_ready env Obj s of
        (bReady, s1) \<Rightarrow>
          if bReady
          then (CurPendingObjIndex,
                (log_event (ConditionalFinishDestroy Obj) s1)
                  \<lparr>GGCObjectsPendingDestruction :=
                     (GGCObjectsPendingDestruction s1)
                       [CurPendingObjIndex :=
                          GGCObjectsPendingDestruction s1
                            ! (GGCObjectsPendingDestructionCount s1 - 1)],
                   GGCObjectsPendingDestructionCount :=
                     GGCObjectsPendingDestructionCount s1 - 1\<rparr>)
          else (CurPendingObjIndex + 1, s1))"

function PendingPass ::
  "gc_env \<Rightarrow> bool \<Rightarrow> nat \<Rightarrow> nat \<Rightarrow> gc_state \<Rightarrow> gc_error + (bool \<times> nat \<times> gc_state)" where
  "PendingPass env bUseTimeLimit TimeLimitTimePollCounter CurPendingObjIndex s =
     (if \<not> CurPendingObjIndex < GGCObjectsPendingDestructionCount s
      then Inr (False, TimeLimitTimePollCounter, s)
      else if \<not> GGCObjectsPendingDestructionCount s \<le> length (GGCObjectsPendingDestruction s)
      then Inl OutOfBounds
      else
        case PendingPass_step env CurPendingObjIndex s of
          (Cur', s2) \<Rightarrow>
            let bPollTimeLimit = (TimeLimitTimePollCounter mod 10 = 0)
            in if bUseTimeLimit \<and> bPollTimeLimit then
                 (case poll_time_limit env s2 of
                    (True, s3) \<Rightarrow> Inr (True, TimeLimitTimePollCounter + 1, s3)
                  | (False, s3) \<Rightarrow>
                      PendingPass env bUseTimeLimit (TimeLimitTimePollCounter + 1) Cur' s3)
               else PendingPass env bUseTimeLimit (TimeLimitTimePollCounter + 1) Cur' s2)"
  by pat_completeness auto
termination
  by (relation "measure (\<lambda>(env, u, c, Cur, s). GGCObjectsPendingDestructionCount s - Cur)")
     (auto simp: PendingPass_step_def query_ready_def poll_time_limit_def log_event_def Let_def
        split: if_splits)

declare PendingPass.simps [simp del]

text \<open>What the loop over the pending objects does, when no time limit is in use and
  objects are still pending after a pass: under \<^verbatim>\<open>RequiresCookedData\<close>, every tenth time,
  and if the pass made no progress, the stall timer is tested; when it has run out the
  objects are listed (each is asked again whether it is ready) and, unless the timeout
  is disabled, the process reports the stall and goes on (desktop) or aborts (elsewhere).
  The result is the new \<^verbatim>\<open>FinishDestroyTimePollCounter\<close>. (The extension of the timer
  under \<^verbatim>\<open>PLATFORM_IOS || PLATFORM_ANDROID\<close> is left out.)\<close>

definition FinishDestroy_stall_check ::
  "gc_config \<Rightarrow> gc_env \<Rightarrow> nat \<Rightarrow> nat \<Rightarrow> gc_state \<Rightarrow> gc_error + (nat \<times> gc_state)" where
  "FinishDestroy_stall_check cfg env FinishDestroyTimePollCounter LastLoopObjectsPendingDestructionCount s =
     (if RequiresCookedData cfg then
        let bPollTimeLimit = (FinishDestroyTimePollCounter mod 10 = 0) in
        if LastLoopObjectsPendingDestructionCount = GGCObjectsPendingDestructionCount s
           \<and> bPollTimeLimit
        then
          (let s1 = s\<lparr>StallPolls := StallPolls s + 1\<rparr> in
           if StallTimeUp env (StallPolls s) then
             if GEnableTimeoutOnPendingDestroyedObjectGC cfg then
               (let s2 = log_event LogWarning
                           (s1\<lparr>ReadyQueries := ReadyQueries s1 + GGCObjectsPendingDestructionCount s1\<rparr>)
                in if PLATFORM_DESKTOP cfg then Inr (FinishDestroyTimePollCounter + 1, s2)
                   else Inl FatalError)
             else if \<not> GWarningTimeOutHasBeenDisplayedGC s1
             then Inr (FinishDestroyTimePollCounter + 1,
                       (log_event LogWarning s1)\<lparr>GWarningTimeOutHasBeenDisplayedGC := True\<rparr>)
             else Inr (FinishDestroyTimePollCounter + 1, s1)
           else Inr (FinishDestroyTimePollCounter + 1, s1))
        else Inr (FinishDestroyTimePollCounter + 1, s)
      else Inr (FinishDestroyTimePollCounter, s))"

text \<open>The loop \<^verbatim>\<open>while (GGCObjectsPendingDestructionCount > 0)\<close>: with a time limit it
  makes one pass and stops; without one it goes round until nothing is pending, which
  may be never. The model bounds the number of rounds by fuel. The result says whether
  the time limit was reached in a pass.\<close>

fun PendingLoop ::
  "gc_config \<Rightarrow> gc_env \<Rightarrow> bool \<Rightarrow> nat \<Rightarrow> nat \<Rightarrow> nat \<Rightarrow> nat \<Rightarrow> gc_state \<Rightarrow> gc_error + (bool \<times> gc_state)" where
  "PendingLoop cfg env bUseTimeLimit 0 TimeLimitTimePollCounter FinishDestroyTimePollCounter Last s =
     (if \<not> GGCObjectsPendingDestructionCount s > 0 then Inr (False, s) else Inl OutOfFuel)"
| "PendingLoop cfg env bUseTimeLimit (Suc fuel) TimeLimitTimePollCounter FinishDestroyTimePollCounter Last s =
     (if \<not> GGCObjectsPendingDestructionCount s > 0 then Inr (False, s)
      else
        case PendingPass env bUseTimeLimit TimeLimitTimePollCounter 0 s of
          Inl e \<Rightarrow> Inl e
        | Inr (bTimeLimitReached, ctr, s1) \<Rightarrow>
            if bUseTimeLimit then Inr (bTimeLimitReached, s1)
            else if GGCObjectsPendingDestructionCount s1 > 0 then
              (case FinishDestroy_stall_check cfg env FinishDestroyTimePollCounter Last s1 of
                 Inl e \<Rightarrow> Inl e
               | Inr (fd, s2) \<Rightarrow>
                   PendingLoop cfg env bUseTimeLimit fuel ctr fd
                     (GGCObjectsPendingDestructionCount s2) s2)
            else PendingLoop cfg env bUseTimeLimit fuel ctr FinishDestroyTimePollCounter
                   (GGCObjectsPendingDestructionCount s1) s1)"

text \<open>The block of \<^verbatim>\<open>IncrementalDestroyGarbage\<close> that routes \<^verbatim>\<open>FinishDestroy\<close>; it
  returns \<^verbatim>\<open>bTimeLimitReached\<close>. The \<^verbatim>\<open>check\<close>s on the flags of the objects are left out
  (the objects are opaque here).\<close>

definition RouteFinishDestroy ::
  "gc_config \<Rightarrow> gc_env \<Rightarrow> nat \<Rightarrow> bool \<Rightarrow> gc_state \<Rightarrow> gc_error + (bool \<times> gc_state)" where
  "RouteFinishDestroy cfg env fuel bUseTimeLimit s =
     (if \<not> GUnrechableObjectIndex s \<ge> length (GUnreachableObjects s) then Inl CheckFailed
      else
        let s1 = (if GObjCurrentPurgeObjectIndexNeedsReset s
                  then s\<lparr>GObjCurrentPurgeObjectIndex := 0,
                         GObjCurrentPurgeObjectIndexNeedsReset := False\<rparr>
                  else s)
        in case FinishDestroy_loop env bUseTimeLimit 0
                  (drop (GObjCurrentPurgeObjectIndex s1) (GUnreachableObjects s1)) s1 of
             Inl e \<Rightarrow> Inl e
           | Inr (bTimeLimitReached, ctr, s2) \<Rightarrow>
               if GObjCurrentPurgeObjectIndex s2 \<ge> length (GUnreachableObjects s2) then
                 (case PendingLoop cfg env bUseTimeLimit fuel ctr 0
                         (GGCObjectsPendingDestructionCount s2) s2 of
                    Inl e \<Rightarrow> Inl e
                  | Inr (bTimeLimitReached', s3) \<Rightarrow>
                      Inr (bTimeLimitReached \<or> bTimeLimitReached',
                           if GGCObjectsPendingDestructionCount s3 = 0
                           then s3\<lparr>GGCObjectsPendingDestruction := [],
                                   GObjFinishDestroyHasBeenRoutedToAllObjects := True,
                                   GObjCurrentPurgeObjectIndexNeedsReset := True,
                                   GWarningTimeOutHasBeenDisplayedGC := False\<rparr>
                           else s3))
               else Inr (bTimeLimitReached, s2))"

subsection \<open>FAsyncPurge without a thread\<close>

definition upd_purge :: "(FAsyncPurge \<Rightarrow> FAsyncPurge) \<Rightarrow> gc_state \<Rightarrow> gc_state" where
  "upd_purge f s = s\<lparr>GAsyncPurge := f (GAsyncPurge s)\<rparr>"

definition IsFinished :: "gc_state \<Rightarrow> bool" where
  "IsFinished s =
     (ObjCurrentPurgeObjectIndex (GAsyncPurge s) \<ge> LastUnreachableObjectsCount (GAsyncPurge s)
      \<and> NumObjectsToDestroyOnGameThread (GAsyncPurge s)
          = NumObjectsDestroyedOnGameThread (GAsyncPurge s))"

text \<open>\<^verbatim>\<open>BeginPurge\<close>: waiting for an event that nothing will trigger is the error
  \<open>Blocked\<close>.\<close>

definition BeginPurge :: "gc_state \<Rightarrow> gc_error + gc_state" where
  "BeginPurge s =
     (if \<not> IsFinished s then Inl CheckFailed
      else if FinishedPurgeEvent (GAsyncPurge s)
      then Inr (upd_purge (\<lambda>p. p\<lparr>FinishedPurgeEvent := False, ObjCurrentPurgeObjectIndex := 0,
                                  ObjectsDestroyedSinceLastMarkPhase := 0,
                                  NumObjectsToDestroyOnGameThread := 0,
                                  NumObjectsDestroyedOnGameThread := 0,
                                  ObjCurrentPurgeObjectIndexOnGameThread := 0\<rparr>) s)
      else Inl Blocked)"

text \<open>\<^verbatim>\<open>TickDestroyObjects<false>\<close>: destructor, free, and the entry is nulled; with a
  time limit the clock is asked after every 100 objects while objects remain. The list
  argument is the part of \<^verbatim>\<open>GUnreachableObjects\<close> from the cursor on; the result is
  \<^verbatim>\<open>bFinishedDestroyingObjects\<close>.\<close>

fun TickDestroyObjects_loop ::
  "gc_env \<Rightarrow> bool \<Rightarrow> nat \<Rightarrow> UObject option list \<Rightarrow> gc_state \<Rightarrow> gc_error + (bool \<times> gc_state)" where
  "TickDestroyObjects_loop env bUseTimeLimit ProcessedObjectsCount [] s = Inr (True, s)"
| "TickDestroyObjects_loop env bUseTimeLimit ProcessedObjectsCount (ObjectItem # rest) s =
     (case ObjectItem of
        None \<Rightarrow> Inl NullDereference
      | Some Obj \<Rightarrow>
          let i = ObjCurrentPurgeObjectIndex (GAsyncPurge s);
              s1 = (log_event (FreeUObject Obj) (log_event (Destructor Obj) s))
                     \<lparr>GUnreachableObjects := (GUnreachableObjects s)[i := None]\<rparr>;
              s2 = upd_purge (\<lambda>p. p\<lparr>ObjectsDestroyedSinceLastMarkPhase :=
                                        ObjectsDestroyedSinceLastMarkPhase p + 1,
                                      ObjCurrentPurgeObjectIndex := i + 1\<rparr>) s1
          in if bUseTimeLimit \<and> ProcessedObjectsCount + 1 = 100
                \<and> i + 1 < length (GUnreachableObjects s2) then
               (case poll_time_limit env s2 of
                  (True, s3) \<Rightarrow> Inr (False, s3)
                | (False, s3) \<Rightarrow> TickDestroyObjects_loop env bUseTimeLimit 0 rest s3)
             else TickDestroyObjects_loop env bUseTimeLimit (ProcessedObjectsCount + 1) rest s2)"

text \<open>\<^verbatim>\<open>TickDestroyGameThreadObjects\<close>, for the objects a purge thread left to the game
  thread (none without a thread).\<close>

fun TickDestroyGameThreadObjects_loop ::
  "gc_env \<Rightarrow> bool \<Rightarrow> nat \<Rightarrow> nat \<Rightarrow> UObject option list \<Rightarrow> gc_state \<Rightarrow> bool \<times> gc_state" where
  "TickDestroyGameThreadObjects_loop env bUseTimeLimit LocalNum ProcessedObjectsCount [] s = (True, s)"
| "TickDestroyGameThreadObjects_loop env bUseTimeLimit LocalNum ProcessedObjectsCount (ObjectItem # rest) s =
     (if \<not> NumObjectsDestroyedOnGameThread (GAsyncPurge s) < LocalNum then (True, s)
      else
        let i = ObjCurrentPurgeObjectIndexOnGameThread (GAsyncPurge s) in
        case ObjectItem of
          None \<Rightarrow>
            TickDestroyGameThreadObjects_loop env bUseTimeLimit LocalNum ProcessedObjectsCount rest
              (upd_purge (\<lambda>p. p\<lparr>ObjCurrentPurgeObjectIndexOnGameThread := i + 1\<rparr>) s)
        | Some Obj \<Rightarrow>
            let s1 = (log_event (FreeUObject Obj) (log_event (Destructor Obj) s))
                       \<lparr>GUnreachableObjects := (GUnreachableObjects s)[i := None]\<rparr>;
                s2 = upd_purge (\<lambda>p. p\<lparr>NumObjectsDestroyedOnGameThread :=
                                          NumObjectsDestroyedOnGameThread p + 1\<rparr>) s1
            in if bUseTimeLimit \<and> ProcessedObjectsCount + 1 = 100
                  \<and> NumObjectsDestroyedOnGameThread (GAsyncPurge s2) < LocalNum then
                 (case poll_time_limit env s2 of
                    (True, s3) \<Rightarrow> (False, s3)
                  | (False, s3) \<Rightarrow>
                      TickDestroyGameThreadObjects_loop env bUseTimeLimit LocalNum 0 rest
                        (upd_purge (\<lambda>p. p\<lparr>ObjCurrentPurgeObjectIndexOnGameThread := i + 1\<rparr>) s3))
               else TickDestroyGameThreadObjects_loop env bUseTimeLimit LocalNum
                      (ProcessedObjectsCount + 1) rest
                      (upd_purge (\<lambda>p. p\<lparr>ObjCurrentPurgeObjectIndexOnGameThread := i + 1\<rparr>) s2))"

definition TickDestroyGameThreadObjects :: "gc_env \<Rightarrow> bool \<Rightarrow> gc_state \<Rightarrow> gc_error + (bool \<times> gc_state)" where
  "TickDestroyGameThreadObjects env bUseTimeLimit s =
     (let LocalNum = NumObjectsToDestroyOnGameThread (GAsyncPurge s) in
      case TickDestroyGameThreadObjects_loop env bUseTimeLimit LocalNum 0
             (drop (ObjCurrentPurgeObjectIndexOnGameThread (GAsyncPurge s)) (GUnreachableObjects s)) s of
        (bFinishedDestroyingObjects, s1) \<Rightarrow>
          if \<not> (\<not> bFinishedDestroyingObjects
                \<or> NumObjectsDestroyedOnGameThread (GAsyncPurge s1) = LocalNum)
          then Inl CheckFailed
          else Inr (bFinishedDestroyingObjects, s1))"

text \<open>The \<^verbatim>\<open>do ... while (!bUseTimeLimit && !IsFinished())\<close> of \<^verbatim>\<open>TickPurge\<close>, bounded
  by fuel.\<close>

fun TickPurge_loop :: "gc_env \<Rightarrow> bool \<Rightarrow> nat \<Rightarrow> gc_state \<Rightarrow> gc_error + gc_state" where
  "TickPurge_loop env bUseTimeLimit 0 s = Inl OutOfFuel"
| "TickPurge_loop env bUseTimeLimit (Suc fuel) s =
     (case TickDestroyGameThreadObjects env bUseTimeLimit s of
        Inl e \<Rightarrow> Inl e
      | Inr (bFinishedDestroyingObjectsOnGameThread, s1) \<Rightarrow>
          let s2 = (if bFinishedDestroyingObjectsOnGameThread
                    then upd_purge (\<lambda>p. p\<lparr>FinishedPurgeEvent := True\<rparr>) s1 else s1)
          in if \<not> bUseTimeLimit \<and> \<not> IsFinished s2
             then TickPurge_loop env bUseTimeLimit fuel s2
             else Inr s2)"

definition TickPurge :: "gc_env \<Rightarrow> nat \<Rightarrow> bool \<Rightarrow> gc_state \<Rightarrow> gc_error + gc_state" where
  "TickPurge env fuel bUseTimeLimit s =
     (let s1 = upd_purge (\<lambda>p. p\<lparr>LastUnreachableObjectsCount := length (GUnreachableObjects s)\<rparr>) s in
      case TickDestroyObjects_loop env bUseTimeLimit 0
             (drop (ObjCurrentPurgeObjectIndex (GAsyncPurge s1)) (GUnreachableObjects s1)) s1 of
        Inl e \<Rightarrow> Inl e
      | Inr (bCanStartDestroyingGameThreadObjects, s2) \<Rightarrow>
          if bCanStartDestroyingGameThreadObjects
          then TickPurge_loop env bUseTimeLimit fuel s2
          else Inr s2)"

text \<open>The block of \<^verbatim>\<open>IncrementalDestroyGarbage\<close> that deletes the objects; it returns
  \<^verbatim>\<open>bCompleted\<close>.\<close>

definition DestroyObjects :: "gc_env \<Rightarrow> nat \<Rightarrow> bool \<Rightarrow> gc_state \<Rightarrow> gc_error + (bool \<times> gc_state)" where
  "DestroyObjects env fuel bUseTimeLimit s =
     (case (if GObjCurrentPurgeObjectIndexNeedsReset s
            then (case BeginPurge s of
                    Inl e \<Rightarrow> Inl e
                  | Inr s1 \<Rightarrow> Inr (s1\<lparr>GObjCurrentPurgeObjectIndexNeedsReset := False\<rparr>))
            else Inr s) of
        Inl e \<Rightarrow> Inl e
      | Inr s1 \<Rightarrow>
          (case TickPurge env fuel bUseTimeLimit s1 of
             Inl e \<Rightarrow> Inl e
           | Inr s2 \<Rightarrow>
               if IsFinished s2
               then Inr (True,
                         upd_purge (\<lambda>p. p\<lparr>ObjectsDestroyedSinceLastMarkPhase := 0\<rparr>)
                           (s2\<lparr>GObjFinishDestroyHasBeenRoutedToAllObjects := False,
                               GObjPurgeIsRequired := False,
                               GObjCurrentPurgeObjectIndexNeedsReset := True\<rparr>))
               else Inr (False, s2)))"

definition IncrementalDestroyGarbage ::
  "gc_config \<Rightarrow> gc_env \<Rightarrow> nat \<Rightarrow> bool \<Rightarrow> gc_state \<Rightarrow> gc_error + (bool \<times> gc_state)" where
  "IncrementalDestroyGarbage cfg env fuel bUseTimeLimit s =
     (let OldIsGarbageCollecting = GIsGarbageCollecting s;
          s0 = s\<lparr>GIsGarbageCollecting := True\<rparr>
      in case (if \<not> GObjFinishDestroyHasBeenRoutedToAllObjects s0
               then RouteFinishDestroy cfg env fuel bUseTimeLimit s0
               else Inr (False, s0)) of
           Inl e \<Rightarrow> Inl e
         | Inr (bTimeLimitReached, s1) \<Rightarrow>
             (case (if GObjFinishDestroyHasBeenRoutedToAllObjects s1 \<and> \<not> bTimeLimitReached
                    then DestroyObjects env fuel bUseTimeLimit s1
                    else Inr (False, s1)) of
                Inl e \<Rightarrow> Inl e
              | Inr (bCompleted, s2) \<Rightarrow>
                  Inr (bCompleted, s2\<lparr>GIsGarbageCollecting := OldIsGarbageCollecting\<rparr>)))"

subsection \<open>IncrementalPurgeGarbage\<close>

definition IsIncrementalPurgePending :: "gc_state \<Rightarrow> bool" where
  "IsIncrementalPurgePending s = (GObjIncrementalPurgeIsInProgress s \<or> GObjPurgeIsRequired s)"

definition IsIncrementalUnhashPending :: "gc_state \<Rightarrow> bool" where
  "IsIncrementalUnhashPending s = (GUnrechableObjectIndex s < length (GUnreachableObjects s))"

definition IncrementalPurgeGarbage ::
  "gc_config \<Rightarrow> gc_env \<Rightarrow> nat \<Rightarrow> bool \<Rightarrow> gc_state \<Rightarrow> gc_error + gc_state" where
  "IncrementalPurgeGarbage cfg env fuel bUseTimeLimit s =
     (let s0 = (if GExitPurge s
                then (log_event DisableDisregardForGC (s\<lparr>GObjPurgeIsRequired := True\<rparr>))
                       \<lparr>GObjCurrentPurgeObjectIndexNeedsReset := True\<rparr>
                else s)
      in if \<not> GObjPurgeIsRequired s0 \<and> \<not> GObjIncrementalPurgeIsInProgress s0 then Inr s0
         else
           let s1 = s0\<lparr>GObjIncrementalPurgeIsInProgress := True\<rparr> in
           if \<not> GObjPurgeIsRequired s1
           then Inr ((log_event MemoryTrim s1)\<lparr>GObjIncrementalPurgeIsInProgress := False\<rparr>)
           else
             let OldIsGarbageCollecting = GIsGarbageCollecting s1;
                 s2 = s1\<lparr>GIsGarbageCollecting := True\<rparr>
             in case (if GUnrechableObjectIndex s2 < length (GUnreachableObjects s2)
                      then UnhashUnreachableObjects env bUseTimeLimit s2
                      else Inr (False, s2)) of
                  Inl e \<Rightarrow> Inl e
                | Inr (bTimeLimitReached, s3) \<Rightarrow>
                    (case (if \<not> bTimeLimitReached
                           then IncrementalDestroyGarbage cfg env fuel bUseTimeLimit s3
                           else Inr (False, s3)) of
                       Inl e \<Rightarrow> Inl e
                     | Inr (bCompleted, s4) \<Rightarrow>
                         let s5 = (if bCompleted then log_event (Broadcast PostPurgeGarbage) s4 else s4);
                             s6 = s5\<lparr>GIsGarbageCollecting := OldIsGarbageCollecting\<rparr>
                         in Inr (if bCompleted \<and> \<not> bUseTimeLimit
                                 then s6\<lparr>GObjIncrementalPurgeIsInProgress := False\<rparr>
                                 else s6)))"

subsection \<open>CollectGarbage and TryCollectGarbage\<close>

definition AcquireGCLock_op :: "gc_state \<Rightarrow> gc_state" where
  "AcquireGCLock_op s = log_event AcquireGCLock (s\<lparr>GCLockHeld := True, GCLockHeldByOther := False\<rparr>)"

definition ReleaseGCLock_op :: "gc_state \<Rightarrow> gc_state" where
  "ReleaseGCLock_op s = log_event ReleaseGCLock (s\<lparr>GCLockHeld := False\<rparr>)"

definition TryGCLock_op :: "gc_state \<Rightarrow> bool \<times> gc_state" where
  "TryGCLock_op s =
     (if GCLockHeldByOther s then (False, log_event (TryGCLock False) s)
      else (True, log_event (TryGCLock True) (s\<lparr>GCLockHeld := True\<rparr>)))"

text \<open>The scope of \<^verbatim>\<open>CollectGarbageImpl\<close> that holds the hash-table lock: the two
  \<^verbatim>\<open>check\<close>s, then the reachability analysis and \<^verbatim>\<open>GatherUnreachableObjects\<close>, whose
  outcome here is the parameter \<open>Unreachable\<close>: the new content of
  \<^verbatim>\<open>GUnreachableObjects\<close>.\<close>

definition ReachabilityScope :: "UObject list \<Rightarrow> gc_state \<Rightarrow> gc_error + gc_state" where
  "ReachabilityScope UnreachableFound s =
     (if GObjIncrementalPurgeIsInProgress s \<or> GObjPurgeIsRequired s then Inl CheckFailed
      else Inr ((log_event ReachabilityAnalysis s)
                  \<lparr>GUnreachableObjects := map Some UnreachableFound, GUnrechableObjectIndex := 0\<rparr>))"

text \<open>Two blocks of \<^verbatim>\<open>CollectGarbageImpl\<close>: the one that finishes the purge a previous
  collection has left, before the reachability analysis, and the one from the release of
  the GC lock to \<^verbatim>\<open>DeleteLoaders\<close> and the last \<^verbatim>\<open>FMemory::Trim\<close>.\<close>

definition PurgeLeftover :: "gc_config \<Rightarrow> gc_env \<Rightarrow> nat \<Rightarrow> bool \<Rightarrow> gc_state \<Rightarrow> gc_error + gc_state" where
  "PurgeLeftover cfg env fuel bPerformFullPurge s =
     (if GObjIncrementalPurgeIsInProgress s \<or> GObjPurgeIsRequired s
      then (case IncrementalPurgeGarbage cfg env fuel False s of
              Inl e \<Rightarrow> Inl e
            | Inr s1 \<Rightarrow> Inr (if \<not> bPerformFullPurge then log_event MemoryTrim s1 else s1))
      else Inr s)"

definition PurgeAfterReachability ::
  "gc_config \<Rightarrow> gc_env \<Rightarrow> nat \<Rightarrow> bool \<Rightarrow> gc_state \<Rightarrow> gc_error + gc_state" where
  "PurgeAfterReachability cfg env fuel bPerformFullPurge s =
     (let s1 = log_event (Broadcast PostReachabilityAnalysis) (ReleaseGCLock_op s) in
      case (if bPerformFullPurge \<or> \<not> GIncrementalBeginDestroyEnabled cfg
            then (case UnhashUnreachableObjects env False s1 of
                    Inl e \<Rightarrow> Inl e
                  | Inr (_, s2) \<Rightarrow> Inr s2)
            else Inr s1) of
        Inl e \<Rightarrow> Inl e
      | Inr s2 \<Rightarrow>
          let s3 = s2\<lparr>GObjPurgeIsRequired := True\<rparr> in
          case (if bPerformFullPurge
                then (case IncrementalPurgeGarbage cfg env fuel False s3 of
                        Inl e \<Rightarrow> Inl e
                      | Inr s4 \<Rightarrow> Inr (log_event ShrinkUObjectHashTables s4))
                else Inr s3) of
            Inl e \<Rightarrow> Inl e
          | Inr s4 \<Rightarrow>
              let s5 = log_event DeleteLoaders s4
              in Inr (if bPerformFullPurge then log_event MemoryTrim s5 else s5))"

definition CollectGarbageImpl ::
  "gc_config \<Rightarrow> gc_env \<Rightarrow> nat \<Rightarrow> bool \<Rightarrow> UObject list \<Rightarrow> gc_state \<Rightarrow> gc_error + gc_state" where
  "CollectGarbageImpl cfg env fuel bPerformFullPurge UnreachableFound s =
     (if IsLoading env then Inl CheckFailed
      else
        let s1 = s\<lparr>GNumAttemptsSinceLastGC := 0\<rparr>;
            s2 = (if GFlushStreamingOnGC cfg \<and> IsAsyncLoading env
                  then AcquireGCLock_op (log_event FlushAsyncLoading (ReleaseGCLock_op s1))
                  else s1);
            s3 = log_event (Broadcast PreGarbageCollect) s2;
            OldIsGarbageCollecting = GIsGarbageCollecting s3;
            s4 = s3\<lparr>GIsGarbageCollecting := True\<rparr>
        in case PurgeLeftover cfg env fuel bPerformFullPurge s4 of
             Inl e \<Rightarrow> Inl e
           | Inr s5 \<Rightarrow>
               (case ReachabilityScope UnreachableFound s5 of
                  Inl e \<Rightarrow> Inl e
                | Inr s6 \<Rightarrow>
                    (case PurgeAfterReachability cfg env fuel bPerformFullPurge s6 of
                       Inl e \<Rightarrow> Inl e
                     | Inr s7 \<Rightarrow>
                         Inr (log_event (Broadcast PostGarbageCollect)
                                (s7\<lparr>GIsGarbageCollecting := OldIsGarbageCollecting\<rparr>)))))"

definition CollectGarbage ::
  "gc_config \<Rightarrow> gc_env \<Rightarrow> nat \<Rightarrow> bool \<Rightarrow> UObject list \<Rightarrow> gc_state \<Rightarrow> gc_error + gc_state" where
  "CollectGarbage cfg env fuel bPerformFullPurge UnreachableFound s =
     (if GIsInitialLoad s then Inr s
      else CollectGarbageImpl cfg env fuel bPerformFullPurge UnreachableFound (AcquireGCLock_op s))"

definition TryCollectGarbage ::
  "gc_config \<Rightarrow> gc_env \<Rightarrow> nat \<Rightarrow> bool \<Rightarrow> UObject list \<Rightarrow> gc_state \<Rightarrow> gc_error + (bool \<times> gc_state)" where
  "TryCollectGarbage cfg env fuel bPerformFullPurge UnreachableFound s =
     (if GIsInitialLoad s then Inr (False, s)
      else
        case TryGCLock_op s of
          (bCanRunGC, s1) \<Rightarrow>
            (case (if \<not> bCanRunGC \<and> GNumRetriesBeforeForcingGC cfg > 0
                      \<and> GNumAttemptsSinceLastGC s1 > GNumRetriesBeforeForcingGC cfg
                   then (True, AcquireGCLock_op (log_event LogWarning (s1\<lparr>GNumAttemptsSinceLastGC := 0\<rparr>)))
                   else (bCanRunGC, s1)) of
               (bCanRunGC', s2) \<Rightarrow>
                 if bCanRunGC'
                 then (case CollectGarbageImpl cfg env fuel bPerformFullPurge UnreachableFound s2 of
                         Inl e \<Rightarrow> Inl e
                       | Inr s3 \<Rightarrow> Inr (True, s3))
                 else Inr (False, s2\<lparr>GNumAttemptsSinceLastGC := GNumAttemptsSinceLastGC s2 + 1\<rparr>)))"

subsection \<open>Reading a trace\<close>

text \<open>The objects of a part of \<^verbatim>\<open>GUnreachableObjects\<close> (nulled entries have none), a run
  of resumed invocations of \<^verbatim>\<open>UnhashUnreachableObjects\<close> (each with its own clock and its
  own \<^verbatim>\<open>bUseTimeLimit\<close>), and the objects that received \<^verbatim>\<open>ConditionalBeginDestroy\<close> in a
  trace, in order.\<close>

fun objects_of :: "UObject option list \<Rightarrow> UObject list" where
  "objects_of [] = []"
| "objects_of (None # rest) = objects_of rest"
| "objects_of (Some Obj # rest) = Obj # objects_of rest"

fun Unhash_resumed :: "(gc_env \<times> bool) list \<Rightarrow> gc_state \<Rightarrow> gc_error + gc_state" where
  "Unhash_resumed [] s = Inr s"
| "Unhash_resumed ((env, bUseTimeLimit) # calls) s =
     (case UnhashUnreachableObjects env bUseTimeLimit s of
        Inl e \<Rightarrow> Inl e
      | Inr (_, s') \<Rightarrow> Unhash_resumed calls s')"

fun begin_destroy_calls :: "gc_event list \<Rightarrow> UObject list" where
  "begin_destroy_calls [] = []"
| "begin_destroy_calls (ConditionalBeginDestroy Obj # tr) = Obj # begin_destroy_calls tr"
| "begin_destroy_calls (e # tr) = begin_destroy_calls tr"

subsection \<open>Counting the tests of the time limit\<close>

text \<open>\<open>polls_between c n\<close> is the number of values of \<^verbatim>\<open>TimePollCounter\<close> among
  \<open>c, ..., c + n - 1\<close> that are multiples of 10. \<open>unhash_step\<close> is what one iteration of
  the loop of \<^verbatim>\<open>UnhashUnreachableObjects\<close> does before the time limit is looked at, and
  \<open>unhash_advance\<close> the sum of \<open>n\<close> iterations that tested the time limit \<open>polls\<close>
  times.\<close>

fun polls_between :: "nat \<Rightarrow> nat \<Rightarrow> nat" where
  "polls_between c 0 = 0"
| "polls_between c (Suc n) = (if c mod 10 = 0 then 1 else 0) + polls_between (Suc c) n"

definition unhash_step :: "UObject \<Rightarrow> gc_state \<Rightarrow> gc_state" where
  "unhash_step Obj s = log_event (ConditionalBeginDestroy Obj)
                     (s\<lparr>GUnrechableObjectIndex := GUnrechableObjectIndex s + 1\<rparr>)"

definition unhash_advance :: "nat \<Rightarrow> UObject list \<Rightarrow> nat \<Rightarrow> gc_state \<Rightarrow> gc_state" where
  "unhash_advance n objs polls s =
     s\<lparr>GUnrechableObjectIndex := GUnrechableObjectIndex s + n,
       Trace := Trace s @ map ConditionalBeginDestroy objs,
       ClockPolls := ClockPolls s + polls\<rparr>"

subsection \<open>Example states\<close>

text \<open>The collector at rest, and a state in which twelve objects wait for
  \<^verbatim>\<open>ConditionalBeginDestroy\<close>, with a clock whose budget is found used up from the
  second test on.\<close>

definition purge_idle :: FAsyncPurge where
  "purge_idle = \<lparr>ObjCurrentPurgeObjectIndex = 0, NumObjectsToDestroyOnGameThread = 0,
      NumObjectsDestroyedOnGameThread = 0, ObjCurrentPurgeObjectIndexOnGameThread = 0,
      LastUnreachableObjectsCount = 0, ObjectsDestroyedSinceLastMarkPhase = 0,
      FinishedPurgeEvent = True\<rparr>"

definition gc_idle :: gc_state where
  "gc_idle = \<lparr>GIsInitialLoad = False, GExitPurge = False, GCLockHeld = False,
      GCLockHeldByOther = False, GNumAttemptsSinceLastGC = 0, GObjPurgeIsRequired = False,
      GObjIncrementalPurgeIsInProgress = False,
      GObjFinishDestroyHasBeenRoutedToAllObjects = False,
      GObjCurrentPurgeObjectIndexNeedsReset = True, GObjCurrentPurgeObjectIndex = 0,
      GUnrechableObjectIndex = 0, GUnreachableObjects = [],
      GGCObjectsPendingDestruction = [], GGCObjectsPendingDestructionCount = 0,
      GIsGarbageCollecting = False, GObjUnhashUnreachableIsInProgress = False,
      GWarningTimeOutHasBeenDisplayedGC = False, GAsyncPurge = purge_idle,
      ClockPolls = 0, ReadyQueries = 0, StallPolls = 0, Trace = []\<rparr>"

definition unhash_objects :: "UObject list" where
  "unhash_objects = [40, 41, 42, 43, 44, 45, 46, 47, 48, 49, 50, 51]"

definition unhash_state :: gc_state where
  "unhash_state = gc_idle\<lparr>GObjPurgeIsRequired := True,
                          GUnreachableObjects := map Some unhash_objects\<rparr>"

definition unhash_env :: gc_env where
  "unhash_env = \<lparr>TimeUp = (\<lambda>n. 1 \<le> n), IsReadyForFinishDestroy = (\<lambda>n Obj. True),
                  StallTimeUp = (\<lambda>n. False), IsAsyncLoading = False, IsLoading = False\<rparr>"

definition unhash_calls :: "(gc_env \<times> bool) list" where
  "unhash_calls = [(unhash_env, True), (unhash_env, False)]"

text \<open>The engine during its initial load, with the GC lock held by another thread; the
  default console variables on a desktop editor build; and a state after \<open>attempts\<close>
  skipped attempts, with the lock held by another thread.\<close>

definition initial_load_state :: gc_state where
  "initial_load_state = gc_idle\<lparr>GIsInitialLoad := True, GCLockHeldByOther := True\<rparr>"

definition gc_config_default :: gc_config where
  "gc_config_default = \<lparr>GNumRetriesBeforeForcingGC = 10, GFlushStreamingOnGC = False,
      GIncrementalBeginDestroyEnabled = True, RequiresCookedData = False,
      PLATFORM_DESKTOP = True, GEnableTimeoutOnPendingDestroyedObjectGC = True\<rparr>"

text \<open>The events a run from \<open>s\<close> to \<open>s'\<close> has added to the trace.\<close>

definition new_events :: "gc_state \<Rightarrow> gc_state \<Rightarrow> gc_event list" where
  "new_events s s' = drop (length (Trace s)) (Trace s')"

definition contended_state :: "int \<Rightarrow> gc_state" where
  "contended_state attempts = gc_idle\<lparr>GCLockHeldByOther := True, GNumAttemptsSinceLastGC := attempts\<rparr>"

text \<open>A state an incremental collection has left: object 40 is unreachable and its purge
  is required, nothing of it done yet.\<close>

definition leftover_state :: gc_state where
  "leftover_state = gc_idle\<lparr>GObjPurgeIsRequired := True, GUnreachableObjects := [Some 40]\<rparr>"

subsection \<open>The GC lock along a trace\<close>






section \<open>Time-sliced purge\<close>

text \<open>The objects that received \<^verbatim>\<open>ConditionalFinishDestroy\<close>, the destructor and the free
  in a trace, in order.\<close>

fun finish_destroy_calls :: "gc_event list \<Rightarrow> UObject list" where
  "finish_destroy_calls [] = []"
| "finish_destroy_calls (ConditionalFinishDestroy Obj # tr) = Obj # finish_destroy_calls tr"
| "finish_destroy_calls (e # tr) = finish_destroy_calls tr"

fun destructor_calls :: "gc_event list \<Rightarrow> UObject list" where
  "destructor_calls [] = []"
| "destructor_calls (Destructor Obj # tr) = Obj # destructor_calls tr"
| "destructor_calls (e # tr) = destructor_calls tr"

fun free_calls :: "gc_event list \<Rightarrow> UObject list" where
  "free_calls [] = []"
| "free_calls (FreeUObject Obj # tr) = Obj # free_calls tr"
| "free_calls (e # tr) = free_calls tr"

text \<open>A caller that goes on calling \<^verbatim>\<open>IncrementalPurgeGarbage(true, budget)\<close> while
  \<^verbatim>\<open>IsIncrementalPurgePending()\<close> holds. Each call has its own environment (its clock and
  what \<^verbatim>\<open>IsReadyForFinishDestroy\<close> answers during it) and its own fuel; the run ends when
  no purge is pending or when the calls are used up.\<close>

fun IncrementalPurge_sliced :: "gc_config \<Rightarrow> (gc_env \<times> nat) list \<Rightarrow> gc_state \<Rightarrow> gc_error + gc_state" where
  "IncrementalPurge_sliced cfg [] s = Inr s"
| "IncrementalPurge_sliced cfg ((env, fuel) # calls) s =
     (if \<not> IsIncrementalPurgePending s then Inr s
      else case IncrementalPurgeGarbage cfg env fuel True s of
             Inl e \<Rightarrow> Inl e
           | Inr s' \<Rightarrow> IncrementalPurge_sliced cfg calls s')"

text \<open>\<open>phase_state\<close> is the state of the globals: everything but the trace and the three
  counters of the questions put to the environment. \<open>purge_done s\<close> is the state of the
  globals in which the purge of \<open>s\<close> leaves them once it is complete: nothing required or in
  progress, both cursors at the end of \<^verbatim>\<open>GUnreachableObjects\<close>, every entry nulled, nothing
  pending, and \<^verbatim>\<open>GAsyncPurge\<close> finished.\<close>

definition phase_state :: "gc_state \<Rightarrow> gc_state" where
  "phase_state s = s\<lparr>ClockPolls := 0, ReadyQueries := 0, StallPolls := 0, Trace := []\<rparr>"

definition purge_finished :: "nat \<Rightarrow> FAsyncPurge" where
  "purge_finished n = \<lparr>ObjCurrentPurgeObjectIndex = n, NumObjectsToDestroyOnGameThread = 0,
      NumObjectsDestroyedOnGameThread = 0, ObjCurrentPurgeObjectIndexOnGameThread = 0,
      LastUnreachableObjectsCount = n, ObjectsDestroyedSinceLastMarkPhase = 0,
      FinishedPurgeEvent = True\<rparr>"

definition purge_done :: "gc_state \<Rightarrow> gc_state" where
  "purge_done s =
     (let n = length (GUnreachableObjects s) in
      (phase_state s)\<lparr>GObjPurgeIsRequired := False,
        GObjIncrementalPurgeIsInProgress := False,
        GObjFinishDestroyHasBeenRoutedToAllObjects := False,
        GObjCurrentPurgeObjectIndexNeedsReset := True,
        GObjCurrentPurgeObjectIndex := n,
        GUnrechableObjectIndex := n,
        GUnreachableObjects := replicate n None,
        GGCObjectsPendingDestruction := [],
        GGCObjectsPendingDestructionCount := 0,
        GWarningTimeOutHasBeenDisplayedGC := False,
        GAsyncPurge := purge_finished n\<rparr>)"

text \<open>The invariant of the purge globals between two calls. \<^verbatim>\<open>GExitPurge\<close> is not set and
  \<^verbatim>\<open>GAsyncPurge\<close> has left nothing to the game thread (it has no thread). Then, when no
  purge is required, the globals are those of a complete purge. When \<^verbatim>\<open>FinishDestroy\<close> has
  been routed to all objects, nothing is pending and either the destruction has not begun
  (no entry is nulled, \<^verbatim>\<open>GAsyncPurge\<close> is finished and its event set) or it has been
  interrupted at \<^verbatim>\<open>ObjCurrentPurgeObjectIndex\<close>: the entries before it are nulled, those from
  it on are not. Otherwise no entry is nulled, and either the sweep that routes
  \<^verbatim>\<open>FinishDestroy\<close> has not begun (nothing is pending) or the unhashing is complete and,
  as long as the sweep has not reached the end, every element of
  \<^verbatim>\<open>GGCObjectsPendingDestruction\<close> counts.\<close>

definition purge_wf :: "gc_state \<Rightarrow> bool" where
  "purge_wf s =
     (let n = length (GUnreachableObjects s); A = GAsyncPurge s in
      \<not> GExitPurge s
      \<and> NumObjectsToDestroyOnGameThread A = 0 \<and> NumObjectsDestroyedOnGameThread A = 0
      \<and> (if \<not> GObjPurgeIsRequired s then
            \<not> GObjFinishDestroyHasBeenRoutedToAllObjects s
            \<and> GObjCurrentPurgeObjectIndexNeedsReset s
            \<and> GUnrechableObjectIndex s = n \<and> GObjCurrentPurgeObjectIndex s = n
            \<and> GGCObjectsPendingDestruction s = [] \<and> GGCObjectsPendingDestructionCount s = 0
            \<and> \<not> GWarningTimeOutHasBeenDisplayedGC s
            \<and> GUnreachableObjects s = replicate n None
            \<and> A = purge_finished n
          else if GObjFinishDestroyHasBeenRoutedToAllObjects s then
            GUnrechableObjectIndex s = n \<and> GObjCurrentPurgeObjectIndex s = n
            \<and> GGCObjectsPendingDestruction s = [] \<and> GGCObjectsPendingDestructionCount s = 0
            \<and> \<not> GWarningTimeOutHasBeenDisplayedGC s
            \<and> (if GObjCurrentPurgeObjectIndexNeedsReset s then
                  None \<notin> set (GUnreachableObjects s)
                  \<and> LastUnreachableObjectsCount A \<le> ObjCurrentPurgeObjectIndex A
                  \<and> FinishedPurgeEvent A
                else
                  ObjCurrentPurgeObjectIndex A < n
                  \<and> take (ObjCurrentPurgeObjectIndex A) (GUnreachableObjects s)
                      = replicate (ObjCurrentPurgeObjectIndex A) None
                  \<and> None \<notin> set (drop (ObjCurrentPurgeObjectIndex A) (GUnreachableObjects s))
                  \<and> LastUnreachableObjectsCount A = n
                  \<and> ObjCurrentPurgeObjectIndexOnGameThread A = 0
                  \<and> ObjectsDestroyedSinceLastMarkPhase A = ObjCurrentPurgeObjectIndex A
                  \<and> \<not> FinishedPurgeEvent A)
          else
            None \<notin> set (GUnreachableObjects s)
            \<and> GUnrechableObjectIndex s \<le> n
            \<and> LastUnreachableObjectsCount A \<le> ObjCurrentPurgeObjectIndex A
            \<and> FinishedPurgeEvent A
            \<and> (if GObjCurrentPurgeObjectIndexNeedsReset s then
                  GGCObjectsPendingDestruction s = [] \<and> GGCObjectsPendingDestructionCount s = 0
                else
                  GUnrechableObjectIndex s = n \<and> GObjCurrentPurgeObjectIndex s \<le> n
                  \<and> (GObjCurrentPurgeObjectIndex s < n \<longrightarrow>
                       length (GGCObjectsPendingDestruction s) = GGCObjectsPendingDestructionCount s))))"

text \<open>What the purge of \<open>s\<close> still owes: the objects from \<^verbatim>\<open>GUnrechableObjectIndex\<close> on wait
  for \<^verbatim>\<open>ConditionalBeginDestroy\<close>; until \<^verbatim>\<open>FinishDestroy\<close> has been routed to all, the
  objects from \<^verbatim>\<open>GObjCurrentPurgeObjectIndex\<close> on (from the start, when the index is to be
  reset) and the pending ones wait for \<^verbatim>\<open>ConditionalFinishDestroy\<close>; the objects of the
  entries not yet nulled wait for the destructor and the free.\<close>

definition begin_destroy_due :: "gc_state \<Rightarrow> UObject list" where
  "begin_destroy_due s = objects_of (drop (GUnrechableObjectIndex s) (GUnreachableObjects s))"

definition finish_destroy_due :: "gc_state \<Rightarrow> UObject multiset" where
  "finish_destroy_due s =
     (if GObjFinishDestroyHasBeenRoutedToAllObjects s then {#}
      else mset (objects_of (drop (if GObjCurrentPurgeObjectIndexNeedsReset s then 0
                                   else GObjCurrentPurgeObjectIndex s) (GUnreachableObjects s)))
           + mset (take (GGCObjectsPendingDestructionCount s) (GGCObjectsPendingDestruction s)))"

definition destroy_due :: "gc_state \<Rightarrow> UObject list" where
  "destroy_due s = objects_of (GUnreachableObjects s)"

text \<open>\<open>purge_progress s s'\<close>: \<open>s'\<close> satisfies the invariant, its complete purge is that of
  \<open>s\<close>, and the calls made between \<open>s\<close> and \<open>s'\<close> together with what \<open>s'\<close> owes are what \<open>s\<close>
  owes. \<open>pending_step s s'\<close>: between \<open>s\<close> and \<open>s'\<close> only pending objects were finished.
  \<open>destroy_events\<close>, \<open>destroyed\<close> and \<open>purge_ticked\<close> describe what \<^verbatim>\<open>TickDestroyObjects\<close>
  and \<^verbatim>\<open>TickPurge\<close> do to \<open>k\<close> objects from the cursor \<open>d\<close> on.\<close>

definition purge_progress :: "gc_state \<Rightarrow> gc_state \<Rightarrow> bool" where
  "purge_progress s s' =
     (purge_wf s' \<and> purge_done s' = purge_done s
      \<and> Trace s' = Trace s @ new_events s s'
      \<and> begin_destroy_calls (new_events s s') @ begin_destroy_due s' = begin_destroy_due s
      \<and> mset (finish_destroy_calls (new_events s s')) + finish_destroy_due s' = finish_destroy_due s
      \<and> destructor_calls (new_events s s') @ destroy_due s' = destroy_due s
      \<and> free_calls (new_events s s') = destructor_calls (new_events s s'))"


definition pending_step :: "gc_state \<Rightarrow> gc_state \<Rightarrow> bool" where
  "pending_step s s' =
     (phase_state s' = phase_state
        (s\<lparr>GGCObjectsPendingDestruction := GGCObjectsPendingDestruction s',
           GGCObjectsPendingDestructionCount := GGCObjectsPendingDestructionCount s',
           GWarningTimeOutHasBeenDisplayedGC := GWarningTimeOutHasBeenDisplayedGC s'\<rparr>)
      \<and> length (GGCObjectsPendingDestruction s') = length (GGCObjectsPendingDestruction s)
      \<and> GGCObjectsPendingDestructionCount s' \<le> GGCObjectsPendingDestructionCount s
      \<and> Trace s' = Trace s @ new_events s s'
      \<and> begin_destroy_calls (new_events s s') = []
      \<and> destructor_calls (new_events s s') = []
      \<and> free_calls (new_events s s') = []
      \<and> mset (finish_destroy_calls (new_events s s'))
          + mset (take (GGCObjectsPendingDestructionCount s') (GGCObjectsPendingDestruction s'))
        = mset (take (GGCObjectsPendingDestructionCount s) (GGCObjectsPendingDestruction s)))"

definition destroy_events :: "UObject list \<Rightarrow> gc_event list" where
  "destroy_events objs = concat (map (\<lambda>Obj. [Destructor Obj, FreeUObject Obj]) objs)"

definition destroyed :: "nat \<Rightarrow> nat \<Rightarrow> gc_state \<Rightarrow> gc_state" where
  "destroyed d k s =
     s\<lparr>GUnreachableObjects := take d (GUnreachableObjects s) @ replicate k None
                                 @ drop (d + k) (GUnreachableObjects s),
       GAsyncPurge := (GAsyncPurge s)
         \<lparr>ObjectsDestroyedSinceLastMarkPhase := ObjectsDestroyedSinceLastMarkPhase (GAsyncPurge s) + k,
          ObjCurrentPurgeObjectIndex := d + k\<rparr>\<rparr>"

definition purge_ticked :: "nat \<Rightarrow> gc_state \<Rightarrow> gc_state" where
  "purge_ticked k s =
     (let d = ObjCurrentPurgeObjectIndex (GAsyncPurge s); L = GUnreachableObjects s in
      s\<lparr>GUnreachableObjects := take d L @ replicate k None @ drop (d + k) L,
        GAsyncPurge := (GAsyncPurge s)
          \<lparr>LastUnreachableObjectsCount := length L,
           ObjectsDestroyedSinceLastMarkPhase := ObjectsDestroyedSinceLastMarkPhase (GAsyncPurge s) + k,
           ObjCurrentPurgeObjectIndex := d + k,
           FinishedPurgeEvent := (d + k = length L \<or> FinishedPurgeEvent (GAsyncPurge s))\<rparr>\<rparr>)"

text \<open>A cooked build for a platform that is not a desktop, an environment in which an
  object is not ready for \<^verbatim>\<open>FinishDestroy\<close> the first two times it is asked and the stall
  timer has run out, and three calls in the same environment.\<close>

definition stall_config :: gc_config where
  "stall_config = gc_config_default\<lparr>RequiresCookedData := True, PLATFORM_DESKTOP := False\<rparr>"

definition stall_env :: gc_env where
  "stall_env = \<lparr>TimeUp = (\<lambda>n. False), IsReadyForFinishDestroy = (\<lambda>n Obj. 2 \<le> n),
                 StallTimeUp = (\<lambda>n. True), IsAsyncLoading = False, IsLoading = False\<rparr>"

definition sliced_calls :: "gc_env \<Rightarrow> (gc_env \<times> nat) list" where
  "sliced_calls env = [(env, 1), (env, 1), (env, 1)]"

section \<open>Theorems\<close>

subsection \<open>Page cache\<close>

lemma ReturnWorkerPage_full:
  assumes "IsValidPage Page" "WorkerIdx < length (WorkerCaches a)"
    "length (WorkerCaches a ! WorkerIdx) \<ge> WorkerCache_Capacity"
  shows "ReturnWorkerPage WorkerIdx Page a = Inr (a\<lparr>Freed := Freed a @ [Page]\<rparr>)"
  using assms by (simp add: ReturnWorkerPage_def WorkerCache_Push_def FreePage_def IsValidPage_def)

text \<open>
  C5. A page returned through \<^verbatim>\<open>ReturnWorkerPage\<close> while the worker's cache is full
  should move to the shared pool and no page should reach the system allocator before
  shutdown. The code instead frees it: returning page \<open>33 * 4096\<close> to the full cache of
  worker 0 leaves the shared cache empty and the worker's cache unchanged, and records the
  page as freed.
\<close>

theorem C5_ReturnWorkerPage_full_frees:
  "ReturnWorkerPage 0 (33 * 4096) full_worker_alloc
     = Inr (full_worker_alloc\<lparr>Freed := [33 * 4096]\<rparr>)
   \<and> SharedCache full_worker_alloc = []
   \<and> length (WorkerCaches full_worker_alloc ! 0) = WorkerCache_Capacity"
  by (simp add: ReturnWorkerPage_def WorkerCache_Push_def FreePage_def IsValidPage_def
      full_worker_alloc_def WorkerCache_Capacity_def MaxWorkers_def PageSize_def)


subsection \<open>Work-stealing queue\<close>

lemma unat_small: "n \<le> 16 \<Longrightarrow> unat (word_of_nat n :: 32 word) = n"
  by (simp add: unat_of_nat)

lemma is_block_not_free: "is_block b \<Longrightarrow> b \<noteq> FreeSlot"
  by (auto simp: is_block_def FreeSlot_def TakenSlot_def)

lemma free_not_block: "\<not> TakenSlot < FreeSlot"
  by (simp add: FreeSlot_def TakenSlot_def)



lemma slots_nth_free:
  "length sh \<le> i \<Longrightarrow> i < 16 \<Longrightarrow> (sh @ replicate (16 - length sh) FreeSlot) ! i = FreeSlot"
  by (simp add: nth_append)

lemma slots_store:
  assumes "length sh < 16"
  shows "(sh @ replicate (16 - length sh) FreeSlot)[length sh := b]
           = (sh @ [b]) @ replicate (16 - length (sh @ [b])) FreeSlot"
proof -
  have "16 - length sh = Suc (15 - length sh)" using assms by simp
  then show ?thesis by (simp add: list_update_append)
qed

lemma slots_clear:
  assumes "length sh < 16"
  shows "((sh @ [b]) @ replicate (16 - length (sh @ [b])) FreeSlot)[length sh := FreeSlot]
           = sh @ replicate (16 - length sh) FreeSlot"
proof -
  have "16 - length sh = Suc (15 - length sh)" using assms by simp
  then show ?thesis by (simp add: list_update_append)
qed

lemma idx_small: "n < 16 \<Longrightarrow> unat (word_of_nat n :: 32 word) mod Queue_Capacity = n"
  by (simp add: Queue_Capacity_def unat_of_nat)

lemma idx_wrap: "unat (- 1 :: 32 word) mod Queue_Capacity = 15"
  by (simp add: Queue_Capacity_def unsigned_minus_1_eq_mask mask_eq_exp_minus_1)

lemma Bounded_Push_room:
  assumes "length sh < 16"
    and "Slots s = sh @ replicate (16 - length sh) FreeSlot"
    and "Head s = word_of_nat (length sh) - 1"
  shows "Bounded_Push b s =
           (True, s\<lparr>Slots := (sh @ [b]) @ replicate (16 - length (sh @ [b])) FreeSlot,
                     Head := word_of_nat (length (sh @ [b])) - 1\<rparr>)"
proof -
  have h: "Head s + 1 = word_of_nat (length sh)"
    using assms(3) by simp
  have "Slots s ! length sh = FreeSlot"
    using assms(1,2) by (simp add: slots_nth_free)
  moreover have "(Slots s)[length sh := b] = (sh @ [b]) @ replicate (16 - length (sh @ [b])) FreeSlot"
    using assms(1,2) slots_store by simp
  ultimately show ?thesis
    unfolding Bounded_Push_def Let_def h idx_small [OF assms(1)] by simp
qed

lemma Bounded_Push_full:
  assumes "length sh = 16" and "list_all is_block sh"
    and "Slots s = sh @ replicate (16 - length sh) FreeSlot"
    and "Head s = word_of_nat (length sh) - 1"
  shows "Bounded_Push b s = (False, s)"
proof -
  have h: "Head s + 1 = 16" using assms(1,4) by simp
  have idx: "unat (16 :: 32 word) mod Queue_Capacity = 0"
    by (simp add: Queue_Capacity_def)
  have "sh ! 0 \<in> set sh" using assms(1) by (intro nth_mem) simp
  then have "is_block (sh ! 0)" using assms(2) by (simp add: list_all_iff)
  then have "Slots s ! 0 \<noteq> FreeSlot"
    using assms(1,3) by (simp add: nth_append is_block_not_free)
  then show ?thesis unfolding Bounded_Push_def Let_def h idx by simp
qed

lemma Bounded_Pop_empty:
  assumes "Slots s = replicate 16 FreeSlot" and "Head s = - 1"
  shows "Bounded_Pop s = (None, s)"
proof -
  have "Slots s ! 15 = FreeSlot" using assms(1) by simp
  then show ?thesis
    unfolding Bounded_Pop_def Let_def assms(2) idx_wrap by (simp add: free_not_block)
qed

lemma Bounded_Pop_top:
  assumes "length sh < 16" and "is_block b"
    and "Slots s = (sh @ [b]) @ replicate (16 - length (sh @ [b])) FreeSlot"
    and "Head s = word_of_nat (length (sh @ [b])) - 1"
  shows "Bounded_Pop s =
           (Some b, s\<lparr>Slots := sh @ replicate (16 - length sh) FreeSlot,
                       Head := word_of_nat (length sh) - 1\<rparr>)"
proof -
  have h: "Head s = word_of_nat (length sh)" using assms(4) by simp
  have "Slots s ! length sh = b"
    using assms(3) by (simp add: nth_append)
  moreover have "(Slots s)[length sh := FreeSlot] = sh @ replicate (16 - length sh) FreeSlot"
    using assms(1,3) slots_clear by simp
  ultimately show ?thesis
    unfolding Bounded_Pop_def Let_def h idx_small [OF assms(1)]
    using assms(2) by (simp add: is_block_def)
qed

lemma queue_push_sim:
  assumes "queue_rel q stk" and "is_block b"
  shows "queue_rel (Queue_Push b q) (b # stk)"
proof -
  from assms(1) obtain sh where sh: "length sh \<le> 16"
      "Slots (SharedBlocks q) = sh @ replicate (16 - length sh) FreeSlot"
      "Head (SharedBlocks q) = word_of_nat (length sh) - 1"
      "LocalBlocks q \<noteq> [] \<longrightarrow> length sh = 16"
      "list_all is_block (sh @ LocalBlocks q)"
      "stk = rev (sh @ LocalBlocks q)"
    unfolding queue_rel_def Queue_Capacity_def by blast
  show ?thesis
  proof (cases "length sh < 16")
    case True
    then have loc: "LocalBlocks q = []" using sh(4) by auto
    have "Queue_Push b q =
            q\<lparr>SharedBlocks := (SharedBlocks q)\<lparr>Slots := (sh @ [b]) @ replicate (16 - length (sh @ [b])) FreeSlot,
                     Head := word_of_nat (length (sh @ [b])) - 1\<rparr>\<rparr>"
      by (simp add: Queue_Push_def Bounded_Push_room [OF True sh(2,3)])
    then show ?thesis
      unfolding queue_rel_def Queue_Capacity_def
      using True sh(5,6) assms(2) loc
      by (intro exI [of _ "sh @ [b]"]) simp
  next
    case False
    then have full: "length sh = 16" using sh(1) by simp
    have "list_all is_block sh" using sh(5) by simp
    then have "Queue_Push b q = q\<lparr>LocalBlocks := LocalBlocks q @ [b]\<rparr>"
      by (simp add: Queue_Push_def Bounded_Push_full [OF full _ sh(2,3)])
    then show ?thesis
      unfolding queue_rel_def Queue_Capacity_def
      using full sh(2,3,5,6) assms(2)
      by (intro exI [of _ sh]) simp
  qed
qed

lemma queue_pop_empty_sim:
  assumes "queue_rel q []"
  shows "Queue_Pop q = (None, q)"
proof -
  from assms have "Slots (SharedBlocks q) = replicate 16 FreeSlot"
      "Head (SharedBlocks q) = - 1" "LocalBlocks q = []"
    unfolding queue_rel_def Queue_Capacity_def by auto
  then show ?thesis
    by (simp add: Queue_Pop_def Bounded_Pop_empty)
qed

lemma queue_pop_sim:
  assumes "queue_rel q (b # stk)"
  shows "\<exists>q'. Queue_Pop q = (Some b, q') \<and> queue_rel q' stk"
proof -
  from assms obtain sh where sh: "length sh \<le> 16"
      "Slots (SharedBlocks q) = sh @ replicate (16 - length sh) FreeSlot"
      "Head (SharedBlocks q) = word_of_nat (length sh) - 1"
      "LocalBlocks q \<noteq> [] \<longrightarrow> length sh = 16"
      "list_all is_block (sh @ LocalBlocks q)"
      "b # stk = rev (sh @ LocalBlocks q)"
    unfolding queue_rel_def Queue_Capacity_def by blast
  show ?thesis
  proof (cases "LocalBlocks q = []")
    case True
    with sh(6) have "sh \<noteq> []" by auto
    then obtain sh' where sh': "sh = sh' @ [b]" "stk = rev sh'"
      using sh(6) True by (cases sh rule: rev_cases) auto
    have lt: "length sh' < 16" using sh(1) sh'(1) by simp
    have blk: "is_block b" using sh(5) sh'(1) by simp
    have "Bounded_Pop (SharedBlocks q) =
           (Some b, (SharedBlocks q)\<lparr>Slots := sh' @ replicate (16 - length sh') FreeSlot,
                       Head := word_of_nat (length sh') - 1\<rparr>)"
      using Bounded_Pop_top [OF lt blk] sh(2,3) sh'(1) by simp
    then have "Queue_Pop q = (Some b, q\<lparr>SharedBlocks := (SharedBlocks q)\<lparr>Slots := sh' @ replicate (16 - length sh') FreeSlot,
                       Head := word_of_nat (length sh') - 1\<rparr>\<rparr>)"
      using True by (simp add: Queue_Pop_def)
    moreover have "queue_rel (q\<lparr>SharedBlocks := (SharedBlocks q)\<lparr>Slots := sh' @ replicate (16 - length sh') FreeSlot,
                       Head := word_of_nat (length sh') - 1\<rparr>\<rparr>) stk"
      unfolding queue_rel_def Queue_Capacity_def
      using lt sh(5) sh' True by (intro exI [of _ sh']) simp
    ultimately show ?thesis by blast
  next
    case False
    then obtain L where L: "LocalBlocks q = L @ [b]" "stk = rev (sh @ L)"
      using sh(6) by (cases "LocalBlocks q" rule: rev_cases) auto
    have full: "length sh = 16" using sh(4) False by simp
    have blk: "list_all is_block sh" using sh(5) by simp
    have stay: "move_to_shared (length L) (LocalBlocks q) (SharedBlocks q)
                  = (length L, SharedBlocks q)"
      by (cases "length L") (simp_all add: Bounded_Push_full [OF full blk sh(2,3)])
    have "Queue_Pop q = (Some b, \<lparr>SharedBlocks = SharedBlocks q, LocalBlocks = L\<rparr>)"
      using L(1) stay by (simp add: Queue_Pop_def Let_def)
    moreover have "queue_rel \<lparr>SharedBlocks = SharedBlocks q, LocalBlocks = L\<rparr> stk"
      unfolding queue_rel_def Queue_Capacity_def
      using full sh(2,3,5) L by (intro exI [of _ sh]) simp
    ultimately show ?thesis by blast
  qed
qed

lemma queue_rel_init: "queue_rel Queue_init []"
  unfolding queue_rel_def
  by (intro exI [of _ "[]"]) (simp add: Queue_init_def BoundedQueue_init_def FreeSlot_def)

lemma run_queue_refines:
  "queue_rel q stk \<Longrightarrow> list_all is_block (pushed ops) \<Longrightarrow>
     fst (run_queue ops q) = fst (run_stack ops stk)
     \<and> queue_rel (snd (run_queue ops q)) (snd (run_stack ops stk))"
proof (induction ops stk arbitrary: q rule: run_stack.induct)
  case (1 stk)
  then show ?case by simp
next
  case (2 b ops stk)
  then show ?case by (simp add: queue_push_sim)
next
  case (3 ops)
  from "3.IH" [OF "3.prems"(1)] "3.prems"(2) show ?case
    by (auto simp: queue_pop_empty_sim [OF "3.prems"(1)] split: prod.splits)
next
  case (4 ops b stk)
  from queue_pop_sim [OF "4.prems"(1)] obtain q' where
    q': "Queue_Pop q = (Some b, q')" "queue_rel q' stk" by blast
  from "4.IH" [OF q'(2)] "4.prems"(2) show ?case
    by (auto simp: q'(1) split: prod.splits)
qed

lemma Bounded_Steal_free:
  assumes "Slots s ! (unat (Tail s) mod Queue_Capacity) = FreeSlot"
  shows "Bounded_Steal s = Some (None, s)"
  by (subst Bounded_Steal.simps) (simp add: assms Let_def)


lemma queue_rel_no_blocks_Steal:
  assumes "queue_rel q stk" and "Queue_holds_no_blocks q"
  shows "Queue_Steal q = Some (None, q)"
proof -
  from assms(1) have len: "length (Slots (SharedBlocks q)) = 16"
    unfolding queue_rel_def Queue_Capacity_def by auto
  have "unat (Tail (SharedBlocks q)) mod Queue_Capacity < length (Slots (SharedBlocks q))"
    by (simp add: len Queue_Capacity_def)
  then have "Slots (SharedBlocks q) ! (unat (Tail (SharedBlocks q)) mod Queue_Capacity) = FreeSlot"
    using assms(2) by (simp add: Queue_holds_no_blocks_def list_all_length)
  then show ?thesis
    by (simp add: Queue_Steal_def Bounded_Steal_free)
qed

text \<open>
  C9. For every sequence of \<^verbatim>\<open>Push\<close> and \<^verbatim>\<open>Pop\<close> operations that the owner runs on
  a fresh \<^verbatim>\<open>FWorkstealingQueue\<close> (every pushed block a real address), the results of the
  \<^verbatim>\<open>Pop\<close>s are those of a stack: each returns the most recently pushed block that has
  not been removed, also when blocks went to the local overflow because the 16 shared
  slots were full, and \<^verbatim>\<open>nullptr\<close> when there is none. A \<^verbatim>\<open>Steal\<close> on the resulting
  queue, when it holds no blocks, returns \<^verbatim>\<open>nullptr\<close> at once and leaves the queue as it
  was.
\<close>

theorem C9_owner_pop_is_lifo:
  assumes "list_all is_block (pushed ops)"
  shows "fst (run_queue ops Queue_init) = fst (run_stack ops [])
         \<and> (Queue_holds_no_blocks (snd (run_queue ops Queue_init)) \<longrightarrow>
              Queue_Steal (snd (run_queue ops Queue_init))
                = Some (None, snd (run_queue ops Queue_init)))"
  using run_queue_refines [OF queue_rel_init assms] queue_rel_no_blocks_Steal
  by blast

lemma lifo_ops_blocks: "list_all is_block (pushed lifo_ops)"
  by (simp add: lifo_ops_def is_block_def TakenSlot_def)

lemma lifo_ops_stack:
  "run_stack lifo_ops [] =
     ([Some 73728, Some 69632, Some 65536, Some 77824, Some 61440, Some 57344, Some 53248,
       Some 49152, Some 45056, Some 40960, Some 36864, Some 32768, Some 28672, Some 24576,
       Some 20480, Some 16384, Some 12288, Some 8192, Some 4096, None], [])"
  by (simp add: lifo_ops_def)

lemma queue_rel_empty_no_blocks:
  assumes "queue_rel q []"
  shows "Queue_holds_no_blocks q"
  using assms unfolding queue_rel_def Queue_holds_no_blocks_def
  by (auto simp: list_all_iff)

lemma lifo_ops_final_empty: "Queue_holds_no_blocks (snd (run_queue lifo_ops Queue_init))"
  using run_queue_refines [OF queue_rel_init lifo_ops_blocks]
  by (simp add: lifo_ops_stack queue_rel_empty_no_blocks)

theorem C9_owner_pop_is_lifo_witness:
  "list_all is_block (pushed lifo_ops)
   \<and> fst (run_queue lifo_ops Queue_init) =
     [Some 73728, Some 69632, Some 65536, Some 77824, Some 61440, Some 57344, Some 53248,
       Some 49152, Some 45056, Some 40960, Some 36864, Some 32768, Some 28672, Some 24576,
       Some 20480, Some 16384, Some 12288, Some 8192, Some 4096, None]
   \<and> Queue_holds_no_blocks (snd (run_queue lifo_ops Queue_init))
   \<and> Queue_Steal (snd (run_queue lifo_ops Queue_init))
       = Some (None, snd (run_queue lifo_ops Queue_init))"
  using C9_owner_pop_is_lifo [OF lifo_ops_blocks] lifo_ops_blocks lifo_ops_final_empty
  by (simp add: lifo_ops_stack)

subsection \<open>Reachability processor\<close>

text \<open>
  C1. A validated reference (not null, resolved, not in the permanent pool, its object in
  the table) whose target carries the kill flag (\<open>Garbage\<close>, or \<open>PendingKill\<close> with the
  \<^verbatim>\<open>WithPendingKill\<close> option) and whose slot is killable: \<^verbatim>\<open>ProcessReferenceDirectly\<close>
  with \<^verbatim>\<open>EKillable::Yes\<close> (its \<^verbatim>\<open>check\<close> holding: there is a referencing object, or
  pending kill is enabled) and \<^verbatim>\<open>HandleBatchedReference\<close> on the resolved mutable
  reference both return the heap with null written to the slot and nothing else changed:
  the object items keep their flags, so the target's \<open>Unreachable\<close> flag is not cleared,
  and nothing is added to the objects to serialize.
\<close>

theorem C1_killable_reference_is_nulled:
  assumes "RefSlots h Slot = ObjPtr Obj"
    and "ValidateReference PermanentPool (ObjPtr Obj)"
    and "Obj < length (ObjectItems h)"
    and "KillFlag Options \<in> Flags (ObjectItems h ! Obj)"
    and "ReferencingObject \<noteq> None \<or> IsWithPendingKill Options"
  shows "ProcessReferenceDirectly Options fuel PermanentPool ReferencingObject Slot Yes h
           = Inr (KillReference Slot h)
       \<and> HandleBatchedReference_Mutable Options fuel Obj Slot (Metadata_of Obj h) h
           = Inr (KillReference Slot h)
       \<and> RefSlots (KillReference Slot h) Slot = nullptr
       \<and> ObjectItems (KillReference Slot h) = ObjectItems h
       \<and> ObjectsToSerialize (KillReference Slot h) = ObjectsToSerialize h"
proof -
  have has: "Metadata_Has (KillFlag Options) (Metadata_of Obj h)"
    using assms(4) by (simp add: Metadata_Has_def Metadata_of_def)
  have "ProcessReferenceDirectly Options fuel PermanentPool ReferencingObject Slot Yes h
           = Inr (KillReference Slot h)"
    using assms(1,2,3,5) has by (auto simp: ProcessReferenceDirectly_def Let_def)
  moreover have "HandleBatchedReference_Mutable Options fuel Obj Slot (Metadata_of Obj h) h
           = Inr (KillReference Slot h)"
    using has by (simp add: HandleBatchedReference_Mutable_def)
  ultimately show ?thesis
    by (simp add: KillReference_def)
qed

theorem C1_killable_reference_is_nulled_witness:
  "RefSlots kill_heap 7 = ObjPtr 1
   \<and> ValidateReference no_pool (ObjPtr 1)
   \<and> 1 < length (ObjectItems kill_heap)
   \<and> KillFlag \<lparr>Parallel = True, WithPendingKill = False\<rparr> \<in> Flags (ObjectItems kill_heap ! 1)
   \<and> ProcessReferenceDirectly \<lparr>Parallel = True, WithPendingKill = False\<rparr> 0 no_pool (Some 0) 7 Yes
        kill_heap = Inr (KillReference 7 kill_heap)
   \<and> HandleBatchedReference_Mutable \<lparr>Parallel = True, WithPendingKill = False\<rparr> 0 1 7
        (Metadata_of 1 kill_heap) kill_heap = Inr (KillReference 7 kill_heap)
   \<and> RefSlots (KillReference 7 kill_heap) 7 = nullptr
   \<and> Unreachable \<in> Flags (ObjectItems (KillReference 7 kill_heap) ! 1)
   \<and> ObjectsToSerialize (KillReference 7 kill_heap) = []"
proof -
  have a: "RefSlots kill_heap 7 = ObjPtr 1" by (simp add: kill_heap_def)
  have b: "ValidateReference no_pool (ObjPtr 1)" by (simp add: ValidateReference_def no_pool_def)
  have c: "1 < length (ObjectItems kill_heap)" by (simp add: kill_heap_def)
  have d: "KillFlag \<lparr>Parallel = True, WithPendingKill = False\<rparr> \<in> Flags (ObjectItems kill_heap ! 1)"
    by (simp add: kill_heap_def KillFlag_def IsWithPendingKill_def)
  have e: "Some (0::nat) \<noteq> None \<or> IsWithPendingKill \<lparr>Parallel = True, WithPendingKill = False\<rparr>"
    by simp
  have f: "Unreachable \<in> Flags (ObjectItems kill_heap ! 1)" "ObjectsToSerialize kill_heap = []"
    by (simp_all add: kill_heap_def)
  from C1_killable_reference_is_nulled [OF a b c d e, of 0] a b c d f show ?thesis
    by simp
qed

subsection \<open>Mark phase\<close>

lemma stripes_prefix:
  assumes "0 < P" "0 \<le> F" "F \<le> N"
  shows "concat (map (\<lambda>t. map nat [int t * P + F .. min (N - 1) (int t * P + F + P - 1)]) [0..<k])
         = map nat [F .. min (N - 1) (int k * P + F - 1)]"
proof (induction k)
  case 0
  then show ?case by simp
next
  case (Suc k)
  have split: "[F .. min (N - 1) (int (Suc k) * P + F - 1)]
        = [F .. min (N - 1) (int k * P + F - 1)] @ [int k * P + F .. min (N - 1) (int k * P + F + P - 1)]"
  proof (cases "int k * P + F \<le> N - 1")
    case True
    have eq: "int (Suc k) * P + F - 1 = int k * P + F + P - 1" by (simp add: algebra_simps)
    have "F \<le> int k * P + F" using assms(1) by simp
    moreover have "int k * P + F \<le> min (N - 1) (int k * P + F + P - 1)"
      using True assms(1) by simp
    ultimately have "[F .. min (N - 1) (int k * P + F + P - 1)]
             = [F .. int k * P + F - 1] @ [int k * P + F .. min (N - 1) (int k * P + F + P - 1)]"
      by (rule upto_split1)
    moreover have "min (N - 1) (int k * P + F - 1) = int k * P + F - 1" using True by simp
    ultimately show ?thesis unfolding eq by simp
  next
    case False
    then have "min (N - 1) (int k * P + F - 1) = N - 1" by simp
    moreover have "min (N - 1) (int (Suc k) * P + F - 1) = N - 1"
      using False assms(1) by (simp add: min_def algebra_simps)
    moreover have "[int k * P + F .. min (N - 1) (int k * P + F + P - 1)] = []"
      using False by simp
    ultimately show ?thesis by simp
  qed
  show ?case unfolding split by (simp add: Suc.IH)
qed


lemma stripe_total:
  assumes "1 \<le> (T::int)"
  shows "M < T * (M div T + 1)"
proof -
  define q where "q = M div T"
  define r where "r = M mod T"
  have "T * q + r = M" unfolding q_def r_def by (rule mult_div_mod_eq)
  moreover have "r < T" unfolding r_def using assms by simp
  ultimately have "M < T * q + T" by linarith
  then show ?thesis unfolding q_def by (simp add: algebra_simps)
qed

lemma stripe_indices_eq:
  assumes "1 \<le> T" "0 \<le> F" "F \<le> N" "int t < T"
  shows "stripe_indices N F T (int t)
           = map nat [int t * ((N - F) div T + 1) + F
                        .. min (N - 1) (int t * ((N - F) div T + 1) + F + ((N - F) div T + 1) - 1)]"
proof (cases "int t < T - 1")
  case True
  then show ?thesis by (simp add: stripe_indices_def stripe_bounds_def Let_def)
next
  case False
  then have t: "int t = T - 1" using assms(4) by simp
  define P where "P = (N - F) div T + 1"
  have "N - F < T * P"
    unfolding P_def using assms(1) by (rule stripe_total)
  then have "N - 1 \<le> (T - 1) * P + F + P - 1" by (simp add: algebra_simps)
  then have "min (N - 1) ((T - 1) * P + F + P - 1) = N - 1" by simp
  moreover have "min (N - 1) ((T - 1) * P + F + (N - F - (T - 1) * P) - 1) = N - 1" by simp
  ultimately show ?thesis
    unfolding P_def [symmetric]
    by (simp add: stripe_indices_def stripe_bounds_def Let_def t P_def [symmetric])
qed

lemma stripes_cover:
  assumes "1 \<le> T" "0 \<le> F" "F \<le> N"
  shows "concat (map (\<lambda>t. stripe_indices N F T (int t)) [0..<nat T]) = map nat [F .. N - 1]"
proof -
  define P where "P = (N - F) div T + 1"
  have P: "0 < P" using assms unfolding P_def by (simp add: pos_imp_zdiv_nonneg_iff add_pos_nonneg)
  have eqm: "map (\<lambda>t. stripe_indices N F T (int t)) [0..<nat T]
      = map (\<lambda>t. map nat [int t * P + F .. min (N - 1) (int t * P + F + P - 1)]) [0..<nat T]"
    using assms unfolding P_def by (intro map_cong refl stripe_indices_eq) auto
  have "N - F < T * P"
    unfolding P_def using assms(1) by (rule stripe_total)
  then have "N - 1 \<le> T * P + F - 1" by simp
  then have m: "min (N - 1) (int (nat T) * P + F - 1) = N - 1" using assms(1) by simp
  show ?thesis unfolding eqm stripes_prefix [OF P assms(2,3)] m ..
qed


lemma mark_frame_refl: "mark_frame j m m"
  by (auto simp: mark_frame_def)

lemma mark_frame_trans: "mark_frame j m m' \<Longrightarrow> mark_frame j m' m'' \<Longrightarrow> mark_frame j m m''"
  unfolding mark_frame_def by (auto simp del: set_concat)

lemma set_concat_update:
  "t < length xss \<Longrightarrow> set (concat (xss[t := xss ! t @ [x]])) = insert x (set (concat xss))"
proof (induction xss arbitrary: t)
  case Nil
  then show ?case by simp
next
  case (Cons a xss)
  then show ?case by (cases t) auto
qed

lemma frame_Local_Add:
  "t < length (ObjectsToSerializeArrays m) \<Longrightarrow> mark_frame j m (Local_Add t Obj m)"
  by (auto simp: mark_frame_def Local_Add_def set_concat_update simp del: set_concat)

lemma frame_KeepClusterRefs_Push: "mark_frame j m (KeepClusterRefs_Push k m)"
  by (auto simp: mark_frame_def KeepClusterRefs_Push_def)

lemma frame_ClustersToDissolve_Push: "mark_frame j m (ClustersToDissolve_Push j m)"
  by (auto simp: mark_frame_def ClustersToDissolve_Push_def)

lemma frame_Mark_upd_item: "mark_frame j m (Mark_upd_item j f m)"
  by (auto simp: mark_frame_def Mark_upd_item_def)

lemma frame_count: "mark_frame j m (m\<lparr>ObjectCountDuringMarkPhase := c\<rparr>)"
  by (auto simp: mark_frame_def)

lemma arrays_Local_Add [simp]:
  "length (ObjectsToSerializeArrays (Local_Add t Obj m)) = length (ObjectsToSerializeArrays m)"
  by (simp add: Local_Add_def)

lemma arrays_others [simp]:
  "ObjectsToSerializeArrays (KeepClusterRefs_Push k m) = ObjectsToSerializeArrays m"
  "ObjectsToSerializeArrays (ClustersToDissolve_Push k m) = ObjectsToSerializeArrays m"
  "ObjectsToSerializeArrays (Mark_upd_item k f m) = ObjectsToSerializeArrays m"
  by (simp_all add: KeepClusterRefs_Push_def ClustersToDissolve_Push_def Mark_upd_item_def)

lemma MarkObject_frame:
  assumes "MarkObject KeepFlags bIsRerun t j m = Inr m'"
    and "t < length (ObjectsToSerializeArrays m)"
  shows "mark_frame j m m'"
  using assms
  unfolding MarkObject_def Let_def
  by (auto split: option.splits if_splits
      intro!: mark_frame_trans [OF _ frame_Local_Add] mark_frame_trans [OF _ frame_KeepClusterRefs_Push]
        mark_frame_trans [OF _ frame_ClustersToDissolve_Push] mark_frame_trans [OF _ frame_Mark_upd_item]
        frame_count mark_frame_refl)


lemma in_Local_Add:
  "t < length (ObjectsToSerializeArrays m) \<Longrightarrow>
     Some Obj \<in> set (concat (ObjectsToSerializeArrays (Local_Add t Obj m)))"
  by (simp add: Local_Add_def set_concat_update del: set_concat)

lemma in_KeepPush [simp]:
  "MarkItems (KeepClusterRefs_Push k m) = MarkItems m"
  "ClustersToDissolveList (KeepClusterRefs_Push k m) = ClustersToDissolveList m"
  by (simp_all add: KeepClusterRefs_Push_def)

lemma in_Local [simp]:
  "MarkItems (Local_Add t Obj m) = MarkItems m"
  "ClustersToDissolveList (Local_Add t Obj m) = ClustersToDissolveList m"
  by (simp_all add: Local_Add_def)

lemma in_Dissolve [simp]:
  "MarkItems (ClustersToDissolve_Push k m) = MarkItems m"
  "ClustersToDissolveList (ClustersToDissolve_Push k m) = ClustersToDissolveList m @ [k]"
  by (simp_all add: ClustersToDissolve_Push_def)

lemma in_upd [simp]:
  "MarkItems (Mark_upd_item k f m) = (MarkItems m)[k := f (MarkItems m ! k)]"
  "ClustersToDissolveList (Mark_upd_item k f m) = ClustersToDissolveList m"
  by (simp_all add: Mark_upd_item_def)

lemma MarkObject_effect:
  assumes "MarkObject KeepFlags bIsRerun t j m = Inr m'"
    and "t < length (ObjectsToSerializeArrays m)"
    and "j < length (MarkItems m)"
    and "j \<notin> set (ClustersToDissolveList m)"
  shows "mark_effect KeepFlags (MarkItems m ! j) m' j"
proof (cases "Object (MarkItems m ! j)")
  case None
  then show ?thesis by (simp add: mark_effect_def)
next
  case (Some Obj)
  show ?thesis
  proof (cases "IsRootSet (MarkItems m ! j) \<or> OwnerIndex (MarkItems m ! j) > 0")
    case True
    then show ?thesis using Some by (simp add: mark_effect_def)
  next
    case False
    show ?thesis
    proof (cases "keeps_object KeepFlags (MarkItems m ! j)")
      case True
      with assms Some False show ?thesis
        unfolding MarkObject_def Let_def mark_effect_def
        by (auto simp: keeps_object_def in_Local_Add ClearFlags_def simp del: set_concat
            split: if_splits)
    next
      case False
      with assms Some \<open>\<not> (IsRootSet (MarkItems m ! j) \<or> OwnerIndex (MarkItems m ! j) > 0)\<close>
      show ?thesis
        unfolding MarkObject_def Let_def mark_effect_def
        by (auto simp: keeps_object_def ClearFlags_def SetFlags_def simp del: set_concat
            split: if_splits)
    qed
  qed
qed

lemma mark_effect_frame:
  assumes "mark_effect KeepFlags Item m i" and "mark_frame j m m'" and "i \<noteq> j"
  shows "mark_effect KeepFlags Item m' i"
proof -
  from assms(2,3) have a: "MarkItems m' ! i = MarkItems m ! i"
    and b: "i \<in> set (ClustersToDissolveList m') \<longleftrightarrow> i \<in> set (ClustersToDissolveList m)"
    and c: "set (concat (ObjectsToSerializeArrays m)) \<subseteq> set (concat (ObjectsToSerializeArrays m'))"
    unfolding mark_frame_def by (auto simp del: set_concat)
  show ?thesis
    using assms(1) c unfolding mark_effect_def a b
    by (auto simp del: set_concat split: option.splits if_splits)
qed

lemma mark_inv_step:
  assumes "mark_inv KeepFlags S m0 m" and "j \<notin> S"
    and "MarkObject KeepFlags bIsRerun t j m = Inr m'"
    and "t < length (ObjectsToSerializeArrays m)"
    and "j < length (MarkItems m)"
  shows "mark_inv KeepFlags (insert j S) m0 m'"
proof -
  have fr: "mark_frame j m m'" using assms(3,4) by (rule MarkObject_frame)
  have j0: "MarkItems m ! j = MarkItems m0 ! j" "j \<notin> set (ClustersToDissolveList m)"
    using assms(1,2) unfolding mark_inv_def by auto
  have ej: "mark_effect KeepFlags (MarkItems m0 ! j) m' j"
    using MarkObject_effect [OF assms(3,4,5) j0(2)] j0(1) by simp
  have eS: "mark_effect KeepFlags (MarkItems m0 ! i) m' i" if "i \<in> S" for i
  proof -
    from that assms(2) have "i \<noteq> j" by auto
    moreover from that assms(1) have "mark_effect KeepFlags (MarkItems m0 ! i) m i"
      unfolding mark_inv_def by auto
    ultimately show ?thesis using fr by (auto intro: mark_effect_frame)
  qed
  have rest: "MarkItems m' ! i = MarkItems m0 ! i \<and> i \<notin> set (ClustersToDissolveList m')"
    if "i \<notin> insert j S" for i
    using that fr assms(1) unfolding mark_frame_def mark_inv_def by (auto simp del: set_concat)
  show ?thesis
    unfolding mark_inv_def
    using fr assms(1) ej eS rest
    by (auto simp: mark_frame_def mark_inv_def simp del: set_concat)
qed

lemma MarkStripe_loop_inv:
  assumes "mark_inv KeepFlags S m0 m" and "distinct js" and "set js \<inter> S = {}"
    and "MarkStripe_loop KeepFlags bIsRerun t js m = Inr m'"
    and "t < length (ObjectsToSerializeArrays m0)"
    and "\<forall>j\<in>set js. j < length (MarkItems m0)"
  shows "mark_inv KeepFlags (S \<union> set js) m0 m'"
  using assms
proof (induction js arbitrary: S m)
  case Nil
  then show ?case by simp
next
  case (Cons j js)
  from Cons.prems(4) obtain m1 where
    m1: "MarkObject KeepFlags bIsRerun t j m = Inr m1"
        "MarkStripe_loop KeepFlags bIsRerun t js m1 = Inr m'"
    by (auto split: sum.splits)
  have len: "length (MarkItems m) = length (MarkItems m0)"
      "length (ObjectsToSerializeArrays m) = length (ObjectsToSerializeArrays m0)"
    using Cons.prems(1) unfolding mark_inv_def by auto
  have "mark_inv KeepFlags (insert j S) m0 m1"
    using Cons.prems(1) _ m1(1)
  proof (rule mark_inv_step)
    show "j \<notin> S" using Cons.prems(3) by auto
    show "t < length (ObjectsToSerializeArrays m)" using Cons.prems(5) len by simp
    show "j < length (MarkItems m)" using Cons.prems(6) len by simp
  qed
  then have "mark_inv KeepFlags (insert j S \<union> set js) m0 m'"
    using Cons.prems(2,3,5,6) m1(2) by (intro Cons.IH) auto
  then show ?case by simp
qed


lemma MarkTasks_inv:
  assumes "mark_inv KeepFlags S m0 m"
    and "distinct (concat (map (\<lambda>t. stripe_indices (int (length (MarkItems m0))) F T (int t)) ts))"
    and "set (concat (map (\<lambda>t. stripe_indices (int (length (MarkItems m0))) F T (int t)) ts)) \<inter> S = {}"
    and "MarkTasks KeepFlags bIsRerun F T ts m = Inr m'"
    and "\<forall>t\<in>set ts. t < length (ObjectsToSerializeArrays m0)"
    and "\<forall>j\<in>set (concat (map (\<lambda>t. stripe_indices (int (length (MarkItems m0))) F T (int t)) ts)).
            j < length (MarkItems m0)"
  shows "mark_inv KeepFlags
           (S \<union> set (concat (map (\<lambda>t. stripe_indices (int (length (MarkItems m0))) F T (int t)) ts)))
           m0 m'"
  using assms
proof (induction ts arbitrary: S m)
  case Nil
  then show ?case by simp
next
  case (Cons t ts)
  let ?st = "\<lambda>t. stripe_indices (int (length (MarkItems m0))) F T (int t)"
  have len: "length (MarkItems m) = length (MarkItems m0)"
    using Cons.prems(1) unfolding mark_inv_def by auto
  from Cons.prems(4) len obtain m1 where
    m1: "MarkStripe_loop KeepFlags bIsRerun t (?st t) m = Inr m1"
        "MarkTasks KeepFlags bIsRerun F T ts m1 = Inr m'"
    by (auto split: sum.splits)
  have "mark_inv KeepFlags (S \<union> set (?st t)) m0 m1"
    using Cons.prems(1) _ _ m1(1)
  proof (rule MarkStripe_loop_inv)
    show "distinct (?st t)" using Cons.prems(2) by simp
    show "set (?st t) \<inter> S = {}" using Cons.prems(3) by auto
    show "t < length (ObjectsToSerializeArrays m0)" using Cons.prems(5) by simp
    show "\<forall>j\<in>set (?st t). j < length (MarkItems m0)" using Cons.prems(6) by simp
  qed
  then have "mark_inv KeepFlags ((S \<union> set (?st t)) \<union> set (concat (map ?st ts))) m0 m'"
    using Cons.prems(2,3,5,6) m1(2) by (intro Cons.IH) auto
  then show ?case by (simp add: Un_assoc)
qed

lemma mset_concat_map_cong:
  assumes "mset xs = mset ys"
  shows "mset (concat (map f xs)) = mset (concat (map f ys))"
proof -
  have "mset (concat (map f zs)) = (\<Sum>x\<in>#mset zs. mset (f x))" for zs
    by (induction zs) simp_all
  then show ?thesis using assms by simp
qed

lemma schedule_indices:
  assumes "mset Schedule = mset [0..<nat T]" and "1 \<le> T" and "0 \<le> F" and "F \<le> N"
  shows "mset (concat (map (\<lambda>t. stripe_indices N F T (int t)) Schedule)) = mset (map nat [F .. N - 1])"
  unfolding mset_concat_map_cong [OF assms(1)] stripes_cover [OF assms(2,3,4)] ..

lemma distinct_nat_upto: "0 \<le> F \<Longrightarrow> distinct (map nat [F .. L])"
  by (auto simp: distinct_map inj_on_def)

text \<open>
  C2 (as the code has it). After the parallel pass of the mark phase, run as any order of
  its tasks, for every non-null item in the collected range that is neither in the root
  set nor a cluster member: if it has \<open>GarbageCollectionKeepFlags\<close>, or it is not pending
  kill and the caller's \<open>KeepFlags\<close> are non-empty and the object has one of them, the
  object is in the initial reachable set and the pass has not set its \<open>Unreachable\<close>
  flag (its flags are the old ones without \<open>ReachableInCluster\<close>); otherwise its
  \<open>Unreachable\<close> flag is set, and it is on the clusters-to-dissolve list exactly when it
  is a cluster root carrying \<open>PendingKill\<close> or \<open>Garbage\<close>.
\<close>

theorem C2_mark_pass_classifies:
  assumes "MarkObjectsAsUnreachable_pass KeepFlags bIsRerun FirstGCIndex NumWorkerThreads Schedule
             Items Initial = Inr m'"
    and "mset Schedule = mset [0..<nat (max 1 NumWorkerThreads)]"
    and "FirstGCIndex \<le> i" and "i < length Items"
    and "Object (Items ! i) = Some Obj"
    and "\<not> IsRootSet (Items ! i)" and "\<not> 0 < OwnerIndex (Items ! i)"
  shows "if HasAnyFlags {GarbageCollectionKeepFlags} (Items ! i)
            \<or> (\<not> IsPendingKill (Items ! i) \<and> KeepFlags \<noteq> RF_NoFlags
                \<and> Object_HasAnyFlags KeepFlags (Items ! i))
         then Some Obj \<in> set (InitialObjects m')
              \<and> Flags (MarkItems m' ! i) = Flags (Items ! i) - {ReachableInCluster}
         else Flags (MarkItems m' ! i) = insert Unreachable (Flags (Items ! i) - {ReachableInCluster})
              \<and> (i \<in> set (ClustersToDissolveList m')
                   \<longleftrightarrow> HasAnyFlags {PendingKill, Garbage} (Items ! i)
                       \<and> HasAnyFlags {ClusterRoot} (Items ! i))"
proof -
  define T where "T = max 1 NumWorkerThreads"
  define F where "F = int FirstGCIndex"
  define m0 where "m0 = \<lparr>MarkItems = Items, ObjectsToSerializeArrays = replicate (nat T) [],
              ClustersToDissolveList = [], KeepClusterRefsList = [],
              ObjectCountDuringMarkPhase = 0, InitialObjects = Initial\<rparr>"
  let ?st = "\<lambda>t. stripe_indices (int (length (MarkItems m0))) F T (int t)"
  from assms(1) obtain m where
    m: "MarkTasks KeepFlags bIsRerun F T Schedule m0 = Inr m"
    and m': "m' = m\<lparr>InitialObjects := InitialObjects m @ concat (ObjectsToSerializeArrays m),
                       ObjectsToSerializeArrays := []\<rparr>"
    unfolding MarkObjectsAsUnreachable_pass_def Let_def T_def F_def m0_def
    by (auto split: sum.splits)
  have T1: "1 \<le> T" unfolding T_def by simp
  have F0: "0 \<le> F" "F \<le> int (length (MarkItems m0))"
    using assms(3,4) unfolding F_def m0_def by simp_all
  have ms: "mset (concat (map ?st Schedule)) = mset (map nat [F .. int (length (MarkItems m0)) - 1])"
    using assms(2) T1 F0 unfolding T_def [symmetric] by (rule schedule_indices)
  have dist: "distinct (concat (map ?st Schedule))"
    using mset_eq_imp_distinct_iff [OF ms] distinct_nat_upto [OF F0(1)] by simp
  have sets: "set (concat (map ?st Schedule)) = set (map nat [F .. int (length (MarkItems m0)) - 1])"
    using ms by (rule mset_eq_setD)
  have inv0: "mark_inv KeepFlags {} m0 m0"
    by (simp add: mark_inv_def m0_def)
  have thr: "\<forall>t\<in>set Schedule. t < length (ObjectsToSerializeArrays m0)"
  proof
    fix t assume "t \<in> set Schedule"
    then have "t \<in> set [0..<nat T]" using assms(2) mset_eq_setD unfolding T_def by blast
    then show "t < length (ObjectsToSerializeArrays m0)" by (simp add: m0_def)
  qed
  have bnd: "\<forall>j\<in>set (concat (map ?st Schedule)). j < length (MarkItems m0)"
    unfolding sets using F0 by auto
  have "mark_inv KeepFlags ({} \<union> set (concat (map ?st Schedule))) m0 m"
    using inv0 dist _ m thr bnd by (rule MarkTasks_inv) simp
  moreover have "i \<in> set (concat (map ?st Schedule))"
    unfolding sets using assms(3,4) by (auto simp: F_def m0_def image_iff intro!: bexI [of _ "int i"])
  ultimately have "mark_effect KeepFlags (MarkItems m0 ! i) m i"
    unfolding mark_inv_def by auto
  then show ?thesis
    using assms(5,6,7) unfolding mark_effect_def keeps_object_def m' m0_def
    by (auto simp del: set_concat split: if_splits)
qed


lemma replicate_two: "replicate 2 x = [x, x]"
  by (simp add: numeral_2_eq_2)

lemmas mark_eval =
  MarkObjectsAsUnreachable_pass_def stripe_indices_def stripe_bounds_def MarkObject_def
  Local_Add_def KeepClusterRefs_Push_def ClustersToDissolve_Push_def Mark_upd_item_def
  HasAnyFlags_def SetFlags_def ClearFlags_def IsRootSet_def IsPendingKill_def
  Object_HasAnyFlags_def RF_NoFlags_def mark_items_def Let_def

lemma mark_items_pass:
  "MarkObjectsAsUnreachable_pass 4 False 0 2 [1, 0] mark_items [] = Inr mark_result"
  by (simp add: mark_eval upto.simps replicate_two mark_result_def)

lemma mark_schedule: "mset [1, 0] = mset [0..<nat (max 1 2)]"
  by (simp add: numeral_2_eq_2)

theorem C2_mark_pass_classifies_witness:
  "MarkObjectsAsUnreachable_pass 4 False 0 2 [1, 0] mark_items [] = Inr mark_result
   \<and> mset [1, 0] = mset [0..<nat (max 1 2)]
   \<and> Object (mark_items ! 1) = Some 1 \<and> \<not> IsRootSet (mark_items ! 1)
   \<and> \<not> 0 < OwnerIndex (mark_items ! 1)
   \<and> Flags (MarkItems mark_result ! 1) = {Unreachable, ClusterRoot, Garbage}
   \<and> 1 \<in> set (ClustersToDissolveList mark_result)
   \<and> Object (mark_items ! 3) = Some 3 \<and> \<not> IsRootSet (mark_items ! 3)
   \<and> \<not> 0 < OwnerIndex (mark_items ! 3)
   \<and> Some 3 \<in> set (InitialObjects mark_result)
   \<and> Flags (MarkItems mark_result ! 3) = {}"
proof -
  have i1: "(0::nat) \<le> 1" "1 < length mark_items" "Object (mark_items ! 1) = Some 1"
      "\<not> IsRootSet (mark_items ! 1)" "\<not> 0 < OwnerIndex (mark_items ! 1)"
    by (simp_all add: mark_items_def IsRootSet_def)
  have i3: "(0::nat) \<le> 3" "3 < length mark_items" "Object (mark_items ! 3) = Some 3"
      "\<not> IsRootSet (mark_items ! 3)" "\<not> 0 < OwnerIndex (mark_items ! 3)"
    by (simp_all add: mark_items_def IsRootSet_def)
  from C2_mark_pass_classifies [OF mark_items_pass mark_schedule i1]
  have "Flags (MarkItems mark_result ! 1) = {Unreachable, ClusterRoot, Garbage}
        \<and> 1 \<in> set (ClustersToDissolveList mark_result)"
    by (simp add: mark_items_def HasAnyFlags_def IsPendingKill_def Object_HasAnyFlags_def
        insert_commute)
  moreover from C2_mark_pass_classifies [OF mark_items_pass mark_schedule i3]
  have "Some 3 \<in> set (InitialObjects mark_result) \<and> Flags (MarkItems mark_result ! 3) = {}"
    by (simp add: mark_items_def HasAnyFlags_def IsPendingKill_def Object_HasAnyFlags_def
        RF_NoFlags_def)
  ultimately show ?thesis
    using mark_items_pass mark_schedule i1 i3 by simp
qed

text \<open>
  C2 as stated fails for an object that is pending kill: object 4 has one of the
  non-empty \<open>KeepFlags\<close>, is not in the root set and is no cluster member, yet the pass
  sets its \<open>Unreachable\<close> flag and does not add it to the initial reachable set.
\<close>

theorem C2_keep_flags_counterexample:
  "MarkObjectsAsUnreachable_pass 4 False 0 2 [1, 0] mark_items [] = Inr mark_result
   \<and> Object (mark_items ! 4) = Some 4 \<and> \<not> IsRootSet (mark_items ! 4)
   \<and> \<not> 0 < OwnerIndex (mark_items ! 4)
   \<and> (4 :: EObjectFlags) \<noteq> RF_NoFlags \<and> Object_HasAnyFlags 4 (mark_items ! 4)
   \<and> Unreachable \<in> Flags (MarkItems mark_result ! 4)
   \<and> Some 4 \<notin> set (InitialObjects mark_result)"
  using mark_items_pass
  by (simp add: mark_items_def mark_result_def IsRootSet_def RF_NoFlags_def Object_HasAnyFlags_def)

subsection \<open>Gathering the unreachable objects\<close>

lemma GatherStripe_loop_eq:
  "GatherStripe_loop Items js (us, cs)
     = (us @ filter (\<lambda>j. IsUnreachable (Items ! j)) js,
        cs @ filter (\<lambda>j. IsUnreachable (Items ! j) \<and> HasAnyFlags {ClusterRoot} (Items ! j)) js)"
  by (induction js arbitrary: us cs) (simp_all add: Let_def)

lemma filter_conj_Nil: "filter P xs = [] \<Longrightarrow> filter (\<lambda>x. P x \<and> Q x) xs = []"
  by (induction xs) (auto split: if_splits)

lemma GatherTasks_eq:
  "GatherTasks Items F T ts (us, cs)
     = (us @ filter (\<lambda>j. IsUnreachable (Items ! j))
               (concat (map (\<lambda>t. stripe_indices (int (length Items)) F T (int t)) ts)),
        cs @ filter (\<lambda>j. IsUnreachable (Items ! j) \<and> HasAnyFlags {ClusterRoot} (Items ! j))
               (concat (map (\<lambda>t. stripe_indices (int (length Items)) F T (int t)) ts)))"
proof (induction ts arbitrary: us cs)
  case Nil
  then show ?case by simp
next
  case (Cons t ts)
  show ?case
    by (simp add: GatherStripe_loop_eq Cons.IH filter_conj_Nil)
qed

lemma length_gathered_items [simp]: "length (gathered_items R M Items) = length Items"
  by (simp add: gathered_items_def)

lemma nth_gathered_items:
  "k < length Items \<Longrightarrow>
     gathered_items R M Items ! k
       = (if k \<in> M then SetFlags {Unreachable} (SetOwnerIndex 0 (Items ! k))
          else if k \<in> R then ClearFlags {ClusterRoot} (Items ! k)
          else Items ! k)"
  by (simp add: gathered_items_def)

lemma gathered_items_compose:
  assumes "(M1 \<union> M2) \<inter> (R1 \<union> R2) = {}"
  shows "gathered_items R1 M1 (gathered_items R2 M2 Items) = gathered_items (R1 \<union> R2) (M1 \<union> M2) Items"
proof (rule nth_equalityI)
  show "length (gathered_items R1 M1 (gathered_items R2 M2 Items))
          = length (gathered_items (R1 \<union> R2) (M1 \<union> M2) Items)" by simp
next
  fix k assume "k < length (gathered_items R1 M1 (gathered_items R2 M2 Items))"
  then have k: "k < length Items" by simp
  from assms have d: "k \<in> M1 \<Longrightarrow> k \<notin> R2" "k \<in> M2 \<Longrightarrow> k \<notin> R1" by auto
  show "gathered_items R1 M1 (gathered_items R2 M2 Items) ! k
          = gathered_items (R1 \<union> R2) (M1 \<union> M2) Items ! k"
    using k d
    by (auto simp: nth_gathered_items SetFlags_def SetOwnerIndex_def ClearFlags_def)
qed

lemma upd_item_member:
  assumes "valid_index j (ObjectItems h)"
  shows "upd_item j (SetFlags {Unreachable}) (upd_item j (SetOwnerIndex 0) h)
           = h\<lparr>ObjectItems := gathered_items {} {nat j} (ObjectItems h)\<rparr>"
proof -
  have "(ObjectItems h)[nat j := SetFlags {Unreachable} (SetOwnerIndex 0 (ObjectItems h ! nat j))]
          = gathered_items {} {nat j} (ObjectItems h)"
    using assms
    by (intro nth_equalityI) (auto simp: nth_gathered_items nth_list_update valid_index_def)
  then show ?thesis
    using assms by (simp add: upd_item_def valid_index_def)
qed

lemma upd_item_root:
  assumes "r < length (ObjectItems h)"
  shows "upd_item (int r) (ClearFlags {ClusterRoot}) h
           = h\<lparr>ObjectItems := gathered_items {r} {} (ObjectItems h)\<rparr>"
proof -
  have "(ObjectItems h)[r := ClearFlags {ClusterRoot} (ObjectItems h ! r)]
          = gathered_items {r} {} (ObjectItems h)"
    using assms
    by (intro nth_equalityI) (auto simp: nth_gathered_items nth_list_update)
  then show ?thesis
    by (simp add: upd_item_def)
qed

lemma DestroyClusterObjects_loop_eq:
  assumes "\<forall>j\<in>set js. valid_index j (ObjectItems h)
              \<and> \<not> HasAnyFlags {ReachableInCluster} (ObjectItems h ! nat j)"
  shows "DestroyClusterObjects_loop js (U, h)
           = Inr (U @ map nat js, h\<lparr>ObjectItems := gathered_items {} (nat ` set js) (ObjectItems h)\<rparr>)"
  using assms
proof (induction js arbitrary: U h)
  case Nil
  have "gathered_items {} {} (ObjectItems h) = ObjectItems h"
    by (intro nth_equalityI) (simp_all add: nth_gathered_items)
  then show ?case by simp
next
  case (Cons j js)
  from Cons.prems have v: "valid_index j (ObjectItems h)"
    and nr: "\<not> HasAnyFlags {ReachableInCluster} (ObjectItems h ! nat j)" by simp_all
  define h2 where "h2 = h\<lparr>ObjectItems := gathered_items {} {nat j} (ObjectItems h)\<rparr>"
  have nr1: "\<not> HasAnyFlags {ReachableInCluster}
               (ObjectItems (upd_item j (SetOwnerIndex 0) h) ! nat j)"
    using v nr by (simp add: upd_item_def valid_index_def HasAnyFlags_def SetOwnerIndex_def)
  have step: "DestroyClusterObjects_loop (j # js) (U, h)
                = DestroyClusterObjects_loop js (U @ [nat j], h2)"
    using v nr1 unfolding h2_def upd_item_member [OF v, symmetric]
    by (simp add: Let_def)
  have pre: "\<forall>k\<in>set js. valid_index k (ObjectItems h2)
              \<and> \<not> HasAnyFlags {ReachableInCluster} (ObjectItems h2 ! nat k)"
    using Cons.prems
    by (auto simp: h2_def valid_index_def nth_gathered_items HasAnyFlags_def SetFlags_def
        SetOwnerIndex_def)
  have items: "gathered_items {} (nat ` set js) (ObjectItems h2)
                 = gathered_items {} (nat ` set (j # js)) (ObjectItems h)"
    unfolding h2_def using gathered_items_compose [of "nat ` set js" "{nat j}" "{}" "{}" "ObjectItems h"]
    by (simp add: Un_commute)
  show ?case
    unfolding step Cons.IH [OF pre] items by (simp add: h2_def)
qed

lemma gathered_items_none: "gathered_items {} {} Items = Items"
  by (intro nth_equalityI) (simp_all add: nth_gathered_items)

lemma clusters_ready_root:
  assumes "clusters_ready rs h" and "r \<in> set rs"
  shows "r < length (ObjectItems h)" and "OwnerIndex (ObjectItems h ! r) < 0"
    and "valid_index (ClusterIndex (ObjectItems h ! r)) (Clusters h)"
  using assms by (auto simp: clusters_ready_def valid_index_def ClusterIndex_def)

lemma clusters_ready_member:
  assumes "clusters_ready rs h" and "r \<in> set rs" and "m \<in> set (cluster_members h r)"
  shows "m < length (ObjectItems h)" and "0 \<le> OwnerIndex (ObjectItems h ! m)"
    and "\<not> HasAnyFlags {ReachableInCluster} (ObjectItems h ! m)"
  using assms by (auto simp: clusters_ready_def cluster_members_def valid_index_def)

lemma clusters_ready_disjoint:
  assumes "clusters_ready rs h"
  shows "(\<Union>r\<in>set rs. set (cluster_members h r)) \<inter> set rs = {}"
proof -
  have False if "r \<in> set rs" "m \<in> set (cluster_members h r)" "m \<in> set rs" for r m
    using clusters_ready_member(2) [OF assms that(1,2)] clusters_ready_root(2) [OF assms that(3)]
    by simp
  then show ?thesis by blast
qed

lemma DestroyClusters_loop_eq:
  assumes "clusters_ready rs h"
  shows "DestroyClusters_loop rs (U, h)
           = Inr (U @ concat (map (cluster_members h) rs),
                  h\<lparr>ObjectItems := gathered_items (set rs) (\<Union>r\<in>set rs. set (cluster_members h r))
                                      (ObjectItems h),
                    FreedClusters := FreedClusters h
                                      @ map (\<lambda>r. ClusterIndex (ObjectItems h ! r)) rs\<rparr>)"
  using assms
proof (induction rs arbitrary: U h)
  case Nil
  then show ?case by (simp add: gathered_items_none)
next
  case (Cons r rs)
  note ready = Cons.prems
  define c where "c = ClusterIndex (ObjectItems h ! r)"
  define js where "js = Objects (Clusters h ! nat c)"
  define Mr where "Mr = set (cluster_members h r)"
  define Mrs where "Mrs = (\<Union>r'\<in>set rs. set (cluster_members h r'))"
  have Mr: "Mr = nat ` set js" by (simp add: Mr_def cluster_members_def js_def c_def)
  have rlen: "r < length (ObjectItems h)" and vc: "valid_index c (Clusters h)"
    using clusters_ready_root [OF ready, of r] by (simp_all add: c_def)
  have disj: "(Mr \<union> Mrs) \<inter> (insert r (set rs)) = {}"
    using clusters_ready_disjoint [OF ready] by (auto simp: Mr_def Mrs_def)
  define h1 where "h1 = h\<lparr>ObjectItems := gathered_items {r} {} (ObjectItems h)\<rparr>"
  have u1: "upd_item (int r) (ClearFlags {ClusterRoot}) h = h1"
    unfolding h1_def by (rule upd_item_root [OF rlen])
  have c1: "ClusterIndex (ObjectItems h1 ! r) = c"
    using rlen by (simp add: h1_def nth_gathered_items c_def ClusterIndex_def ClearFlags_def)
  have pre1: "\<forall>j\<in>set js. valid_index j (ObjectItems h1)
              \<and> \<not> HasAnyFlags {ReachableInCluster} (ObjectItems h1 ! nat j)"
  proof
    fix j assume j: "j \<in> set js"
    then have m: "nat j \<in> set (cluster_members h r)" using Mr by (simp add: Mr_def)
    have v: "valid_index j (ObjectItems h)"
      using ready j by (auto simp: clusters_ready_def js_def c_def)
    have "nat j \<noteq> r" using disj m by (auto simp: Mr_def)
    with v clusters_ready_member(3) [OF ready _ m]
    show "valid_index j (ObjectItems h1)
              \<and> \<not> HasAnyFlags {ReachableInCluster} (ObjectItems h1 ! nat j)"
      by (simp add: h1_def valid_index_def nth_gathered_items)
  qed
  define h3 where "h3 = h\<lparr>ObjectItems := gathered_items {r} Mr (ObjectItems h),
                           FreedClusters := FreedClusters h @ [c]\<rparr>"
  have i1: "gathered_items {} Mr (ObjectItems h1) = gathered_items {r} Mr (ObjectItems h)"
    unfolding h1_def using disj gathered_items_compose [of Mr "{}" "{}" "{r}" "ObjectItems h"]
    by auto
  have cl1: "Clusters h1 = Clusters h" by (simp add: h1_def)
  have inner: "DestroyClusterObjects_loop (Objects (Clusters h ! nat c)) (U, h1)
                 = Inr (U @ map nat js, h1\<lparr>ObjectItems := gathered_items {r} Mr (ObjectItems h)\<rparr>)"
    unfolding js_def [symmetric] DestroyClusterObjects_loop_eq [OF pre1] Mr [symmetric] i1 ..
  have f3: "FreeCluster c (h1\<lparr>ObjectItems := gathered_items {r} Mr (ObjectItems h)\<rparr>) = h3"
    by (simp add: FreeCluster_def h3_def h1_def)
  have step: "DestroyClusters_loop (r # rs) (U, h) = DestroyClusters_loop rs (U @ map nat js, h3)"
    unfolding DestroyClusters_loop.simps Let_def u1 c1
    using vc by (simp add: cl1 inner f3)
  have keep: "ClusterIndex (ObjectItems h3 ! r') = ClusterIndex (ObjectItems h ! r')"
    if "r' \<in> set rs" for r'
  proof -
    have "r' \<notin> Mr" using disj that by auto
    moreover have "r' < length (ObjectItems h)"
      using clusters_ready_root(1) [OF ready, of r'] that by simp
    ultimately show ?thesis
      by (simp add: h3_def nth_gathered_items ClusterIndex_def ClearFlags_def)
  qed
  have mem3: "cluster_members h3 r' = cluster_members h r'" if "r' \<in> set rs" for r'
    using keep [OF that] by (simp add: cluster_members_def h3_def)
  have ready3: "clusters_ready rs h3"
    unfolding clusters_ready_def
  proof (intro ballI conjI)
    fix r' assume r': "r' \<in> set rs"
    then have in': "r' \<in> set (r # rs)" by simp
    show "r' < length (ObjectItems h3)"
      using clusters_ready_root(1) [OF ready in'] by (simp add: h3_def)
    show "valid_index (ClusterIndex (ObjectItems h3 ! r')) (Clusters h3)"
      using clusters_ready_root(3) [OF ready in'] keep [OF r'] by (simp add: h3_def)
    fix j assume "j \<in> set (Objects (Clusters h3 ! nat (ClusterIndex (ObjectItems h3 ! r'))))"
    then have j: "j \<in> set (Objects (Clusters h ! nat (ClusterIndex (ObjectItems h ! r'))))"
      using keep [OF r'] by (simp add: h3_def)
    then have m: "nat j \<in> set (cluster_members h r')" by (simp add: cluster_members_def)
    have v: "valid_index j (ObjectItems h)"
      using ready in' j by (auto simp: clusters_ready_def)
    then show "valid_index j (ObjectItems h3)" by (simp add: h3_def valid_index_def)
    have "nat j \<noteq> r" using disj m r' by (auto simp: Mrs_def)
    with v clusters_ready_member(2,3) [OF ready in' m]
    show "0 \<le> OwnerIndex (ObjectItems h3 ! nat j)"
      and "\<not> HasAnyFlags {ReachableInCluster} (ObjectItems h3 ! nat j)"
      by (simp_all add: h3_def valid_index_def nth_gathered_items SetFlags_def SetOwnerIndex_def
          HasAnyFlags_def)
  qed
  have M3: "(\<Union>r'\<in>set rs. set (cluster_members h3 r')) = Mrs"
    using mem3 by (simp add: Mrs_def)
  have i3: "gathered_items (set rs) Mrs (ObjectItems h3)
              = gathered_items (set (r # rs)) (\<Union>r'\<in>set (r # rs). set (cluster_members h r'))
                  (ObjectItems h)"
  proof -
    have "gathered_items (set rs) Mrs (gathered_items {r} Mr (ObjectItems h))
            = gathered_items (set rs \<union> {r}) (Mrs \<union> Mr) (ObjectItems h)"
      using disj by (intro gathered_items_compose) auto
    moreover have "set rs \<union> {r} = set (r # rs)" by auto
    moreover have "Mrs \<union> Mr = (\<Union>r'\<in>set (r # rs). set (cluster_members h r'))"
      by (auto simp: Mr_def Mrs_def)
    ultimately show ?thesis by (simp add: h3_def)
  qed
  have lists: "map nat js = cluster_members h r"
      "map (cluster_members h3) rs = map (cluster_members h) rs"
      "map (\<lambda>r. ClusterIndex (ObjectItems h3 ! r)) rs = map (\<lambda>r. ClusterIndex (ObjectItems h ! r)) rs"
    using mem3 keep by (simp_all add: cluster_members_def js_def c_def)
  show ?case
    unfolding step Cons.IH [OF ready3] M3 i3 lists
    by (simp add: h3_def c_def)
qed

lemma gc_range_bound: "0 \<le> F \<Longrightarrow> i \<in> set (gc_range F h) \<Longrightarrow> i < length (ObjectItems h)"
  by (auto simp: gc_range_def)

lemma gather_ready_clusters:
  assumes "gather_ready F h" and "0 \<le> F" and "set C = set (dead_roots F h)"
  shows "clusters_ready C h"
  unfolding clusters_ready_def
proof (intro ballI conjI)
  fix r assume "r \<in> set C"
  with assms(3) have r: "r \<in> set (dead_roots F h)" by simp
  then have "r \<in> set (gc_range F h)" by (simp add: dead_roots_def)
  then show "r < length (ObjectItems h)" using assms(2) by (rule gc_range_bound [rotated])
  from assms(1) r show "valid_index (ClusterIndex (ObjectItems h ! r)) (Clusters h)"
    by (auto simp: gather_ready_def list_all_iff)
  fix j assume "j \<in> set (Objects (Clusters h ! nat (ClusterIndex (ObjectItems h ! r))))"
  with assms(1) r have m: "valid_index j (ObjectItems h)
      \<and> 0 < OwnerIndex (ObjectItems h ! nat j)
      \<and> \<not> HasAnyFlags {ReachableInCluster} (ObjectItems h ! nat j)"
    unfolding gather_ready_def list_all_iff by blast
  from m show "valid_index j (ObjectItems h)" by simp
  from m show "0 \<le> OwnerIndex (ObjectItems h ! nat j)" by simp
  from m show "\<not> HasAnyFlags {ReachableInCluster} (ObjectItems h ! nat j)" by simp
qed

text \<open>
  C4. Given the state the reachability analysis leaves (\<open>gather_ready\<close>),
  \<^verbatim>\<open>GatherUnreachableObjects\<close>, run as any order of its tasks, returns, and the list
  \<^verbatim>\<open>GUnreachableObjects\<close> it has built holds, each as often as stated and nothing else:
  every item of the collected range (from \<^verbatim>\<open>GetFirstGCIndex()\<close>, or from 0 during the
  exit purge) whose \<open>Unreachable\<close> flag was set, and every object of the cluster of every
  unreachable cluster root of the range. Every entry of the list is \<open>Unreachable\<close>
  afterwards; for every unreachable cluster root the cluster has been freed and each of
  its objects is in the list and \<open>Unreachable\<close>. The object table is the old one with
  \<open>ClusterRoot\<close> cleared on these roots and with owner index 0 and \<open>Unreachable\<close> on these
  objects, and the clusters handed to \<^verbatim>\<open>FreeCluster\<close> are those of these roots.
\<close>

theorem C4_gather_collects_unreachable:
  assumes "mset Schedule = mset [0..<nat (max 1 NumWorkerThreads)]"
    and "FirstIndex = (if bExitPurge then 0 else int FirstGCIndex)"
    and "FirstIndex \<le> int (length (ObjectItems h))"
    and "gather_ready FirstIndex h"
  shows "\<exists>U h'. GatherUnreachableObjects bExitPurge FirstGCIndex NumWorkerThreads Schedule h = Inr (U, h')
           \<and> mset U = mset (filter (\<lambda>i. IsUnreachable (ObjectItems h ! i)) (gc_range FirstIndex h))
                       + mset (concat (map (cluster_members h) (dead_roots FirstIndex h)))
           \<and> (\<forall>i\<in>set U. IsUnreachable (ObjectItems h' ! i))
           \<and> (\<forall>r\<in>set (dead_roots FirstIndex h).
                 ClusterIndex (ObjectItems h ! r) \<in> set (FreedClusters h')
                 \<and> (\<forall>m\<in>set (cluster_members h r). m \<in> set U \<and> IsUnreachable (ObjectItems h' ! m)))
           \<and> ObjectItems h' = gathered_items (set (dead_roots FirstIndex h))
                                 (\<Union>r\<in>set (dead_roots FirstIndex h). set (cluster_members h r))
                                 (ObjectItems h)
           \<and> mset (FreedClusters h')
               = mset (FreedClusters h)
                 + mset (map (\<lambda>r. ClusterIndex (ObjectItems h ! r)) (dead_roots FirstIndex h))"
proof -
  define T where "T = max 1 NumWorkerThreads"
  let ?N = "int (length (ObjectItems h))"
  let ?P = "\<lambda>i. IsUnreachable (ObjectItems h ! i)"
  let ?Q = "\<lambda>i. IsUnreachable (ObjectItems h ! i) \<and> HasAnyFlags {ClusterRoot} (ObjectItems h ! i)"
  define ix where "ix = concat (map (\<lambda>t. stripe_indices ?N FirstIndex T (int t)) Schedule)"
  define G where "G = filter ?P ix"
  define C where "C = filter ?Q ix"
  define R where "R = dead_roots FirstIndex h"
  define M where "M = (\<Union>r\<in>set R. set (cluster_members h r))"
  have T1: "1 \<le> T" unfolding T_def by simp
  have F0: "0 \<le> FirstIndex" using assms(2) by simp
  have ixm: "mset ix = mset (gc_range FirstIndex h)"
    unfolding ix_def gc_range_def
    using assms(1) T1 F0 assms(3) unfolding T_def [symmetric] by (rule schedule_indices)
  have Gm: "mset G = mset (filter ?P (gc_range FirstIndex h))"
    unfolding G_def mset_filter ixm ..
  have Cm: "mset C = mset R"
    unfolding C_def R_def dead_roots_def mset_filter ixm ..
  then have Cs: "set C = set R" by (rule mset_eq_setD)
  have tasks: "GatherTasks (ObjectItems h) FirstIndex T Schedule ([], []) = (G, C)"
    unfolding GatherTasks_eq G_def C_def ix_def by simp
  have ready: "clusters_ready C h"
    using assms(4) F0 Cs unfolding R_def by (rule gather_ready_clusters)
  define U where "U = G @ concat (map (cluster_members h) C)"
  define h' where "h' = h\<lparr>ObjectItems := gathered_items (set C) (\<Union>r\<in>set C. set (cluster_members h r))
                                      (ObjectItems h),
                    FreedClusters := FreedClusters h
                                      @ map (\<lambda>r. ClusterIndex (ObjectItems h ! r)) C\<rparr>"
  have run: "GatherUnreachableObjects bExitPurge FirstGCIndex NumWorkerThreads Schedule h = Inr (U, h')"
    unfolding GatherUnreachableObjects_def Let_def T_def [symmetric] assms(2) [symmetric] tasks
    by (simp add: DestroyClusters_loop_eq [OF ready] U_def h'_def)
  have items: "ObjectItems h' = gathered_items (set R) M (ObjectItems h)"
    by (simp add: h'_def Cs M_def)
  have Um: "mset U = mset (filter ?P (gc_range FirstIndex h))
                       + mset (concat (map (cluster_members h) R))"
    unfolding U_def using Gm mset_concat_map_cong [OF Cm, of "cluster_members h"] by simp
  have Us: "set U = {i \<in> set (gc_range FirstIndex h). ?P i} \<union> M"
    using arg_cong [OF Um, of set_mset] by (auto simp: M_def)
  have mem_len: "m < length (ObjectItems h)" if "m \<in> M" for m
    using that clusters_ready_member(1) [OF ready] Cs by (auto simp: M_def)
  have unreach: "IsUnreachable (ObjectItems h' ! i)" if "i \<in> set U" for i
  proof -
    from that Us have "(i \<in> set (gc_range FirstIndex h) \<and> ?P i) \<or> i \<in> M" by auto
    then show ?thesis
    proof
      assume a: "i \<in> set (gc_range FirstIndex h) \<and> ?P i"
      then have "i < length (ObjectItems h)" using gc_range_bound [OF F0] by blast
      with a show ?thesis
        by (simp add: items nth_gathered_items IsUnreachable_def SetFlags_def ClearFlags_def
            SetOwnerIndex_def)
    next
      assume "i \<in> M"
      with mem_len [OF this] show ?thesis
        by (simp add: items nth_gathered_items IsUnreachable_def SetFlags_def)
    qed
  qed
  have Fm: "mset (FreedClusters h')
               = mset (FreedClusters h) + mset (map (\<lambda>r. ClusterIndex (ObjectItems h ! r)) R)"
    using arg_cong [OF Cm, of "image_mset (\<lambda>r. ClusterIndex (ObjectItems h ! r))"]
    by (simp add: h'_def)
  have roots: "ClusterIndex (ObjectItems h ! r) \<in> set (FreedClusters h')
                 \<and> (\<forall>m\<in>set (cluster_members h r). m \<in> set U \<and> IsUnreachable (ObjectItems h' ! m))"
    if "r \<in> set R" for r
  proof -
    from that Cs have "ClusterIndex (ObjectItems h ! r) \<in> set (FreedClusters h')"
      by (auto simp: h'_def)
    moreover have "m \<in> set U \<and> IsUnreachable (ObjectItems h' ! m)"
      if "m \<in> set (cluster_members h r)" for m
    proof -
      from that \<open>r \<in> set R\<close> have "m \<in> M" by (auto simp: M_def)
      then have "m \<in> set U" using Us by simp
      with unreach show ?thesis by simp
    qed
    ultimately show ?thesis by simp
  qed
  show ?thesis
    using run Um unreach roots items Fm unfolding R_def [symmetric] M_def [symmetric]
    by (intro exI [of _ U] exI [of _ h']) simp
qed

lemma gather_heap_ready: "gather_ready 0 gather_heap"
  by (simp add: gather_ready_def dead_roots_def gc_range_def gather_heap_def upto.simps
      IsUnreachable_def HasAnyFlags_def ClusterIndex_def valid_index_def)

lemmas gather_eval =
  GatherUnreachableObjects_def stripe_indices_def stripe_bounds_def
  HasAnyFlags_def SetFlags_def ClearFlags_def SetOwnerIndex_def ClusterIndex_def
  IsUnreachable_def upd_item_def valid_index_def
  FreeCluster_def gather_heap_def Let_def

lemma gather_heap_result:
  "GatherUnreachableObjects False 0 2 [1, 0] gather_heap = Inr ([4, 1, 2, 3], gather_result)"
  by (auto simp: gather_eval upto.simps gather_result_def)

lemma gather_schedule: "mset [1, 0] = mset [0..<nat (max 1 2)]"
  by (simp add: numeral_2_eq_2)

lemma gather_heap_roots:
  "dead_roots 0 gather_heap = [1]" "cluster_members gather_heap 1 = [2, 3]"
  by (simp_all add: dead_roots_def gc_range_def cluster_members_def gather_heap_def upto.simps
      IsUnreachable_def HasAnyFlags_def ClusterIndex_def)

theorem C4_gather_collects_unreachable_witness:
  "mset [1, 0] = mset [0..<nat (max 1 2)]
   \<and> gather_ready 0 gather_heap
   \<and> GatherUnreachableObjects False 0 2 [1, 0] gather_heap = Inr ([4, 1, 2, 3], gather_result)
   \<and> dead_roots 0 gather_heap = [1] \<and> cluster_members gather_heap 1 = [2, 3]
   \<and> ClusterIndex (ObjectItems gather_heap ! 1) \<in> set (FreedClusters gather_result)
   \<and> IsUnreachable (ObjectItems gather_result ! 2)
   \<and> IsUnreachable (ObjectItems gather_result ! 3)
   \<and> IsUnreachable (ObjectItems gather_result ! 4)"
proof -
  have f: "(0::int) = (if False then 0 else int 0)"
      "(0::int) \<le> int (length (ObjectItems gather_heap))"
    by simp_all
  from C4_gather_collects_unreachable [OF gather_schedule f gather_heap_ready]
  obtain U h' where
    r: "GatherUnreachableObjects False 0 2 [1, 0] gather_heap = Inr (U, h')
        \<and> mset U = mset (filter (\<lambda>i. IsUnreachable (ObjectItems gather_heap ! i))
                            (gc_range 0 gather_heap))
                    + mset (concat (map (cluster_members gather_heap) (dead_roots 0 gather_heap)))
        \<and> (\<forall>i\<in>set U. IsUnreachable (ObjectItems h' ! i))
        \<and> (\<forall>r\<in>set (dead_roots 0 gather_heap).
              ClusterIndex (ObjectItems gather_heap ! r) \<in> set (FreedClusters h')
              \<and> (\<forall>m\<in>set (cluster_members gather_heap r).
                    m \<in> set U \<and> IsUnreachable (ObjectItems h' ! m)))
        \<and> ObjectItems h' = gathered_items (set (dead_roots 0 gather_heap))
                              (\<Union>r\<in>set (dead_roots 0 gather_heap). set (cluster_members gather_heap r))
                              (ObjectItems gather_heap)
        \<and> mset (FreedClusters h')
            = mset (FreedClusters gather_heap)
              + mset (map (\<lambda>r. ClusterIndex (ObjectItems gather_heap ! r)) (dead_roots 0 gather_heap))"
    by (elim exE)
  from r have run: "GatherUnreachableObjects False 0 2 [1, 0] gather_heap = Inr (U, h')"
    by (rule conjunct1)
  with gather_heap_result have eq: "U = [4, 1, 2, 3]" "h' = gather_result" by simp_all
  from r have "\<forall>i\<in>set U. IsUnreachable (ObjectItems h' ! i)" by (elim conjE)
  then have u: "IsUnreachable (ObjectItems gather_result ! 2)"
      "IsUnreachable (ObjectItems gather_result ! 3)"
      "IsUnreachable (ObjectItems gather_result ! 4)"
    unfolding eq by simp_all
  from r have "\<forall>r\<in>set (dead_roots 0 gather_heap).
              ClusterIndex (ObjectItems gather_heap ! r) \<in> set (FreedClusters h')
              \<and> (\<forall>m\<in>set (cluster_members gather_heap r).
                    m \<in> set U \<and> IsUnreachable (ObjectItems h' ! m))"
    by (elim conjE)
  then have fr: "ClusterIndex (ObjectItems gather_heap ! 1) \<in> set (FreedClusters gather_result)"
    unfolding eq gather_heap_roots by simp
  show ?thesis
    using gather_schedule gather_heap_ready gather_heap_result gather_heap_roots u fr by simp
qed

subsection \<open>UnhashUnreachableObjects\<close>

lemma poll_step: "(if c mod 10 = 0 then 1 else 0) + (c + 9) div 10 = (Suc c + 9) div (10::nat)"
proof -
  define k where "k = c div 10"
  define r where "r = c mod 10"
  have c: "c = 10 * k + r" unfolding k_def r_def by simp
  have r: "r < 10" unfolding r_def by simp
  have a: "(Suc c + 9) div 10 = k + 1"
    using r unfolding c by (intro div_nat_eqI) simp_all
  show ?thesis
  proof (cases "r = 0")
    case True
    then have "(c + 9) div 10 = k" unfolding c by simp
    then show ?thesis using a True unfolding r_def by simp
  next
    case False
    then have "(c + 9) div 10 = k + 1"
      using r unfolding c by (intro div_nat_eqI) simp_all
    then show ?thesis using a False unfolding r_def by simp
  qed
qed

lemma polls_between_eq: "polls_between c n + (c + 9) div 10 = (c + n + 9) div 10"
proof (induction n arbitrary: c)
  case 0
  then show ?case by simp
next
  case (Suc n)
  have step: "(if c mod 10 = 0 then 1 else 0) + (c + 9) div 10 = (Suc c + 9) div (10::nat)"
    by (rule poll_step)
  have "polls_between c (Suc n) + (c + 9) div 10
          = polls_between (Suc c) n + ((if c mod 10 = 0 then 1 else 0) + (c + 9) div 10)"
    by simp
  also have "\<dots> = polls_between (Suc c) n + (Suc c + 9) div 10"
    by (simp only: step)
  also have "\<dots> = (Suc c + n + 9) div 10" by (rule Suc.IH)
  finally show ?case by simp
qed

lemma polls_from_zero: "polls_between 0 n = (n + 9) div 10"
  using polls_between_eq [of 0 n] by simp

lemma Unhash_loop_Some:
  "Unhash_loop env bUseTimeLimit c (Some Obj # rest) s =
     (if bUseTimeLimit \<and> c mod 10 = 0 then
        if TimeUp env (ClockPolls s) then Inr ((unhash_step Obj s)\<lparr>ClockPolls := ClockPolls s + 1\<rparr>)
        else Unhash_loop env bUseTimeLimit (Suc c) rest
               ((unhash_step Obj s)\<lparr>ClockPolls := ClockPolls s + 1\<rparr>)
      else Unhash_loop env bUseTimeLimit (Suc c) rest (unhash_step Obj s))"
  by (simp add: unhash_step_def Let_def poll_time_limit_def log_event_def)

lemma unhash_advance_zero: "unhash_advance 0 [] 0 s = s"
  by (simp add: unhash_advance_def)

lemma unhash_advance_step:
  "unhash_advance n objs p (unhash_step Obj s) = unhash_advance (Suc n) (Obj # objs) p s"
  by (simp add: unhash_advance_def unhash_step_def log_event_def)

lemma unhash_advance_step_poll:
  "unhash_advance n objs p ((unhash_step Obj s)\<lparr>ClockPolls := Suc (ClockPolls s)\<rparr>)
     = unhash_advance (Suc n) (Obj # objs) (Suc p) s"
  by (simp add: unhash_advance_def unhash_step_def log_event_def)

lemma unhash_single_poll:
  "(unhash_step Obj s)\<lparr>ClockPolls := Suc (ClockPolls s)\<rparr> = unhash_advance (Suc 0) [Obj] (Suc 0) s"
  by (simp add: unhash_advance_def unhash_step_def log_event_def)

lemma Unhash_loop_effect:
  assumes "Unhash_loop env bUseTimeLimit c rest s = Inr s'"
  shows "\<exists>n\<le>length rest.
           None \<notin> set (take n rest)
           \<and> s' = unhash_advance n (objects_of (take n rest))
                    (if bUseTimeLimit then polls_between c n else 0) s"
  using assms
proof (induction rest arbitrary: c s)
  case Nil
  then show ?case by (simp add: unhash_advance_zero)
next
  case (Cons item rest)
  from Cons.prems obtain Obj where item: "item = Some Obj"
    by (cases item) auto
  show ?case
  proof (cases "bUseTimeLimit \<and> c mod 10 = 0")
    case True
    show ?thesis
    proof (cases "TimeUp env (ClockPolls s)")
      case up: True
      with Cons.prems True have "s' = (unhash_step Obj s)\<lparr>ClockPolls := ClockPolls s + 1\<rparr>"
        unfolding item Unhash_loop_Some by simp
      then have "s' = unhash_advance (Suc 0) (objects_of (take (Suc 0) (item # rest)))
                        (if bUseTimeLimit then polls_between c (Suc 0) else 0) s"
        using True unfolding item
        by (simp add: unhash_single_poll)
      then show ?thesis unfolding item by (intro exI [of _ "Suc 0"]) simp
    next
      case notup: False
      with Cons.prems True have
        "Unhash_loop env bUseTimeLimit (Suc c) rest
           ((unhash_step Obj s)\<lparr>ClockPolls := ClockPolls s + 1\<rparr>) = Inr s'"
        unfolding item Unhash_loop_Some by simp
      from Cons.IH [OF this] obtain n where n: "n \<le> length rest" "None \<notin> set (take n rest)"
        "s' = unhash_advance n (objects_of (take n rest))
                (if bUseTimeLimit then polls_between (Suc c) n else 0)
                ((unhash_step Obj s)\<lparr>ClockPolls := ClockPolls s + 1\<rparr>)"
        by blast
      from n(3) True have "s' = unhash_advance (Suc n) (objects_of (take (Suc n) (item # rest)))
                        (if bUseTimeLimit then polls_between c (Suc n) else 0) s"
        unfolding item by (simp add: unhash_advance_step_poll)
      then show ?thesis using n(1,2) unfolding item by (intro exI [of _ "Suc n"]) simp
    qed
  next
    case False
    with Cons.prems have
      "Unhash_loop env bUseTimeLimit (Suc c) rest (unhash_step Obj s) = Inr s'"
      unfolding item Unhash_loop_Some by auto
    from Cons.IH [OF this] obtain n where n: "n \<le> length rest" "None \<notin> set (take n rest)"
      "s' = unhash_advance n (objects_of (take n rest))
                (if bUseTimeLimit then polls_between (Suc c) n else 0) (unhash_step Obj s)"
      by blast
    from n(3) False have "s' = unhash_advance (Suc n) (objects_of (take (Suc n) (item # rest)))
                        (if bUseTimeLimit then polls_between c (Suc n) else 0) s"
      unfolding item by (auto simp: unhash_advance_step)
    then show ?thesis using n(1,2) unfolding item by (intro exI [of _ "Suc n"]) simp
  qed
qed

lemma Unhash_loop_total:
  "None \<notin> set rest \<Longrightarrow> \<exists>s'. Unhash_loop env bUseTimeLimit c rest s = Inr s'"
proof (induction rest arbitrary: c s)
  case Nil
  then show ?case by simp
next
  case (Cons item rest)
  then obtain Obj where item: "item = Some Obj" by (cases item) auto
  from Cons.prems have rest: "None \<notin> set rest" by simp
  show ?case
    unfolding item Unhash_loop_Some
    using Cons.IH [OF rest] by (cases bUseTimeLimit) simp_all
qed

lemma Unhash_loop_no_limit:
  "Unhash_loop env False c rest s = Inr s' \<Longrightarrow>
     GUnrechableObjectIndex s' = GUnrechableObjectIndex s + length rest"
proof (induction rest arbitrary: c s)
  case Nil
  then show ?case by simp
next
  case (Cons item rest)
  from Cons.prems obtain Obj where item: "item = Some Obj" by (cases item) auto
  from Cons.prems have "Unhash_loop env False (Suc c) rest (unhash_step Obj s) = Inr s'"
    unfolding item Unhash_loop_Some by simp
  from Cons.IH [OF this] show ?case
    by (simp add: unhash_step_def log_event_def)
qed

lemma Unhash_call_eq:
  assumes "Unhash_loop env bUseTimeLimit 0 (drop (GUnrechableObjectIndex s) (GUnreachableObjects s))
             (log_event (Broadcast PreGarbageCollectConditionalBeginDestroy)
                (s\<lparr>GObjUnhashUnreachableIsInProgress := True\<rparr>)) = Inr s2"
  shows "UnhashUnreachableObjects env bUseTimeLimit s
      = Inr (GUnrechableObjectIndex s2 < length (GUnreachableObjects s2),
             (log_event (Broadcast PostGarbageCollectConditionalBeginDestroy) s2)
               \<lparr>GObjUnhashUnreachableIsInProgress := GObjUnhashUnreachableIsInProgress s\<rparr>)"
proof -
  have "GUnrechableObjectIndex (log_event (Broadcast PreGarbageCollectConditionalBeginDestroy)
                (s\<lparr>GObjUnhashUnreachableIsInProgress := True\<rparr>)) = GUnrechableObjectIndex s"
    "GUnreachableObjects (log_event (Broadcast PreGarbageCollectConditionalBeginDestroy)
                (s\<lparr>GObjUnhashUnreachableIsInProgress := True\<rparr>)) = GUnreachableObjects s"
    by (simp_all add: log_event_def)
  then show ?thesis
    unfolding UnhashUnreachableObjects_def Let_def using assms by simp
qed

lemma unhash_advance_fields:
  "GUnrechableObjectIndex (unhash_advance n objs p s) = GUnrechableObjectIndex s + n"
  "GUnreachableObjects (unhash_advance n objs p s) = GUnreachableObjects s"
  by (simp_all add: unhash_advance_def)

lemma unhash_call_state:
  "(log_event (Broadcast PostGarbageCollectConditionalBeginDestroy)
      (unhash_advance n objs p
         (log_event (Broadcast PreGarbageCollectConditionalBeginDestroy)
            (s\<lparr>GObjUnhashUnreachableIsInProgress := True\<rparr>))))
     \<lparr>GObjUnhashUnreachableIsInProgress := GObjUnhashUnreachableIsInProgress s\<rparr>
   = s\<lparr>GUnrechableObjectIndex := GUnrechableObjectIndex s + n,
       Trace := Trace s @ [Broadcast PreGarbageCollectConditionalBeginDestroy]
                 @ map ConditionalBeginDestroy objs
                 @ [Broadcast PostGarbageCollectConditionalBeginDestroy],
       ClockPolls := ClockPolls s + p\<rparr>"
  by (simp add: unhash_advance_def log_event_def)

lemma Unhash_call:
  assumes "None \<notin> set (drop (GUnrechableObjectIndex s) (GUnreachableObjects s))"
  shows "\<exists>n b s'. UnhashUnreachableObjects env bUseTimeLimit s = Inr (b, s')
           \<and> n \<le> length (GUnreachableObjects s) - GUnrechableObjectIndex s
           \<and> s' = s\<lparr>GUnrechableObjectIndex := GUnrechableObjectIndex s + n,
                    Trace := Trace s @ [Broadcast PreGarbageCollectConditionalBeginDestroy]
                      @ map ConditionalBeginDestroy
                          (objects_of (take n (drop (GUnrechableObjectIndex s) (GUnreachableObjects s))))
                      @ [Broadcast PostGarbageCollectConditionalBeginDestroy],
                    ClockPolls := ClockPolls s + (if bUseTimeLimit then (n + 9) div 10 else 0)\<rparr>
           \<and> b = (GUnrechableObjectIndex s + n < length (GUnreachableObjects s))
           \<and> (bUseTimeLimit \<or> \<not> b)"
proof -
  define s1 where "s1 = log_event (Broadcast PreGarbageCollectConditionalBeginDestroy)
                          (s\<lparr>GObjUnhashUnreachableIsInProgress := True\<rparr>)"
  define rest where "rest = drop (GUnrechableObjectIndex s) (GUnreachableObjects s)"
  have s1: "GUnrechableObjectIndex s1 = GUnrechableObjectIndex s"
    "GUnreachableObjects s1 = GUnreachableObjects s"
    by (simp_all add: s1_def log_event_def)
  from assms obtain s2 where s2: "Unhash_loop env bUseTimeLimit 0 rest s1 = Inr s2"
    using Unhash_loop_total [of rest env bUseTimeLimit 0 s1] unfolding rest_def by blast
  from Unhash_loop_effect [OF s2] obtain n where
    nn: "n \<le> length rest \<and> None \<notin> set (take n rest)
         \<and> s2 = unhash_advance n (objects_of (take n rest))
                    (if bUseTimeLimit then polls_between 0 n else 0) s1" ..
  from nn have n: "n \<le> length rest" by (rule conjunct1)
  from nn have eq: "s2 = unhash_advance n (objects_of (take n rest))
                    (if bUseTimeLimit then polls_between 0 n else 0) s1"
    by (elim conjE)
  have idx2: "GUnrechableObjectIndex s2 = GUnrechableObjectIndex s + n"
    and list2: "GUnreachableObjects s2 = GUnreachableObjects s"
    unfolding eq unhash_advance_fields s1 by (rule refl)+
  have all: "bUseTimeLimit \<or> n = length rest"
  proof (cases bUseTimeLimit)
    case False
    with s2 have "Unhash_loop env False 0 rest s1 = Inr s2" by simp
    from Unhash_loop_no_limit [OF this] show ?thesis
      unfolding idx2 s1 by simp
  qed simp
  have call: "UnhashUnreachableObjects env bUseTimeLimit s
      = Inr (GUnrechableObjectIndex s2 < length (GUnreachableObjects s2),
             (log_event (Broadcast PostGarbageCollectConditionalBeginDestroy) s2)
               \<lparr>GObjUnhashUnreachableIsInProgress := GObjUnhashUnreachableIsInProgress s\<rparr>)"
    by (rule Unhash_call_eq) (use s2 in \<open>simp only: s1_def rest_def\<close>)
  have polls: "(if bUseTimeLimit then polls_between 0 n else 0)
                 = (if bUseTimeLimit then (n + 9) div 10 else 0)"
    by (simp only: polls_from_zero)
  have st: "(log_event (Broadcast PostGarbageCollectConditionalBeginDestroy) s2)
               \<lparr>GObjUnhashUnreachableIsInProgress := GObjUnhashUnreachableIsInProgress s\<rparr>
        = s\<lparr>GUnrechableObjectIndex := GUnrechableObjectIndex s + n,
                    Trace := Trace s @ [Broadcast PreGarbageCollectConditionalBeginDestroy]
                      @ map ConditionalBeginDestroy (objects_of (take n rest))
                      @ [Broadcast PostGarbageCollectConditionalBeginDestroy],
                    ClockPolls := ClockPolls s + (if bUseTimeLimit then (n + 9) div 10 else 0)\<rparr>"
    unfolding eq s1_def unhash_call_state polls by (rule refl)
  have le: "n \<le> length (GUnreachableObjects s) - GUnrechableObjectIndex s"
    using n by (simp add: rest_def)
  have fin: "bUseTimeLimit \<or> \<not> GUnrechableObjectIndex s + n < length (GUnreachableObjects s)"
    using all by (auto simp: rest_def)
  show ?thesis
    apply (rule exI [of _ n])
    apply (rule exI [of _ "GUnrechableObjectIndex s + n < length (GUnreachableObjects s)"])
    apply (rule exI [of _ "s\<lparr>GUnrechableObjectIndex := GUnrechableObjectIndex s + n,
                    Trace := Trace s @ [Broadcast PreGarbageCollectConditionalBeginDestroy]
                      @ map ConditionalBeginDestroy (objects_of (take n rest))
                      @ [Broadcast PostGarbageCollectConditionalBeginDestroy],
                    ClockPolls := ClockPolls s + (if bUseTimeLimit then (n + 9) div 10 else 0)\<rparr>"])
    unfolding call st idx2 list2 rest_def
    using le fin by (intro conjI refl)
qed

lemma begin_destroy_calls_append:
  "begin_destroy_calls (xs @ ys) = begin_destroy_calls xs @ begin_destroy_calls ys"
  by (induction xs rule: begin_destroy_calls.induct) simp_all

lemma begin_destroy_calls_map: "begin_destroy_calls (map ConditionalBeginDestroy objs) = objs"
  by (induction objs) simp_all

lemma objects_of_append: "objects_of (xs @ ys) = objects_of xs @ objects_of ys"
  by (induction xs rule: objects_of.induct) simp_all

lemma objects_of_take_add:
  "objects_of (take n (drop i xs)) @ objects_of (take m (drop (i + n) xs))
     = objects_of (take (n + m) (drop i xs))"
proof -
  have "take (n + m) (drop i xs) = take n (drop i xs) @ take m (drop n (drop i xs))"
    by (rule take_add)
  then show ?thesis by (simp add: objects_of_append add.commute)
qed

lemma Unhash_resumed_effect:
  assumes "None \<notin> set (drop (GUnrechableObjectIndex s) (GUnreachableObjects s))"
  shows "\<exists>s'. Unhash_resumed calls s = Inr s'
           \<and> GUnreachableObjects s' = GUnreachableObjects s
           \<and> GUnrechableObjectIndex s \<le> GUnrechableObjectIndex s'
           \<and> GUnrechableObjectIndex s' \<le> max (GUnrechableObjectIndex s) (length (GUnreachableObjects s))
           \<and> begin_destroy_calls (Trace s')
               = begin_destroy_calls (Trace s)
                 @ objects_of (take (GUnrechableObjectIndex s' - GUnrechableObjectIndex s)
                                 (drop (GUnrechableObjectIndex s) (GUnreachableObjects s)))"
  using assms
proof (induction calls arbitrary: s)
  case Nil
  then show ?case by simp
next
  case (Cons call calls)
  obtain env bUseTimeLimit where call: "call = (env, bUseTimeLimit)" by (cases call)
  define i where "i = GUnrechableObjectIndex s"
  define l where "l = GUnreachableObjects s"
  from Unhash_call [OF Cons.prems, of env bUseTimeLimit] obtain n b s1 where
    run: "UnhashUnreachableObjects env bUseTimeLimit s = Inr (b, s1)"
    and n: "n \<le> length l - i"
    and s1: "s1 = s\<lparr>GUnrechableObjectIndex := i + n,
                    Trace := Trace s @ [Broadcast PreGarbageCollectConditionalBeginDestroy]
                      @ map ConditionalBeginDestroy (objects_of (take n (drop i l)))
                      @ [Broadcast PostGarbageCollectConditionalBeginDestroy],
                    ClockPolls := ClockPolls s + (if bUseTimeLimit then (n + 9) div 10 else 0)\<rparr>"
    unfolding i_def l_def by (elim exE conjE)
  have f1: "GUnrechableObjectIndex s1 = i + n" "GUnreachableObjects s1 = l"
    "begin_destroy_calls (Trace s1) = begin_destroy_calls (Trace s) @ objects_of (take n (drop i l))"
    unfolding s1 by (simp_all add: l_def begin_destroy_calls_append begin_destroy_calls_map)
  have "set (drop (i + n) l) \<subseteq> set (drop i l)"
    by (rule set_drop_subset_set_drop) simp
  with Cons.prems have "None \<notin> set (drop (GUnrechableObjectIndex s1) (GUnreachableObjects s1))"
    unfolding f1 i_def l_def by blast
  from Cons.IH [OF this] obtain s' where
    r: "Unhash_resumed calls s1 = Inr s'"
    and l': "GUnreachableObjects s' = l"
    and lo: "i + n \<le> GUnrechableObjectIndex s'"
    and hi: "GUnrechableObjectIndex s' \<le> max (i + n) (length l)"
    and tr: "begin_destroy_calls (Trace s')
               = begin_destroy_calls (Trace s1)
                 @ objects_of (take (GUnrechableObjectIndex s' - (i + n)) (drop (i + n) l))"
    unfolding f1 by (elim exE conjE)
  have "Unhash_resumed (call # calls) s = Inr s'"
    unfolding call using run r by simp
  moreover have "GUnrechableObjectIndex s' \<le> max i (length l)"
    using hi n unfolding max_def by (auto split: if_splits)
  moreover have "begin_destroy_calls (Trace s')
       = begin_destroy_calls (Trace s) @ objects_of (take (GUnrechableObjectIndex s' - i) (drop i l))"
  proof -
    have "n + (GUnrechableObjectIndex s' - (i + n)) = GUnrechableObjectIndex s' - i"
      using lo by simp
    then show ?thesis
      unfolding tr f1 using objects_of_take_add [of n i l "GUnrechableObjectIndex s' - (i + n)"]
      by simp
  qed
  ultimately show ?case
    using l' lo unfolding i_def [symmetric] l_def [symmetric] by (intro exI [of _ s']) simp
qed

lemma unhash_state_fields:
  "GUnrechableObjectIndex unhash_state = 0"
  "GUnreachableObjects unhash_state = map Some unhash_objects"
  "ClockPolls unhash_state = 0"
  "Trace unhash_state = []"
  by (simp_all add: unhash_state_def gc_idle_def)

lemma unhash_loop_run:
  assumes "ClockPolls s = 0"
  shows "Unhash_loop unhash_env True 0 (map Some unhash_objects) s
           = Inr (unhash_advance 11 [40, 41, 42, 43, 44, 45, 46, 47, 48, 49, 50] 2 s)"
  using assms
  by (simp add: Unhash_loop_Some unhash_step_def log_event_def unhash_advance_def
        unhash_objects_def unhash_env_def mod_Suc del: Unhash_loop.simps)

lemma unhash_first_call:
  "UnhashUnreachableObjects unhash_env True unhash_state
     = Inr (True, unhash_state\<lparr>GUnrechableObjectIndex := 11,
              Trace := [Broadcast PreGarbageCollectConditionalBeginDestroy]
                 @ map ConditionalBeginDestroy [40, 41, 42, 43, 44, 45, 46, 47, 48, 49, 50]
                 @ [Broadcast PostGarbageCollectConditionalBeginDestroy],
              ClockPolls := 2\<rparr>)"
proof -
  let ?s1 = "log_event (Broadcast PreGarbageCollectConditionalBeginDestroy)
               (unhash_state\<lparr>GObjUnhashUnreachableIsInProgress := True\<rparr>)"
  have "ClockPolls ?s1 = 0"
    by (simp add: log_event_def unhash_state_fields)
  from unhash_loop_run [OF this]
  have "Unhash_loop unhash_env True 0
          (drop (GUnrechableObjectIndex unhash_state) (GUnreachableObjects unhash_state)) ?s1
        = Inr (unhash_advance 11 [40, 41, 42, 43, 44, 45, 46, 47, 48, 49, 50] 2 ?s1)"
    by (simp add: unhash_state_fields)
  from Unhash_call_eq [OF this] show ?thesis
    unfolding unhash_call_state unhash_advance_fields
    by (simp add: log_event_def unhash_state_fields unhash_objects_def)
qed

text \<open>
  C7. With every entry from the cursor on non-null (entries are nulled only by the purge,
  after the phase), one invocation of \<open>UnhashUnreachableObjects\<close> returns; it has
  called \<open>ConditionalBeginDestroy\<close> on the next \<open>n\<close> entries from the saved cursor, in
  list order and between the two broadcasts, and moved the cursor by \<open>n\<close>; it has tested
  the time limit \<open>(n + 9) div 10\<close> times when one is in use (after the 1st, 11th, 21st
  ... object) and never otherwise; it returns true exactly when entries remain, which
  needs a time limit. Any run of resumed invocations (each with its own clock and
  \<open>bUseTimeLimit\<close>) returns, and the calls of \<open>ConditionalBeginDestroy\<close> it has added are
  those on the entries between the first and the last cursor, in order, one per entry.
\<close>

theorem C7_unhash_in_order_once:
  assumes "None \<notin> set (drop (GUnrechableObjectIndex s) (GUnreachableObjects s))"
  shows "(\<exists>n b s'. UnhashUnreachableObjects env bUseTimeLimit s = Inr (b, s')
           \<and> n \<le> length (GUnreachableObjects s) - GUnrechableObjectIndex s
           \<and> s' = s\<lparr>GUnrechableObjectIndex := GUnrechableObjectIndex s + n,
                    Trace := Trace s @ [Broadcast PreGarbageCollectConditionalBeginDestroy]
                      @ map ConditionalBeginDestroy
                          (objects_of (take n (drop (GUnrechableObjectIndex s) (GUnreachableObjects s))))
                      @ [Broadcast PostGarbageCollectConditionalBeginDestroy],
                    ClockPolls := ClockPolls s + (if bUseTimeLimit then (n + 9) div 10 else 0)\<rparr>
           \<and> b = (GUnrechableObjectIndex s + n < length (GUnreachableObjects s))
           \<and> (bUseTimeLimit \<or> \<not> b))
       \<and> (\<exists>s'. Unhash_resumed calls s = Inr s'
           \<and> GUnreachableObjects s' = GUnreachableObjects s
           \<and> GUnrechableObjectIndex s \<le> GUnrechableObjectIndex s'
           \<and> GUnrechableObjectIndex s' \<le> max (GUnrechableObjectIndex s) (length (GUnreachableObjects s))
           \<and> begin_destroy_calls (Trace s')
               = begin_destroy_calls (Trace s)
                 @ objects_of (take (GUnrechableObjectIndex s' - GUnrechableObjectIndex s)
                                 (drop (GUnrechableObjectIndex s) (GUnreachableObjects s))))"
  using Unhash_call [OF assms] Unhash_resumed_effect [OF assms] by (rule conjI)

theorem C7_unhash_in_order_once_witness:
  "None \<notin> set (drop (GUnrechableObjectIndex unhash_state) (GUnreachableObjects unhash_state))
   \<and> UnhashUnreachableObjects unhash_env True unhash_state
       = Inr (True, unhash_state\<lparr>GUnrechableObjectIndex := 11,
              Trace := [Broadcast PreGarbageCollectConditionalBeginDestroy]
                 @ map ConditionalBeginDestroy [40, 41, 42, 43, 44, 45, 46, 47, 48, 49, 50]
                 @ [Broadcast PostGarbageCollectConditionalBeginDestroy],
              ClockPolls := 2\<rparr>)
   \<and> (\<exists>s'. Unhash_resumed unhash_calls unhash_state = Inr s'
          \<and> GUnrechableObjectIndex s' = 12
          \<and> begin_destroy_calls (Trace s') = unhash_objects)"
proof -
  have h: "None \<notin> set (drop (GUnrechableObjectIndex unhash_state) (GUnreachableObjects unhash_state))"
    by (auto simp: unhash_state_fields)
  let ?s1 = "unhash_state\<lparr>GUnrechableObjectIndex := 11,
              Trace := [Broadcast PreGarbageCollectConditionalBeginDestroy]
                 @ map ConditionalBeginDestroy [40, 41, 42, 43, 44, 45, 46, 47, 48, 49, 50]
                 @ [Broadcast PostGarbageCollectConditionalBeginDestroy],
              ClockPolls := 2\<rparr>"
  have h1: "None \<notin> set (drop (GUnrechableObjectIndex ?s1) (GUnreachableObjects ?s1))"
    by (auto simp: unhash_state_fields drop_map)
  have "\<exists>s2. UnhashUnreachableObjects unhash_env False ?s1 = Inr (False, s2)
               \<and> GUnrechableObjectIndex s2 = 12"
    by (simp add: UnhashUnreachableObjects_def log_event_def unhash_state_fields
          unhash_objects_def Let_def)
  then obtain s2 where second: "UnhashUnreachableObjects unhash_env False ?s1 = Inr (False, s2)"
    and s2: "GUnrechableObjectIndex s2 = 12"
    by (elim exE conjE)
  note C7_unhash_in_order_once [OF h, of unhash_env True unhash_calls, THEN conjunct2]
  then obtain s' where
    r: "Unhash_resumed unhash_calls unhash_state = Inr s'
        \<and> GUnreachableObjects s' = GUnreachableObjects unhash_state
        \<and> GUnrechableObjectIndex unhash_state \<le> GUnrechableObjectIndex s'
        \<and> GUnrechableObjectIndex s'
            \<le> max (GUnrechableObjectIndex unhash_state) (length (GUnreachableObjects unhash_state))
        \<and> begin_destroy_calls (Trace s')
            = begin_destroy_calls (Trace unhash_state)
              @ objects_of (take (GUnrechableObjectIndex s' - GUnrechableObjectIndex unhash_state)
                  (drop (GUnrechableObjectIndex unhash_state) (GUnreachableObjects unhash_state)))" ..
  from r have run: "Unhash_resumed unhash_calls unhash_state = Inr s'" by (rule conjunct1)
  from r have tr: "begin_destroy_calls (Trace s')
            = begin_destroy_calls (Trace unhash_state)
              @ objects_of (take (GUnrechableObjectIndex s' - GUnrechableObjectIndex unhash_state)
                  (drop (GUnrechableObjectIndex unhash_state) (GUnreachableObjects unhash_state)))"
    by (elim conjE)
  have "Unhash_resumed unhash_calls unhash_state = Inr s2"
    by (simp only: unhash_calls_def Unhash_resumed.simps unhash_first_call second
          sum.case prod.case)
  with run have "s' = s2" by simp
  with s2 have idx: "GUnrechableObjectIndex s' = 12" by simp
  from tr have "begin_destroy_calls (Trace s') = unhash_objects"
    unfolding idx unhash_state_fields by (simp add: unhash_objects_def)
  with h unhash_first_call run idx show ?thesis by simp
qed

subsection \<open>CollectGarbage and TryCollectGarbage\<close>

text \<open>
  C10. During the initial load both \<open>CollectGarbage\<close> and \<open>TryCollectGarbage\<close> return
  at once and leave the whole state as it was: the lock is not taken or tried, nothing
  is broadcast, no object is touched; \<open>TryCollectGarbage\<close> returns false.
\<close>

theorem C10_initial_load_skips:
  assumes "GIsInitialLoad s"
  shows "CollectGarbage cfg env fuel bPerformFullPurge UnreachableFound s = Inr s
       \<and> TryCollectGarbage cfg env fuel bPerformFullPurge UnreachableFound s = Inr (False, s)"
  using assms by (simp add: CollectGarbage_def TryCollectGarbage_def)

theorem C10_initial_load_skips_witness:
  "GIsInitialLoad initial_load_state
   \<and> CollectGarbage gc_config_default unhash_env 1 True [40] initial_load_state
       = Inr initial_load_state
   \<and> TryCollectGarbage gc_config_default unhash_env 1 True [40] initial_load_state
       = Inr (False, initial_load_state)"
  using C10_initial_load_skips [of initial_load_state gc_config_default unhash_env 1 True "[40]"]
  by (simp add: initial_load_state_def)

lemma CollectGarbageImpl_incremental:
  assumes "\<not> IsLoading env" and "\<not> GObjIncrementalPurgeIsInProgress s" and "\<not> GObjPurgeIsRequired s"
    and "GIncrementalBeginDestroyEnabled cfg"
  shows "CollectGarbageImpl cfg env fuel False UnreachableFound s =
     Inr ((if GFlushStreamingOnGC cfg \<and> IsAsyncLoading env then s\<lparr>GCLockHeldByOther := False\<rparr> else s)
          \<lparr>GCLockHeld := False, GNumAttemptsSinceLastGC := 0, GObjPurgeIsRequired := True,
            GUnrechableObjectIndex := 0, GUnreachableObjects := map Some UnreachableFound,
            Trace := Trace s
              @ (if GFlushStreamingOnGC cfg \<and> IsAsyncLoading env
                 then [ReleaseGCLock, FlushAsyncLoading, AcquireGCLock] else [])
              @ [Broadcast PreGarbageCollect, ReachabilityAnalysis, ReleaseGCLock,
                 Broadcast PostReachabilityAnalysis, DeleteLoaders, Broadcast PostGarbageCollect]\<rparr>)"
  using assms
  by (simp add: CollectGarbageImpl_def PurgeLeftover_def PurgeAfterReachability_def Let_def
      ReachabilityScope_def log_event_def AcquireGCLock_op_def ReleaseGCLock_op_def)

text \<open>
  C8 (as the code has it). Outside the initial load, a call of \<open>TryCollectGarbage\<close> that
  finds the GC lock held by another thread: unless the limit is positive and the counter
  of skipped attempts is above it, the call adds one to the counter (an \<^verbatim>\<open>int32\<close>, taken
  below its maximum) and returns false, having done nothing else than try the lock; if the limit is positive and the counter
  is above it, the call resets the counter, takes the lock by a blocking
  \<open>AcquireGCLock\<close> and is the collection run from there, returning true when that
  returns. An incremental collection with no purge left over does return: the call
  returns true with the lock released, the counter at 0 and the reachability analysis
  done.
\<close>

theorem C8_retry_then_force:
  assumes "\<not> GIsInitialLoad s" and "GCLockHeldByOther s"
  shows "((GNumAttemptsSinceLastGC s \<le> GNumRetriesBeforeForcingGC cfg
             \<or> GNumRetriesBeforeForcingGC cfg \<le> 0)
            \<and> GNumAttemptsSinceLastGC s < 2147483647 \<longrightarrow>
          TryCollectGarbage cfg env fuel bPerformFullPurge UnreachableFound s
            = Inr (False, (log_event (TryGCLock False) s)
                            \<lparr>GNumAttemptsSinceLastGC := GNumAttemptsSinceLastGC s + 1\<rparr>))
       \<and> (0 < GNumRetriesBeforeForcingGC cfg
            \<and> GNumRetriesBeforeForcingGC cfg < GNumAttemptsSinceLastGC s \<longrightarrow>
          TryCollectGarbage cfg env fuel bPerformFullPurge UnreachableFound s
            = (case CollectGarbageImpl cfg env fuel bPerformFullPurge UnreachableFound
                      (AcquireGCLock_op (log_event LogWarning
                         ((log_event (TryGCLock False) s)\<lparr>GNumAttemptsSinceLastGC := 0\<rparr>))) of
                 Inl e \<Rightarrow> Inl e
               | Inr s' \<Rightarrow> Inr (True, s')))
       \<and> (0 < GNumRetriesBeforeForcingGC cfg
            \<and> GNumRetriesBeforeForcingGC cfg < GNumAttemptsSinceLastGC s
            \<and> \<not> IsLoading env \<and> \<not> IsIncrementalPurgePending s
            \<and> \<not> bPerformFullPurge \<and> GIncrementalBeginDestroyEnabled cfg \<longrightarrow>
          (\<exists>s'. TryCollectGarbage cfg env fuel bPerformFullPurge UnreachableFound s = Inr (True, s')
              \<and> GNumAttemptsSinceLastGC s' = 0 \<and> \<not> GCLockHeld s'
              \<and> take 3 (new_events s s') = [TryGCLock False, LogWarning, AcquireGCLock]
              \<and> ReachabilityAnalysis \<in> set (new_events s s')
              \<and> GUnreachableObjects s' = map Some UnreachableFound))"
proof (intro conjI impI)
  assume "(GNumAttemptsSinceLastGC s \<le> GNumRetriesBeforeForcingGC cfg
             \<or> GNumRetriesBeforeForcingGC cfg \<le> 0)
            \<and> GNumAttemptsSinceLastGC s < 2147483647"
  with assms show "TryCollectGarbage cfg env fuel bPerformFullPurge UnreachableFound s
            = Inr (False, (log_event (TryGCLock False) s)
                            \<lparr>GNumAttemptsSinceLastGC := GNumAttemptsSinceLastGC s + 1\<rparr>)"
    by (auto simp: TryCollectGarbage_def TryGCLock_op_def log_event_def)
next
  assume "0 < GNumRetriesBeforeForcingGC cfg
            \<and> GNumRetriesBeforeForcingGC cfg < GNumAttemptsSinceLastGC s"
  with assms show "TryCollectGarbage cfg env fuel bPerformFullPurge UnreachableFound s
            = (case CollectGarbageImpl cfg env fuel bPerformFullPurge UnreachableFound
                      (AcquireGCLock_op (log_event LogWarning
                         ((log_event (TryGCLock False) s)\<lparr>GNumAttemptsSinceLastGC := 0\<rparr>))) of
                 Inl e \<Rightarrow> Inl e
               | Inr s' \<Rightarrow> Inr (True, s'))"
    by (simp add: TryCollectGarbage_def TryGCLock_op_def log_event_def)
next
  assume a: "0 < GNumRetriesBeforeForcingGC cfg
            \<and> GNumRetriesBeforeForcingGC cfg < GNumAttemptsSinceLastGC s
            \<and> \<not> IsLoading env \<and> \<not> IsIncrementalPurgePending s
            \<and> \<not> bPerformFullPurge \<and> GIncrementalBeginDestroyEnabled cfg"
  let ?s0 = "AcquireGCLock_op (log_event LogWarning
                         ((log_event (TryGCLock False) s)\<lparr>GNumAttemptsSinceLastGC := 0\<rparr>))"
  from a have tc: "TryCollectGarbage cfg env fuel bPerformFullPurge UnreachableFound s
            = (case CollectGarbageImpl cfg env fuel False UnreachableFound ?s0 of
                 Inl e \<Rightarrow> Inl e
               | Inr s' \<Rightarrow> Inr (True, s'))"
    using assms by (simp add: TryCollectGarbage_def TryGCLock_op_def log_event_def)
  from a have "\<not> GObjIncrementalPurgeIsInProgress ?s0" "\<not> GObjPurgeIsRequired ?s0"
    by (simp_all add: IsIncrementalPurgePending_def AcquireGCLock_op_def log_event_def)
  with a have "\<exists>s'. CollectGarbageImpl cfg env fuel False UnreachableFound ?s0 = Inr s'
      \<and> GNumAttemptsSinceLastGC s' = 0 \<and> \<not> GCLockHeld s'
      \<and> take 3 (new_events s s') = [TryGCLock False, LogWarning, AcquireGCLock]
      \<and> ReachabilityAnalysis \<in> set (new_events s s')
      \<and> GUnreachableObjects s' = map Some UnreachableFound"
    by (simp add: CollectGarbageImpl_incremental new_events_def AcquireGCLock_op_def log_event_def)
  then show "\<exists>s'. TryCollectGarbage cfg env fuel bPerformFullPurge UnreachableFound s = Inr (True, s')
              \<and> GNumAttemptsSinceLastGC s' = 0 \<and> \<not> GCLockHeld s'
              \<and> take 3 (new_events s s') = [TryGCLock False, LogWarning, AcquireGCLock]
              \<and> ReachabilityAnalysis \<in> set (new_events s s')
              \<and> GUnreachableObjects s' = map Some UnreachableFound"
    unfolding tc by auto
qed

lemma contended_state_fields:
  "\<not> GIsInitialLoad (contended_state a)" "GCLockHeldByOther (contended_state a)"
  "GNumAttemptsSinceLastGC (contended_state a) = a"
  "\<not> IsIncrementalPurgePending (contended_state a)"
  "Trace (contended_state a) = []"
  by (simp_all add: contended_state_def gc_idle_def IsIncrementalPurgePending_def)

lemma example_fields:
  "GNumRetriesBeforeForcingGC gc_config_default = 10"
  "GIncrementalBeginDestroyEnabled gc_config_default"
  "\<not> GFlushStreamingOnGC gc_config_default"
  "\<not> IsLoading unhash_env" "\<not> IsAsyncLoading unhash_env"
  by (simp_all add: gc_config_default_def unhash_env_def)

theorem C8_retry_then_force_witness:
  "\<not> GIsInitialLoad (contended_state 10) \<and> GCLockHeldByOther (contended_state 10)
   \<and> TryCollectGarbage gc_config_default unhash_env 1 False [40] (contended_state 10)
       = Inr (False, (contended_state 11)\<lparr>Trace := [TryGCLock False]\<rparr>)
   \<and> \<not> GIsInitialLoad (contended_state 11) \<and> GCLockHeldByOther (contended_state 11)
   \<and> (\<exists>s'. TryCollectGarbage gc_config_default unhash_env 1 False [40] (contended_state 11)
              = Inr (True, s')
          \<and> GNumAttemptsSinceLastGC s' = 0 \<and> \<not> GCLockHeld s'
          \<and> take 3 (Trace s') = [TryGCLock False, LogWarning, AcquireGCLock]
          \<and> ReachabilityAnalysis \<in> set (Trace s')
          \<and> GUnreachableObjects s' = [Some 40])"
proof -
  have "TryCollectGarbage gc_config_default unhash_env 1 False [40] (contended_state 10)
       = Inr (False, (contended_state 11)\<lparr>Trace := [TryGCLock False]\<rparr>)"
    using C8_retry_then_force [of "contended_state 10" gc_config_default unhash_env 1 False "[40]"]
    by (simp add: contended_state_fields example_fields log_event_def)
       (simp add: contended_state_def)
  moreover have "\<exists>s'. TryCollectGarbage gc_config_default unhash_env 1 False [40] (contended_state 11)
              = Inr (True, s')
          \<and> GNumAttemptsSinceLastGC s' = 0 \<and> \<not> GCLockHeld s'
          \<and> take 3 (Trace s') = [TryGCLock False, LogWarning, AcquireGCLock]
          \<and> ReachabilityAnalysis \<in> set (Trace s')
          \<and> GUnreachableObjects s' = [Some 40]"
    using C8_retry_then_force [of "contended_state 11" gc_config_default unhash_env 1 False "[40]",
        THEN conjunct2, THEN conjunct2]
    by (simp add: contended_state_fields example_fields new_events_def)
  ultimately show ?thesis by (simp add: contended_state_fields)
qed

text \<open>
  C8 as stated fails during the initial load: with the lock held by another thread and
  the counter at 0, not above the limit 10, the call returns false and leaves the counter
  at 0.
\<close>

theorem C8_initial_load_counterexample:
  "GCLockHeldByOther initial_load_state
   \<and> GNumAttemptsSinceLastGC initial_load_state \<le> GNumRetriesBeforeForcingGC gc_config_default
   \<and> (\<exists>s'. TryCollectGarbage gc_config_default unhash_env 1 False [40] initial_load_state
              = Inr (False, s')
          \<and> GNumAttemptsSinceLastGC s' = GNumAttemptsSinceLastGC initial_load_state)"
  by (simp add: TryCollectGarbage_def initial_load_state_def gc_idle_def gc_config_default_def)

subsection \<open>Lock discipline of a collection\<close>









lemma sum_caseD: "(case x of Inl e \<Rightarrow> True | Inr r \<Rightarrow> P r) \<Longrightarrow> x = Inr r \<Longrightarrow> P r"
  by simp





lemma PendingPass_step_measure:
  assumes "cur < GGCObjectsPendingDestructionCount s" and "PendingPass_step env cur s = (cur', s2)"
  shows "GGCObjectsPendingDestructionCount s2 - cur' < GGCObjectsPendingDestructionCount s - cur"
  using assms
  by (auto simp: PendingPass_step_def query_ready_def log_event_def Let_def split: if_splits)


































subsection \<open>Time-sliced purge\<close>

lemma phase_state_upd [simp]:
  "phase_state (s\<lparr>ClockPolls := c\<rparr>) = phase_state s"
  "phase_state (s\<lparr>ReadyQueries := c\<rparr>) = phase_state s"
  "phase_state (s\<lparr>StallPolls := c\<rparr>) = phase_state s"
  "phase_state (s\<lparr>Trace := t\<rparr>) = phase_state s"
  by (simp_all add: phase_state_def)

lemma phase_state_log [simp]: "phase_state (log_event e s) = phase_state s"
  by (simp add: log_event_def)

lemma phase_state_data:
  "phase_state (s\<lparr>GObjPurgeIsRequired := b\<rparr>) = (phase_state s)\<lparr>GObjPurgeIsRequired := b\<rparr>"
  "phase_state (s\<lparr>GObjIncrementalPurgeIsInProgress := b\<rparr>) = (phase_state s)\<lparr>GObjIncrementalPurgeIsInProgress := b\<rparr>"
  "phase_state (s\<lparr>GObjFinishDestroyHasBeenRoutedToAllObjects := b\<rparr>) = (phase_state s)\<lparr>GObjFinishDestroyHasBeenRoutedToAllObjects := b\<rparr>"
  "phase_state (s\<lparr>GObjCurrentPurgeObjectIndexNeedsReset := b\<rparr>) = (phase_state s)\<lparr>GObjCurrentPurgeObjectIndexNeedsReset := b\<rparr>"
  "phase_state (s\<lparr>GObjCurrentPurgeObjectIndex := i\<rparr>) = (phase_state s)\<lparr>GObjCurrentPurgeObjectIndex := i\<rparr>"
  "phase_state (s\<lparr>GUnrechableObjectIndex := i\<rparr>) = (phase_state s)\<lparr>GUnrechableObjectIndex := i\<rparr>"
  "phase_state (s\<lparr>GUnreachableObjects := L\<rparr>) = (phase_state s)\<lparr>GUnreachableObjects := L\<rparr>"
  "phase_state (s\<lparr>GGCObjectsPendingDestruction := pl\<rparr>) = (phase_state s)\<lparr>GGCObjectsPendingDestruction := pl\<rparr>"
  "phase_state (s\<lparr>GGCObjectsPendingDestructionCount := k\<rparr>) = (phase_state s)\<lparr>GGCObjectsPendingDestructionCount := k\<rparr>"
  "phase_state (s\<lparr>GIsGarbageCollecting := b\<rparr>) = (phase_state s)\<lparr>GIsGarbageCollecting := b\<rparr>"
  "phase_state (s\<lparr>GObjUnhashUnreachableIsInProgress := b\<rparr>) = (phase_state s)\<lparr>GObjUnhashUnreachableIsInProgress := b\<rparr>"
  "phase_state (s\<lparr>GWarningTimeOutHasBeenDisplayedGC := b\<rparr>) = (phase_state s)\<lparr>GWarningTimeOutHasBeenDisplayedGC := b\<rparr>"
  "phase_state (s\<lparr>GAsyncPurge := A\<rparr>) = (phase_state s)\<lparr>GAsyncPurge := A\<rparr>"
  by (simp_all add: phase_state_def)

lemma phase_state_sel [simp]:
  "GExitPurge (phase_state s) = GExitPurge s"
  "GObjPurgeIsRequired (phase_state s) = GObjPurgeIsRequired s"
  "GObjIncrementalPurgeIsInProgress (phase_state s) = GObjIncrementalPurgeIsInProgress s"
  "GObjFinishDestroyHasBeenRoutedToAllObjects (phase_state s) = GObjFinishDestroyHasBeenRoutedToAllObjects s"
  "GObjCurrentPurgeObjectIndexNeedsReset (phase_state s) = GObjCurrentPurgeObjectIndexNeedsReset s"
  "GObjCurrentPurgeObjectIndex (phase_state s) = GObjCurrentPurgeObjectIndex s"
  "GUnrechableObjectIndex (phase_state s) = GUnrechableObjectIndex s"
  "GUnreachableObjects (phase_state s) = GUnreachableObjects s"
  "GGCObjectsPendingDestruction (phase_state s) = GGCObjectsPendingDestruction s"
  "GGCObjectsPendingDestructionCount (phase_state s) = GGCObjectsPendingDestructionCount s"
  "GIsGarbageCollecting (phase_state s) = GIsGarbageCollecting s"
  "GObjUnhashUnreachableIsInProgress (phase_state s) = GObjUnhashUnreachableIsInProgress s"
  "GWarningTimeOutHasBeenDisplayedGC (phase_state s) = GWarningTimeOutHasBeenDisplayedGC s"
  "GAsyncPurge (phase_state s) = GAsyncPurge s"
  by (simp_all add: phase_state_def)

text \<open>The three predicates read the phase state only.\<close>

lemma purge_wf_phase: "purge_wf s = purge_wf (phase_state s)"
  by (simp add: purge_wf_def)

lemma purge_done_phase: "purge_done s = purge_done (phase_state s)"
  by (simp add: purge_done_def phase_state_def)

lemma due_phase:
  "begin_destroy_due s = begin_destroy_due (phase_state s)"
  "finish_destroy_due s = finish_destroy_due (phase_state s)"
  "destroy_due s = destroy_due (phase_state s)"
  by (simp_all add: begin_destroy_due_def finish_destroy_due_def destroy_due_def)

lemma calls_append:
  "finish_destroy_calls (xs @ ys) = finish_destroy_calls xs @ finish_destroy_calls ys"
  "destructor_calls (xs @ ys) = destructor_calls xs @ destructor_calls ys"
  "free_calls (xs @ ys) = free_calls xs @ free_calls ys"
  by (induction xs rule: finish_destroy_calls.induct) simp_all

lemma calls_finish [simp]:
  "finish_destroy_calls (map ConditionalFinishDestroy objs) = objs"
  "begin_destroy_calls (map ConditionalFinishDestroy objs) = []"
  "destructor_calls (map ConditionalFinishDestroy objs) = []"
  "free_calls (map ConditionalFinishDestroy objs) = []"
  by (induction objs) simp_all

lemma calls_begin [simp]:
  "finish_destroy_calls (map ConditionalBeginDestroy objs) = []"
  "destructor_calls (map ConditionalBeginDestroy objs) = []"
  "free_calls (map ConditionalBeginDestroy objs) = []"
  by (induction objs) simp_all

lemma calls_destroy [simp]:
  "finish_destroy_calls (concat (map (\<lambda>Obj. [Destructor Obj, FreeUObject Obj]) objs)) = []"
  "begin_destroy_calls (concat (map (\<lambda>Obj. [Destructor Obj, FreeUObject Obj]) objs)) = []"
  "destructor_calls (concat (map (\<lambda>Obj. [Destructor Obj, FreeUObject Obj]) objs)) = objs"
  "free_calls (concat (map (\<lambda>Obj. [Destructor Obj, FreeUObject Obj]) objs)) = objs"
  by (induction objs) simp_all

lemma purge_progressI:
  assumes "purge_wf s'" and "purge_done s' = purge_done s"
    and "Trace s' = Trace s @ tr"
    and "begin_destroy_calls tr @ begin_destroy_due s' = begin_destroy_due s"
    and "mset (finish_destroy_calls tr) + finish_destroy_due s' = finish_destroy_due s"
    and "destructor_calls tr @ destroy_due s' = destroy_due s"
    and "free_calls tr = destructor_calls tr"
  shows "purge_progress s s'"
proof -
  from assms(3) have "new_events s s' = tr" by (simp add: new_events_def)
  with assms show ?thesis by (simp add: purge_progress_def)
qed

lemma purge_progress_refl: "purge_wf s \<Longrightarrow> purge_progress s s"
  by (rule purge_progressI [where tr = "[]"]) simp_all

lemma purge_progress_trans:
  assumes "purge_progress s s'" and "purge_progress s' s''"
  shows "purge_progress s s''"
proof -
  define t1 where "t1 = new_events s s'"
  define t2 where "t2 = new_events s' s''"
  note a = assms(1) [unfolded purge_progress_def, folded t1_def]
  note b = assms(2) [unfolded purge_progress_def, folded t2_def]
  show ?thesis
  proof (rule purge_progressI [where tr = "t1 @ t2"])
    show "purge_wf s''" using b by simp
    show "purge_done s'' = purge_done s" using a b by simp
    show "Trace s'' = Trace s @ t1 @ t2" using a b by simp
    show "begin_destroy_calls (t1 @ t2) @ begin_destroy_due s'' = begin_destroy_due s"
      using a b by (simp add: begin_destroy_calls_append)
    show "mset (finish_destroy_calls (t1 @ t2)) + finish_destroy_due s'' = finish_destroy_due s"
      using a b by (simp add: calls_append add.assoc)
    show "destructor_calls (t1 @ t2) @ destroy_due s'' = destroy_due s"
      using a b by (simp add: calls_append)
    show "free_calls (t1 @ t2) = destructor_calls (t1 @ t2)"
      using a b by (simp add: calls_append)
  qed
qed

text \<open>Progress is a matter of the phase states and of the new events.\<close>

lemma purge_progress_phase:
  assumes "purge_progress s t" and "phase_state t' = phase_state t" and "Trace t' = Trace t @ tr"
    and "begin_destroy_calls tr = []" and "finish_destroy_calls tr = []"
    and "destructor_calls tr = []" and "free_calls tr = []"
  shows "purge_progress s t'"
proof -
  define t1 where "t1 = new_events s t"
  note a = assms(1) [unfolded purge_progress_def, folded t1_def]
  have wf: "purge_wf t' = purge_wf t" and dn: "purge_done t' = purge_done t"
    and due: "begin_destroy_due t' = begin_destroy_due t"
      "finish_destroy_due t' = finish_destroy_due t" "destroy_due t' = destroy_due t"
    using assms(2)
    by (metis purge_wf_phase, metis purge_done_phase, metis due_phase(1), metis due_phase(2),
        metis due_phase(3))
  show ?thesis
  proof (rule purge_progressI [where tr = "t1 @ tr"])
    show "purge_wf t'" using a wf by simp
    show "purge_done t' = purge_done s" using a dn by simp
    show "Trace t' = Trace s @ t1 @ tr" using a assms(3) by simp
    show "begin_destroy_calls (t1 @ tr) @ begin_destroy_due t' = begin_destroy_due s"
      using a assms(4) due by (simp add: begin_destroy_calls_append)
    show "mset (finish_destroy_calls (t1 @ tr)) + finish_destroy_due t' = finish_destroy_due s"
      using a assms(5) due by (simp add: calls_append)
    show "destructor_calls (t1 @ tr) @ destroy_due t' = destroy_due s"
      using a assms(6) due by (simp add: calls_append)
    show "free_calls (t1 @ tr) = destructor_calls (t1 @ tr)"
      using a assms(6,7) by (simp add: calls_append)
  qed
qed

lemma FinishDestroy_loop_effect:
  assumes "FinishDestroy_loop env u c rest s = Inr (b, c', s')"
  shows "\<exists>k evs pnd.
           phase_state s' = phase_state
             (s\<lparr>GObjCurrentPurgeObjectIndex := GObjCurrentPurgeObjectIndex s + k,
                GGCObjectsPendingDestruction := GGCObjectsPendingDestruction s @ pnd,
                GGCObjectsPendingDestructionCount := GGCObjectsPendingDestructionCount s + length pnd\<rparr>)
           \<and> Trace s' = Trace s @ map ConditionalFinishDestroy evs
           \<and> k \<le> length rest
           \<and> mset evs + mset pnd = mset (objects_of (take k rest))
           \<and> (\<not> b \<longrightarrow> k = length rest) \<and> (\<not> u \<longrightarrow> \<not> b)"
  using assms
proof (induction rest arbitrary: c s)
  case Nil
  then show ?case
    by (intro exI [of _ 0] exI [of _ "[]"]) simp
next
  case (Cons item rest)
  from Cons.prems obtain Obj where item: "item = Some Obj"
    by (cases item) auto
  define rdy where "rdy = IsReadyForFinishDestroy env (ReadyQueries s) Obj"
  define s3 where "s3 = (if rdy
      then (log_event (ConditionalFinishDestroy Obj) (s\<lparr>ReadyQueries := ReadyQueries s + 1\<rparr>))
      else s\<lparr>ReadyQueries := ReadyQueries s + 1,
             GGCObjectsPendingDestruction := GGCObjectsPendingDestruction s @ [Obj],
             GGCObjectsPendingDestructionCount := GGCObjectsPendingDestructionCount s + 1\<rparr>)
      \<lparr>GObjCurrentPurgeObjectIndex := GObjCurrentPurgeObjectIndex s + 1\<rparr>"
  define e1 where "e1 = (if rdy then [Obj] else [])"
  define p1 where "p1 = (if rdy then [] else [Obj])"
  have s3: "phase_state s3 = phase_state
             (s\<lparr>GObjCurrentPurgeObjectIndex := GObjCurrentPurgeObjectIndex s + 1,
                GGCObjectsPendingDestruction := GGCObjectsPendingDestruction s @ p1,
                GGCObjectsPendingDestructionCount := GGCObjectsPendingDestructionCount s + length p1\<rparr>)"
    "Trace s3 = Trace s @ map ConditionalFinishDestroy e1"
    "GObjCurrentPurgeObjectIndex s3 = GObjCurrentPurgeObjectIndex s + 1"
    "GGCObjectsPendingDestruction s3 = GGCObjectsPendingDestruction s @ p1"
    "GGCObjectsPendingDestructionCount s3 = GGCObjectsPendingDestructionCount s + length p1"
    "mset e1 + mset p1 = {#Obj#}"
    by (simp_all add: s3_def e1_def p1_def phase_state_data log_event_def)
  have unf: "FinishDestroy_loop env u c (item # rest) s =
      (if u \<and> c mod 10 = 0 then
         if TimeUp env (ClockPolls s3) then Inr (True, c + 1, s3\<lparr>ClockPolls := ClockPolls s3 + 1\<rparr>)
         else FinishDestroy_loop env u (c + 1) rest (s3\<lparr>ClockPolls := ClockPolls s3 + 1\<rparr>)
       else FinishDestroy_loop env u (c + 1) rest s3)"
    unfolding item s3_def rdy_def
    by (simp add: query_ready_def poll_time_limit_def Let_def log_event_def)
  have stop: ?case if "s' = s3\<lparr>ClockPolls := x\<rparr>" "u" "b" for x
  proof (rule exI [of _ "Suc 0"], rule exI [of _ e1], rule exI [of _ p1], intro conjI)
    show "phase_state s' = phase_state
             (s\<lparr>GObjCurrentPurgeObjectIndex := GObjCurrentPurgeObjectIndex s + Suc 0,
                GGCObjectsPendingDestruction := GGCObjectsPendingDestruction s @ p1,
                GGCObjectsPendingDestructionCount := GGCObjectsPendingDestructionCount s + length p1\<rparr>)"
      using that s3(1) by simp
    show "Trace s' = Trace s @ map ConditionalFinishDestroy e1" using that s3(2) by simp
    show "mset e1 + mset p1 = mset (objects_of (take (Suc 0) (item # rest)))"
      using s3(6) by (simp add: item)
  qed (use that in simp_all)
  have go: ?case if r: "FinishDestroy_loop env u (c + 1) rest t = Inr (b, c', s')"
    and t: "phase_state t = phase_state s3" "Trace t = Trace s3"
      "GObjCurrentPurgeObjectIndex t = GObjCurrentPurgeObjectIndex s3"
      "GGCObjectsPendingDestruction t = GGCObjectsPendingDestruction s3"
      "GGCObjectsPendingDestructionCount t = GGCObjectsPendingDestructionCount s3" for t
  proof -
    from Cons.IH [OF r] obtain k evs pnd where
      k: "phase_state s' = phase_state
             (t\<lparr>GObjCurrentPurgeObjectIndex := GObjCurrentPurgeObjectIndex t + k,
                GGCObjectsPendingDestruction := GGCObjectsPendingDestruction t @ pnd,
                GGCObjectsPendingDestructionCount := GGCObjectsPendingDestructionCount t + length pnd\<rparr>)"
      "Trace s' = Trace t @ map ConditionalFinishDestroy evs"
      "k \<le> length rest" "mset evs + mset pnd = mset (objects_of (take k rest))"
      "\<not> b \<longrightarrow> k = length rest" "\<not> u \<longrightarrow> \<not> b"
      by blast
    show ?thesis
    proof (rule exI [of _ "Suc k"], rule exI [of _ "e1 @ evs"], rule exI [of _ "p1 @ pnd"], intro conjI)
      show "phase_state s' = phase_state
             (s\<lparr>GObjCurrentPurgeObjectIndex := GObjCurrentPurgeObjectIndex s + Suc k,
                GGCObjectsPendingDestruction := GGCObjectsPendingDestruction s @ p1 @ pnd,
                GGCObjectsPendingDestructionCount := GGCObjectsPendingDestructionCount s + length (p1 @ pnd)\<rparr>)"
        unfolding k(1) t(3,4,5) s3(3,4,5)
        by (simp add: phase_state_data t(1) s3(1) add.assoc)
      show "Trace s' = Trace s @ map ConditionalFinishDestroy (e1 @ evs)"
        using k(2) t(2) s3(2) by simp
      show "mset (e1 @ evs) + mset (p1 @ pnd) = mset (objects_of (take (Suc k) (item # rest)))"
        using k(4) s3(6) by (simp add: item) (metis add.assoc add.commute add_mset_add_single union_mset_add_mset_left)
    qed (use k in simp_all)
  qed
  show ?case
  proof (cases "u \<and> c mod 10 = 0")
    case True
    show ?thesis
    proof (cases "TimeUp env (ClockPolls s3)")
      case up: True
      with Cons.prems True unf have "s' = s3\<lparr>ClockPolls := ClockPolls s3 + 1\<rparr>" "b" by simp_all
      then show ?thesis using True by (intro stop) simp_all
    next
      case False
      with Cons.prems True unf
      have "FinishDestroy_loop env u (c + 1) rest (s3\<lparr>ClockPolls := ClockPolls s3 + 1\<rparr>) = Inr (b, c', s')"
        by simp
      then show ?thesis by (rule go) simp_all
    qed
  next
    case False
    with Cons.prems unf have "FinishDestroy_loop env u (c + 1) rest s3 = Inr (b, c', s')"
      by auto
    then show ?thesis by (rule go) simp_all
  qed
qed

lemma pending_stepI:
  assumes "phase_state s' = phase_state
        (s\<lparr>GGCObjectsPendingDestruction := pl, GGCObjectsPendingDestructionCount := k,
           GWarningTimeOutHasBeenDisplayedGC := w\<rparr>)"
    and "length pl = length (GGCObjectsPendingDestruction s)"
    and "k \<le> GGCObjectsPendingDestructionCount s"
    and "Trace s' = Trace s @ tr"
    and "begin_destroy_calls tr = []" and "destructor_calls tr = []" and "free_calls tr = []"
    and "mset (finish_destroy_calls tr) + mset (take k pl)
        = mset (take (GGCObjectsPendingDestructionCount s) (GGCObjectsPendingDestruction s))"
  shows "pending_step s s'"
proof -
  from assms(4) have tr: "new_events s s' = tr" by (simp add: new_events_def)
  from arg_cong [OF assms(1), of GGCObjectsPendingDestruction]
  have pl: "GGCObjectsPendingDestruction s' = pl" by simp
  from arg_cong [OF assms(1), of GGCObjectsPendingDestructionCount]
  have k: "GGCObjectsPendingDestructionCount s' = k" by simp
  from arg_cong [OF assms(1), of GWarningTimeOutHasBeenDisplayedGC]
  have w: "GWarningTimeOutHasBeenDisplayedGC s' = w" by simp
  show ?thesis
    unfolding pending_step_def tr pl k w using assms by simp
qed

lemma pending_step_refl: "pending_step s s"
  by (rule pending_stepI [where tr = "[]" and pl = "GGCObjectsPendingDestruction s"
        and k = "GGCObjectsPendingDestructionCount s" and w = "GWarningTimeOutHasBeenDisplayedGC s"])
     simp_all

lemma pending_step_trans:
  assumes "pending_step s s'" and "pending_step s' s''"
  shows "pending_step s s''"
proof -
  define t1 where "t1 = new_events s s'"
  define t2 where "t2 = new_events s' s''"
  note a = assms(1) [unfolded pending_step_def, folded t1_def]
  note b = assms(2) [unfolded pending_step_def, folded t2_def]
  from a have a1: "phase_state s' = phase_state
        (s\<lparr>GGCObjectsPendingDestruction := GGCObjectsPendingDestruction s',
           GGCObjectsPendingDestructionCount := GGCObjectsPendingDestructionCount s',
           GWarningTimeOutHasBeenDisplayedGC := GWarningTimeOutHasBeenDisplayedGC s'\<rparr>)"
    by (rule conjunct1)
  from b have b1: "phase_state s'' = phase_state
        (s'\<lparr>GGCObjectsPendingDestruction := GGCObjectsPendingDestruction s'',
           GGCObjectsPendingDestructionCount := GGCObjectsPendingDestructionCount s'',
           GWarningTimeOutHasBeenDisplayedGC := GWarningTimeOutHasBeenDisplayedGC s''\<rparr>)"
    by (rule conjunct1)
  show ?thesis
  proof (rule pending_stepI [where tr = "t1 @ t2"])
    show "phase_state s'' = phase_state
        (s\<lparr>GGCObjectsPendingDestruction := GGCObjectsPendingDestruction s'',
           GGCObjectsPendingDestructionCount := GGCObjectsPendingDestructionCount s'',
           GWarningTimeOutHasBeenDisplayedGC := GWarningTimeOutHasBeenDisplayedGC s''\<rparr>)"
      unfolding b1 unfolding phase_state_data unfolding a1 unfolding phase_state_data by simp
    show "Trace s'' = Trace s @ t1 @ t2" using a b by simp
    show "mset (finish_destroy_calls (t1 @ t2))
          + mset (take (GGCObjectsPendingDestructionCount s'') (GGCObjectsPendingDestruction s''))
        = mset (take (GGCObjectsPendingDestructionCount s) (GGCObjectsPendingDestruction s))"
      using a b by (simp add: calls_append add.assoc)
  qed (use a b in \<open>simp_all add: calls_append begin_destroy_calls_append\<close>)
qed

lemma pending_step_counters:
  assumes "pending_step s t" and "phase_state t' = phase_state t" and "Trace t' = Trace t"
  shows "pending_step s t'"
proof -
  define t1 where "t1 = new_events s t"
  note a = assms(1) [unfolded pending_step_def, folded t1_def]
  from arg_cong [OF assms(2), of GGCObjectsPendingDestruction]
  have pl: "GGCObjectsPendingDestruction t' = GGCObjectsPendingDestruction t" by simp
  from arg_cong [OF assms(2), of GGCObjectsPendingDestructionCount]
  have k: "GGCObjectsPendingDestructionCount t' = GGCObjectsPendingDestructionCount t" by simp
  from arg_cong [OF assms(2), of GWarningTimeOutHasBeenDisplayedGC]
  have w: "GWarningTimeOutHasBeenDisplayedGC t' = GWarningTimeOutHasBeenDisplayedGC t" by simp
  show ?thesis
    by (rule pending_stepI [where tr = t1 and pl = "GGCObjectsPendingDestruction t"
          and k = "GGCObjectsPendingDestructionCount t" and w = "GWarningTimeOutHasBeenDisplayedGC t"])
       (use a assms(2,3) pl k w in simp_all)
qed

lemma swap_remove_mset:
  assumes "cur < k" and "k \<le> length pl"
  shows "add_mset (pl ! cur) (mset (take (k - Suc 0) (pl[cur := pl ! (k - Suc 0)]))) = mset (take k pl)"
proof -
  from assms have "k - 1 < length pl" "k = Suc (k - 1)" by simp_all
  then have k: "take k pl = take (k - 1) pl @ [pl ! (k - 1)]"
    using take_Suc_conv_app_nth [of "k - 1" pl] by simp
  show ?thesis
  proof (cases "cur = k - 1")
    case True
    then show ?thesis by (simp add: k)
  next
    case False
    with assms have c: "cur < k - 1" "cur < length (take (k - 1) pl)" by simp_all
    then have "take (k - 1) (pl[cur := pl ! (k - 1)]) = (take (k - 1) pl)[cur := pl ! (k - 1)]"
      by (simp add: take_update_swap)
    moreover have "(take (k - 1) pl) ! cur = pl ! cur" using c by simp
    moreover from this have "pl ! cur \<in># mset (take (k - 1) pl)"
      using nth_mem [OF c(2)] by simp
    ultimately show ?thesis
      using c(2) by (simp add: k mset_update del: length_take)
  qed
qed

lemma PendingPass_step_pending:
  assumes "cur < GGCObjectsPendingDestructionCount s"
    and "GGCObjectsPendingDestructionCount s \<le> length (GGCObjectsPendingDestruction s)"
    and "PendingPass_step env cur s = (cur', s2)"
  shows "pending_step s s2"
proof (cases "IsReadyForFinishDestroy env (ReadyQueries s) (GGCObjectsPendingDestruction s ! cur)")
  case True
  with assms(3) have s2: "s2 = s\<lparr>ReadyQueries := ReadyQueries s + 1,
      Trace := Trace s @ [ConditionalFinishDestroy (GGCObjectsPendingDestruction s ! cur)],
      GGCObjectsPendingDestruction := (GGCObjectsPendingDestruction s)
         [cur := GGCObjectsPendingDestruction s ! (GGCObjectsPendingDestructionCount s - 1)],
      GGCObjectsPendingDestructionCount := GGCObjectsPendingDestructionCount s - 1\<rparr>"
    by (auto simp: PendingPass_step_def query_ready_def log_event_def Let_def)
  show ?thesis
    by (rule pending_stepI [where tr = "[ConditionalFinishDestroy (GGCObjectsPendingDestruction s ! cur)]"
          and w = "GWarningTimeOutHasBeenDisplayedGC s"
          and pl = "(GGCObjectsPendingDestruction s)
             [cur := GGCObjectsPendingDestruction s ! (GGCObjectsPendingDestructionCount s - 1)]"
          and k = "GGCObjectsPendingDestructionCount s - 1"])
       (use assms(1,2) in \<open>simp_all add: s2 phase_state_data swap_remove_mset\<close>)
next
  case False
  with assms(3) have s2: "s2 = s\<lparr>ReadyQueries := ReadyQueries s + 1\<rparr>"
    by (auto simp: PendingPass_step_def query_ready_def log_event_def Let_def)
  show ?thesis
    by (rule pending_step_counters [OF pending_step_refl]) (simp_all add: s2)
qed

lemma PendingPass_pending:
  "PendingPass env u c cur s = Inr (b, c', s') \<Longrightarrow> pending_step s s' \<and> (\<not> u \<longrightarrow> \<not> b)"
proof (induction "GGCObjectsPendingDestructionCount s - cur" arbitrary: c cur s rule: less_induct)
  case less
  note eq = less.prems(1) [unfolded PendingPass.simps [of env u c cur s]]
  show ?case
  proof (cases "cur < GGCObjectsPendingDestructionCount s
                \<and> GGCObjectsPendingDestructionCount s \<le> length (GGCObjectsPendingDestruction s)")
    case False
    with eq show ?thesis by (auto split: if_splits simp: pending_step_refl)
  next
    case True
    obtain cur' s2 where step: "PendingPass_step env cur s = (cur', s2)"
      by (cases "PendingPass_step env cur s")
    from True step have m: "GGCObjectsPendingDestructionCount s2 - cur'
                              < GGCObjectsPendingDestructionCount s - cur"
      by (intro PendingPass_step_measure) simp_all
    from True step have q2: "pending_step s s2"
      by (intro PendingPass_step_pending [where cur = cur]) simp_all
    have q3: "pending_step s (s2\<lparr>ClockPolls := x\<rparr>)" for x
      by (rule pending_step_counters [OF q2]) simp_all
    show ?thesis
    proof (cases "u \<and> c mod 10 = 0")
      case poll: True
      show ?thesis
      proof (cases "TimeUp env (ClockPolls s2)")
        case True
        with eq \<open>cur < _ \<and> _\<close> step poll have "s' = s2\<lparr>ClockPolls := ClockPolls s2 + 1\<rparr>"
          by (simp add: poll_time_limit_def)
        with q3 poll show ?thesis by simp
      next
        case False
        with eq \<open>cur < _ \<and> _\<close> step poll
        have r: "PendingPass env u (c + 1) cur' (s2\<lparr>ClockPolls := ClockPolls s2 + 1\<rparr>) = Inr (b, c', s')"
          by (simp add: poll_time_limit_def)
        have "pending_step (s2\<lparr>ClockPolls := ClockPolls s2 + 1\<rparr>) s' \<and> (\<not> u \<longrightarrow> \<not> b)"
          by (rule less.hyps [OF _ r]) (use m in simp)
        with q3 show ?thesis by (blast intro: pending_step_trans)
      qed
    next
      case False
      with eq \<open>cur < _ \<and> _\<close> step
      have r: "PendingPass env u (c + 1) cur' s2 = Inr (b, c', s')"
        by auto
      have "pending_step s2 s' \<and> (\<not> u \<longrightarrow> \<not> b)"
        by (rule less.hyps [OF m r])
      with q2 show ?thesis by (blast intro: pending_step_trans)
    qed
  qed
qed

lemma FinishDestroy_stall_check_pending:
  "FinishDestroy_stall_check cfg env fd lst s = Inr (fd', s') \<Longrightarrow> pending_step s s'"
proof -
  assume a: "FinishDestroy_stall_check cfg env fd lst s = Inr (fd', s')"
  define cond where "cond = (RequiresCookedData cfg \<and> lst = GGCObjectsPendingDestructionCount s
                               \<and> fd mod 10 = 0)"
  have "s' = s" if "\<not> cond"
    using a that unfolding FinishDestroy_stall_check_def cond_def Let_def
    by (simp split: if_splits)
  moreover have "s' = s\<lparr>StallPolls := StallPolls s + 1\<rparr>"
    if "cond" "\<not> StallTimeUp env (StallPolls s)
               \<or> (\<not> GEnableTimeoutOnPendingDestroyedObjectGC cfg \<and> GWarningTimeOutHasBeenDisplayedGC s)"
    using a that unfolding FinishDestroy_stall_check_def cond_def Let_def
    by (simp split: if_splits)
  moreover have "s' = s\<lparr>StallPolls := StallPolls s + 1, Trace := Trace s @ [LogWarning],
              GWarningTimeOutHasBeenDisplayedGC := True\<rparr>"
    if "cond" "StallTimeUp env (StallPolls s)" "\<not> GEnableTimeoutOnPendingDestroyedObjectGC cfg"
       "\<not> GWarningTimeOutHasBeenDisplayedGC s"
    using a that unfolding FinishDestroy_stall_check_def cond_def Let_def
    by (simp add: log_event_def split: if_splits)
  moreover have "s' = s\<lparr>StallPolls := StallPolls s + 1,
              ReadyQueries := ReadyQueries s + GGCObjectsPendingDestructionCount s,
              Trace := Trace s @ [LogWarning]\<rparr>"
    if "cond" "StallTimeUp env (StallPolls s)" "GEnableTimeoutOnPendingDestroyedObjectGC cfg"
    using a that unfolding FinishDestroy_stall_check_def cond_def Let_def
    by (simp add: log_event_def split: if_splits)
  ultimately consider "s' = s" | "s' = s\<lparr>StallPolls := StallPolls s + 1\<rparr>"
    | "s' = s\<lparr>StallPolls := StallPolls s + 1, Trace := Trace s @ [LogWarning],
              GWarningTimeOutHasBeenDisplayedGC := True\<rparr>"
    | "s' = s\<lparr>StallPolls := StallPolls s + 1,
              ReadyQueries := ReadyQueries s + GGCObjectsPendingDestructionCount s,
              Trace := Trace s @ [LogWarning]\<rparr>"
    by blast
  then show ?thesis
  proof cases
    case 1
    then show ?thesis by (simp add: pending_step_refl)
  next
    case 2
    show ?thesis by (rule pending_step_counters [OF pending_step_refl]) (simp_all add: 2)
  next
    case 3
    show ?thesis
      by (rule pending_stepI [where tr = "[LogWarning]" and w = True
            and pl = "GGCObjectsPendingDestruction s" and k = "GGCObjectsPendingDestructionCount s"])
         (simp_all add: 3 phase_state_data)
  next
    case 4
    show ?thesis
      by (rule pending_stepI [where tr = "[LogWarning]" and w = "GWarningTimeOutHasBeenDisplayedGC s"
            and pl = "GGCObjectsPendingDestruction s" and k = "GGCObjectsPendingDestructionCount s"])
         (simp_all add: 4 phase_state_data)
  qed
qed

lemma PendingLoop_pending:
  "PendingLoop cfg env u fuel c fd lst s = Inr (b, s') \<Longrightarrow>
     pending_step s s' \<and> (\<not> u \<longrightarrow> \<not> b \<and> GGCObjectsPendingDestructionCount s' = 0)"
proof (induction fuel arbitrary: c fd lst s)
  case 0
  then show ?case by (simp add: pending_step_refl split: if_splits)
next
  case (Suc fuel)
  show ?case
  proof (cases "GGCObjectsPendingDestructionCount s > 0")
    case False
    with Suc.prems show ?thesis by (simp add: pending_step_refl)
  next
    case True
    with Suc.prems obtain b1 ctr s1 where
      pass: "PendingPass env u c 0 s = Inr (b1, ctr, s1)"
      by (auto split: sum.splits)
    from PendingPass_pending [OF pass] have p1: "pending_step s s1" "\<not> u \<longrightarrow> \<not> b1" by simp_all
    show ?thesis
    proof (cases u)
      case True
      with Suc.prems \<open>GGCObjectsPendingDestructionCount s > 0\<close> pass have "s' = s1" by simp
      with p1 True show ?thesis by simp
    next
      case nolimit: False
      show ?thesis
      proof (cases "GGCObjectsPendingDestructionCount s1 > 0")
        case True
        with Suc.prems \<open>GGCObjectsPendingDestructionCount s > 0\<close> pass nolimit
        obtain fd2 s2 where chk: "FinishDestroy_stall_check cfg env fd lst s1 = Inr (fd2, s2)"
          and r: "PendingLoop cfg env u fuel ctr fd2 (GGCObjectsPendingDestructionCount s2) s2 = Inr (b, s')"
          by (auto split: sum.splits)
        from Suc.IH [OF r] FinishDestroy_stall_check_pending [OF chk] p1(1)
        show ?thesis by (blast intro: pending_step_trans)
      next
        case False
        with Suc.prems \<open>GGCObjectsPendingDestructionCount s > 0\<close> pass nolimit
        have r: "PendingLoop cfg env u fuel ctr fd (GGCObjectsPendingDestructionCount s1) s1 = Inr (b, s')"
          by simp
        from Suc.IH [OF r] p1(1)
        show ?thesis by (blast intro: pending_step_trans)
      qed
    qed
  qed
qed

lemma phase_state_eqD:
  assumes "phase_state t = phase_state s"
  shows "GAsyncPurge t = GAsyncPurge s" "GUnreachableObjects t = GUnreachableObjects s"
    "GObjCurrentPurgeObjectIndex t = GObjCurrentPurgeObjectIndex s"
    "GUnrechableObjectIndex t = GUnrechableObjectIndex s"
    "GGCObjectsPendingDestruction t = GGCObjectsPendingDestruction s"
    "GGCObjectsPendingDestructionCount t = GGCObjectsPendingDestructionCount s"
    "GObjPurgeIsRequired t = GObjPurgeIsRequired s"
    "GObjIncrementalPurgeIsInProgress t = GObjIncrementalPurgeIsInProgress s"
    "GObjFinishDestroyHasBeenRoutedToAllObjects t = GObjFinishDestroyHasBeenRoutedToAllObjects s"
    "GObjCurrentPurgeObjectIndexNeedsReset t = GObjCurrentPurgeObjectIndexNeedsReset s"
    "GWarningTimeOutHasBeenDisplayedGC t = GWarningTimeOutHasBeenDisplayedGC s"
    "GIsGarbageCollecting t = GIsGarbageCollecting s"
    "GExitPurge t = GExitPurge s"
  using arg_cong [OF assms, of GAsyncPurge] arg_cong [OF assms, of GUnreachableObjects]
    arg_cong [OF assms, of GObjCurrentPurgeObjectIndex] arg_cong [OF assms, of GUnrechableObjectIndex]
    arg_cong [OF assms, of GGCObjectsPendingDestruction]
    arg_cong [OF assms, of GGCObjectsPendingDestructionCount]
    arg_cong [OF assms, of GObjPurgeIsRequired]
    arg_cong [OF assms, of GObjIncrementalPurgeIsInProgress]
    arg_cong [OF assms, of GObjFinishDestroyHasBeenRoutedToAllObjects]
    arg_cong [OF assms, of GObjCurrentPurgeObjectIndexNeedsReset]
    arg_cong [OF assms, of GWarningTimeOutHasBeenDisplayedGC]
    arg_cong [OF assms, of GIsGarbageCollecting]
    arg_cong [OF assms, of GExitPurge]
  by simp_all

lemma destroy_events_simps [simp]:
  "destroy_events [] = []"
  "destroy_events (Obj # objs) = Destructor Obj # FreeUObject Obj # destroy_events objs"
  by (simp_all add: destroy_events_def)

lemma calls_destroy_events [simp]:
  "finish_destroy_calls (destroy_events objs) = []"
  "begin_destroy_calls (destroy_events objs) = []"
  "destructor_calls (destroy_events objs) = objs"
  "free_calls (destroy_events objs) = objs"
  by (simp_all add: destroy_events_def)

lemma destroyed_zero:
  "d = ObjCurrentPurgeObjectIndex (GAsyncPurge s) \<Longrightarrow> destroyed d 0 s = s"
  by (simp add: destroyed_def)

lemma destroyed_Suc:
  assumes "d < length (GUnreachableObjects s)" and "d = ObjCurrentPurgeObjectIndex (GAsyncPurge s)"
  shows "destroyed (Suc d) k
           (s\<lparr>GUnreachableObjects := (GUnreachableObjects s)[d := None],
              GAsyncPurge := (GAsyncPurge s)
                \<lparr>ObjectsDestroyedSinceLastMarkPhase := ObjectsDestroyedSinceLastMarkPhase (GAsyncPurge s) + 1,
                 ObjCurrentPurgeObjectIndex := d + 1\<rparr>\<rparr>)
         = destroyed d (Suc k) s"
proof -
  from assms(1) have "take (Suc d) ((GUnreachableObjects s)[d := None])
      = take d (GUnreachableObjects s) @ [None]"
    by (simp add: take_Suc_conv_app_nth)
  then show ?thesis
    by (simp add: destroyed_def)
qed

lemma destroyed_Trace: "destroyed d k (s\<lparr>Trace := t\<rparr>) = (destroyed d k s)\<lparr>Trace := t\<rparr>"
  by (simp add: destroyed_def)

lemma TickDestroyObjects_loop_effect:
  assumes "TickDestroyObjects_loop env u c rest s = Inr (b, s')"
    and "rest = drop (ObjCurrentPurgeObjectIndex (GAsyncPurge s)) (GUnreachableObjects s)"
  shows "\<exists>k. phase_state s' = phase_state (destroyed (ObjCurrentPurgeObjectIndex (GAsyncPurge s)) k s)
           \<and> Trace s' = Trace s @ destroy_events (objects_of (take k rest))
           \<and> k \<le> length rest \<and> None \<notin> set (take k rest)
           \<and> (b \<longrightarrow> k = length rest)
           \<and> (\<not> b \<longrightarrow> ObjCurrentPurgeObjectIndex (GAsyncPurge s) + k < length (GUnreachableObjects s))
           \<and> (\<not> u \<longrightarrow> b)"
  using assms
proof (induction rest arbitrary: c s)
  case Nil
  then show ?case
    by (intro exI [of _ 0]) (simp add: destroyed_zero)
next
  case (Cons item rest)
  from Cons.prems obtain Obj where item: "item = Some Obj"
    by (cases item) auto
  define d where "d = ObjCurrentPurgeObjectIndex (GAsyncPurge s)"
  define L where "L = GUnreachableObjects s"
  from Cons.prems(2) have dr: "drop d L = item # rest"
    unfolding d_def L_def by simp
  then have dL: "d < length L"
    by (cases "d < length L") simp_all
  have "tl (drop d L) = drop (Suc d) L" by (simp add: drop_Suc tl_drop)
  with dr have rest: "rest = drop (Suc d) L" by simp
  define s2 where "s2 = s\<lparr>Trace := Trace s @ [Destructor Obj, FreeUObject Obj],
      GUnreachableObjects := L[d := None],
      GAsyncPurge := (GAsyncPurge s)
        \<lparr>ObjectsDestroyedSinceLastMarkPhase := ObjectsDestroyedSinceLastMarkPhase (GAsyncPurge s) + 1,
         ObjCurrentPurgeObjectIndex := d + 1\<rparr>\<rparr>"
  have s2: "ObjCurrentPurgeObjectIndex (GAsyncPurge s2) = Suc d"
    "GUnreachableObjects s2 = L[d := None]"
    "Trace s2 = Trace s @ [Destructor Obj, FreeUObject Obj]"
    by (simp_all add: s2_def)
  have s2d: "phase_state (destroyed (Suc d) k s2) = phase_state (destroyed d (Suc k) s)" for k
  proof -
    have "s2 = (s\<lparr>GUnreachableObjects := (GUnreachableObjects s)[d := None],
              GAsyncPurge := (GAsyncPurge s)
                \<lparr>ObjectsDestroyedSinceLastMarkPhase := ObjectsDestroyedSinceLastMarkPhase (GAsyncPurge s) + 1,
                 ObjCurrentPurgeObjectIndex := d + 1\<rparr>\<rparr>)
              \<lparr>Trace := Trace s @ [Destructor Obj, FreeUObject Obj]\<rparr>"
      unfolding s2_def L_def by simp
    then have "destroyed (Suc d) k s2
        = (destroyed d (Suc k) s)\<lparr>Trace := Trace s @ [Destructor Obj, FreeUObject Obj]\<rparr>"
      using destroyed_Suc [OF dL [unfolded L_def] d_def, of k] by (simp only: destroyed_Trace)
    then show ?thesis by simp
  qed
  have unf: "TickDestroyObjects_loop env u c (item # rest) s =
      (if u \<and> c + 1 = 100 \<and> d + 1 < length L then
         if TimeUp env (ClockPolls s2) then Inr (False, s2\<lparr>ClockPolls := ClockPolls s2 + 1\<rparr>)
         else TickDestroyObjects_loop env u 0 rest (s2\<lparr>ClockPolls := ClockPolls s2 + 1\<rparr>)
       else TickDestroyObjects_loop env u (c + 1) rest s2)"
    unfolding item s2_def d_def L_def
    by (simp add: poll_time_limit_def Let_def log_event_def upd_purge_def)
  have stop: ?case if "s' = s2\<lparr>ClockPolls := x\<rparr>" "u" "\<not> b" "d + 1 < length L" for x
  proof (rule exI [of _ "Suc 0"], intro conjI)
    show "phase_state s' = phase_state (destroyed (ObjCurrentPurgeObjectIndex (GAsyncPurge s)) (Suc 0) s)"
      using that(1) s2d [of 0] by (simp add: destroyed_zero s2 d_def [symmetric])
    show "Trace s' = Trace s @ destroy_events (objects_of (take (Suc 0) (item # rest)))"
      using that(1) s2(3) by (simp add: item)
  qed (use that in \<open>simp_all add: item d_def [symmetric] L_def [symmetric]\<close>)
  have go: ?case if r: "TickDestroyObjects_loop env u c2 rest t = Inr (b, s')"
    and t: "phase_state t = phase_state s2" "Trace t = Trace s2" for t c2
  proof -
    note tf = phase_state_eqD [OF t(1)]
    have "rest = drop (ObjCurrentPurgeObjectIndex (GAsyncPurge t)) (GUnreachableObjects t)"
      unfolding tf s2 rest by simp
    from Cons.IH [OF r this] obtain k where
      k: "phase_state s' = phase_state (destroyed (ObjCurrentPurgeObjectIndex (GAsyncPurge t)) k t)"
      "Trace s' = Trace t @ destroy_events (objects_of (take k rest))"
      "k \<le> length rest" "None \<notin> set (take k rest)" "b \<longrightarrow> k = length rest"
      "\<not> b \<longrightarrow> ObjCurrentPurgeObjectIndex (GAsyncPurge t) + k < length (GUnreachableObjects t)"
      "\<not> u \<longrightarrow> b"
      by blast
    have "phase_state (destroyed (Suc d) k t) = phase_state (destroyed (Suc d) k s2)"
      unfolding destroyed_def phase_state_data t(1) tf ..
    then have ps: "phase_state s' = phase_state (destroyed d (Suc k) s)"
      using k(1) s2d [of k] unfolding tf s2 by simp
    show ?thesis
    proof (rule exI [of _ "Suc k"], intro conjI)
      show "phase_state s' = phase_state (destroyed (ObjCurrentPurgeObjectIndex (GAsyncPurge s)) (Suc k) s)"
        using ps by (simp add: d_def)
      show "Trace s' = Trace s @ destroy_events (objects_of (take (Suc k) (item # rest)))"
        using k(2) t(2) s2(3) by (simp add: item)
      show "\<not> b \<longrightarrow> ObjCurrentPurgeObjectIndex (GAsyncPurge s) + Suc k < length (GUnreachableObjects s)"
        using k(6) unfolding tf s2 by (simp add: d_def L_def)
    qed (use k in \<open>simp_all add: item\<close>)
  qed
  note run = Cons.prems(1) [unfolded unf]
  show ?case
  proof (cases "u \<and> c + 1 = 100 \<and> d + 1 < length L")
    case True
    show ?thesis
    proof (cases "TimeUp env (ClockPolls s2)")
      case up: True
      with run True have "s' = s2\<lparr>ClockPolls := ClockPolls s2 + 1\<rparr>" "\<not> b" by simp_all
      then show ?thesis using True by (intro stop) simp_all
    next
      case False
      with run True
      have "TickDestroyObjects_loop env u 0 rest (s2\<lparr>ClockPolls := ClockPolls s2 + 1\<rparr>) = Inr (b, s')"
        by simp
      then show ?thesis by (rule go) simp_all
    qed
  next
    case False
    with run have "TickDestroyObjects_loop env u (c + 1) rest s2 = Inr (b, s')"
      by (simp split: if_splits)
    then show ?thesis by (rule go) simp_all
  qed
qed

lemma TickDestroyGameThreadObjects_none:
  assumes "NumObjectsToDestroyOnGameThread (GAsyncPurge s) = 0"
    and "NumObjectsDestroyedOnGameThread (GAsyncPurge s) = 0"
  shows "TickDestroyGameThreadObjects env u s = Inr (True, s)"
proof -
  have "TickDestroyGameThreadObjects_loop env u 0 c rest s = (True, s)" for c rest
    by (cases rest) simp_all
  then show ?thesis
    by (simp add: TickDestroyGameThreadObjects_def assms)
qed

lemma TickPurge_loop_finished:
  assumes "TickPurge_loop env u fuel s = Inr s'"
    and "NumObjectsToDestroyOnGameThread (GAsyncPurge s) = 0"
    and "NumObjectsDestroyedOnGameThread (GAsyncPurge s) = 0"
    and "LastUnreachableObjectsCount (GAsyncPurge s) \<le> ObjCurrentPurgeObjectIndex (GAsyncPurge s)"
  shows "s' = s\<lparr>GAsyncPurge := (GAsyncPurge s)\<lparr>FinishedPurgeEvent := True\<rparr>\<rparr>"
proof (cases fuel)
  case 0
  with assms(1) show ?thesis by simp
next
  case (Suc n)
  have "IsFinished (upd_purge (\<lambda>p. p\<lparr>FinishedPurgeEvent := True\<rparr>) s)"
    using assms(2,3,4) by (simp add: IsFinished_def upd_purge_def)
  with assms(1) show ?thesis
    unfolding Suc by (simp add: TickDestroyGameThreadObjects_none assms(2,3) upd_purge_def)
qed

lemma phase_state_ctlD:
  assumes "phase_state t = phase_state s"
  shows "GIsInitialLoad t = GIsInitialLoad s" "GCLockHeld t = GCLockHeld s"
    "GCLockHeldByOther t = GCLockHeldByOther s"
    "GNumAttemptsSinceLastGC t = GNumAttemptsSinceLastGC s"
    "GObjUnhashUnreachableIsInProgress t = GObjUnhashUnreachableIsInProgress s"
  using arg_cong [OF assms, of GIsInitialLoad] arg_cong [OF assms, of GCLockHeld]
    arg_cong [OF assms, of GCLockHeldByOther] arg_cong [OF assms, of GNumAttemptsSinceLastGC]
    arg_cong [OF assms, of GObjUnhashUnreachableIsInProgress]
  by (simp_all add: phase_state_def)

lemma purge_done_eqI:
  assumes "GIsInitialLoad t = GIsInitialLoad s" "GExitPurge t = GExitPurge s"
    "GCLockHeld t = GCLockHeld s" "GCLockHeldByOther t = GCLockHeldByOther s"
    "GNumAttemptsSinceLastGC t = GNumAttemptsSinceLastGC s"
    "GIsGarbageCollecting t = GIsGarbageCollecting s"
    "GObjUnhashUnreachableIsInProgress t = GObjUnhashUnreachableIsInProgress s"
    "length (GUnreachableObjects t) = length (GUnreachableObjects s)"
  shows "purge_done t = purge_done s"
  by (rule gc_state.equality) (simp_all add: purge_done_def phase_state_def Let_def assms)

lemma objects_of_replicate [simp]: "objects_of (replicate n None) = []"
  by (induction n) simp_all

lemma objects_of_split:
  "objects_of (take k xs) @ objects_of (drop k xs) = objects_of xs"
  by (metis append_take_drop_id objects_of_append)

lemma TickPurge_effect:
  assumes run: "TickPurge env fuel u s = Inr s'"
    and A: "NumObjectsToDestroyOnGameThread (GAsyncPurge s) = 0"
      "NumObjectsDestroyedOnGameThread (GAsyncPurge s) = 0"
      "ObjCurrentPurgeObjectIndex (GAsyncPurge s) \<le> length (GUnreachableObjects s)"
  shows "\<exists>k. phase_state s' = phase_state (purge_ticked k s)
           \<and> Trace s' = Trace s @ destroy_events (objects_of
                 (take k (drop (ObjCurrentPurgeObjectIndex (GAsyncPurge s)) (GUnreachableObjects s))))
           \<and> ObjCurrentPurgeObjectIndex (GAsyncPurge s) + k \<le> length (GUnreachableObjects s)
           \<and> None \<notin> set (take k (drop (ObjCurrentPurgeObjectIndex (GAsyncPurge s)) (GUnreachableObjects s)))
           \<and> (\<not> u \<longrightarrow> ObjCurrentPurgeObjectIndex (GAsyncPurge s) + k = length (GUnreachableObjects s))"
proof -
  define d where "d = ObjCurrentPurgeObjectIndex (GAsyncPurge s)"
  define L where "L = GUnreachableObjects s"
  define s1 where "s1 = s\<lparr>GAsyncPurge := (GAsyncPurge s)\<lparr>LastUnreachableObjectsCount := length L\<rparr>\<rparr>"
  have s1: "ObjCurrentPurgeObjectIndex (GAsyncPurge s1) = d" "GUnreachableObjects s1 = L"
    "Trace s1 = Trace s"
    by (simp_all add: s1_def d_def L_def)
  from run obtain b s2 where
    loop: "TickDestroyObjects_loop env u 0 (drop d L) s1 = Inr (b, s2)"
    and rest: "(if b then TickPurge_loop env u fuel s2 else Inr s2) = Inr s'"
    unfolding TickPurge_def Let_def upd_purge_def s1_def [unfolded L_def, symmetric]
    unfolding s1 by (auto split: sum.splits)
  from TickDestroyObjects_loop_effect [OF loop] obtain k where
    k: "phase_state s2 = phase_state (destroyed d k s1)"
    "Trace s2 = Trace s1 @ destroy_events (objects_of (take k (drop d L)))"
    "k \<le> length (drop d L)" "None \<notin> set (take k (drop d L))"
    "b \<longrightarrow> k = length (drop d L)"
    "\<not> b \<longrightarrow> d + k < length L" "\<not> u \<longrightarrow> b"
    unfolding s1 by blast
  note f2 = phase_state_eqD(1) [OF k(1)]
  have A2: "GAsyncPurge s2 = (GAsyncPurge s)
          \<lparr>LastUnreachableObjectsCount := length L,
           ObjectsDestroyedSinceLastMarkPhase := ObjectsDestroyedSinceLastMarkPhase (GAsyncPurge s) + k,
           ObjCurrentPurgeObjectIndex := d + k\<rparr>"
    unfolding f2 by (simp add: destroyed_def s1_def)
  have dk: "d + k \<le> length L" using k(3) A(3) unfolding d_def L_def by simp
  have ps: "phase_state s' = phase_state (purge_ticked k s)"
  proof (cases b)
    case True
    with k(5) A(3) have full: "d + k = length L" unfolding d_def L_def by simp
    from True rest have "TickPurge_loop env u fuel s2 = Inr s'" by simp
    from TickPurge_loop_finished [OF this]
    have "s' = s2\<lparr>GAsyncPurge := (GAsyncPurge s2)\<lparr>FinishedPurgeEvent := True\<rparr>\<rparr>"
      unfolding A2 using A(1,2) full by simp
    then have "phase_state s' = (phase_state s2)\<lparr>GAsyncPurge := (GAsyncPurge s2)\<lparr>FinishedPurgeEvent := True\<rparr>\<rparr>"
      by (simp add: phase_state_data)
    then show ?thesis
      using full
      unfolding A2 k(1) purge_ticked_def Let_def destroyed_def s1_def d_def L_def
      by (simp add: phase_state_data)
  next
    case False
    with k(6) have part: "d + k \<noteq> length L" by simp
    from False rest have "s' = s2" by simp
    with k(1) have "phase_state s' = phase_state (destroyed d k s1)" by simp
    then show ?thesis
      using part
      unfolding purge_ticked_def Let_def destroyed_def s1_def d_def L_def
      by (simp add: phase_state_data)
  qed
  have tr: "Trace s' = Trace s @ destroy_events (objects_of (take k (drop d L)))"
  proof (cases b)
    case True
    with rest have "TickPurge_loop env u fuel s2 = Inr s'" by simp
    from TickPurge_loop_finished [OF this]
    have "s' = s2\<lparr>GAsyncPurge := (GAsyncPurge s2)\<lparr>FinishedPurgeEvent := True\<rparr>\<rparr>"
      unfolding A2 using A(1,2) k(5) True A(3) unfolding d_def L_def by simp
    then show ?thesis using k(2) s1(3) by simp
  next
    case False
    with rest have "s' = s2" by simp
    then show ?thesis using k(2) s1(3) by simp
  qed
  have full: "\<not> u \<longrightarrow> d + k = length L"
    using k(5,7) A(3) unfolding d_def L_def by auto
  show ?thesis
    unfolding d_def [symmetric] L_def [symmetric]
    using ps tr dk k(4) full by (intro exI [of _ k]) simp
qed

lemma objects_of_destroyed:
  assumes "take d L = replicate d None"
  shows "objects_of L = objects_of (take k (drop d L)) @ objects_of (drop (d + k) L)"
proof -
  have "objects_of L = objects_of (take d L) @ objects_of (drop d L)"
    by (simp add: objects_of_split)
  also have "objects_of (drop d L)
      = objects_of (take k (drop d L)) @ objects_of (drop k (drop d L))"
    by (rule objects_of_split [symmetric])
  finally show ?thesis by (simp add: assms add.commute)
qed

lemma DestroyObjects_progress:
  assumes wf: "purge_wf s" and req: "GObjPurgeIsRequired s"
    and routed: "GObjFinishDestroyHasBeenRoutedToAllObjects s"
    and run: "DestroyObjects env fuel u s = Inr (b, s')"
  shows "purge_progress s s' \<and> (b = (\<not> GObjPurgeIsRequired s')) \<and> (\<not> u \<longrightarrow> b)"
proof -
  define L where "L = GUnreachableObjects s"
  define n where "n = length L"
  define A where "A = GAsyncPurge s"
  from wf req routed have w: "\<not> GExitPurge s" "NumObjectsToDestroyOnGameThread A = 0"
    "NumObjectsDestroyedOnGameThread A = 0" "GUnrechableObjectIndex s = n"
    "GObjCurrentPurgeObjectIndex s = n" "GGCObjectsPendingDestruction s = []"
    "GGCObjectsPendingDestructionCount s = 0" "\<not> GWarningTimeOutHasBeenDisplayedGC s"
    by (simp_all add: purge_wf_def Let_def L_def n_def A_def)
  from wf req routed have wr: "None \<notin> set L" "LastUnreachableObjectsCount A \<le> ObjCurrentPurgeObjectIndex A"
    "FinishedPurgeEvent A" if "GObjCurrentPurgeObjectIndexNeedsReset s"
    using that by (simp_all add: purge_wf_def Let_def L_def n_def A_def)
  from wf req routed have wn: "ObjCurrentPurgeObjectIndex A < n"
    "take (ObjCurrentPurgeObjectIndex A) L = replicate (ObjCurrentPurgeObjectIndex A) None"
    "None \<notin> set (drop (ObjCurrentPurgeObjectIndex A) L)"
    "LastUnreachableObjectsCount A = n" "ObjCurrentPurgeObjectIndexOnGameThread A = 0"
    "ObjectsDestroyedSinceLastMarkPhase A = ObjCurrentPurgeObjectIndex A"
    "\<not> FinishedPurgeEvent A" if "\<not> GObjCurrentPurgeObjectIndexNeedsReset s"
    using that by (simp_all add: purge_wf_def Let_def L_def n_def A_def)
  define A1 where "A1 = (if GObjCurrentPurgeObjectIndexNeedsReset s
      then A\<lparr>FinishedPurgeEvent := False, ObjCurrentPurgeObjectIndex := 0,
             ObjectsDestroyedSinceLastMarkPhase := 0, NumObjectsToDestroyOnGameThread := 0,
             NumObjectsDestroyedOnGameThread := 0, ObjCurrentPurgeObjectIndexOnGameThread := 0\<rparr>
      else A)"
  define s1 where "s1 = s\<lparr>GAsyncPurge := A1, GObjCurrentPurgeObjectIndexNeedsReset := False\<rparr>"
  define d where "d = ObjCurrentPurgeObjectIndex A1"
  have A1: "NumObjectsToDestroyOnGameThread A1 = 0" "NumObjectsDestroyedOnGameThread A1 = 0"
    "ObjCurrentPurgeObjectIndexOnGameThread A1 = 0" "ObjectsDestroyedSinceLastMarkPhase A1 = d"
    "\<not> FinishedPurgeEvent A1"
    using w(2,3) wn unfolding A1_def d_def by (simp_all split: if_splits)
  have "d \<le> n \<and> take d L = replicate d None \<and> None \<notin> set (drop d L)"
  proof (cases "GObjCurrentPurgeObjectIndexNeedsReset s")
    case True
    then have "d = 0" unfolding A1_def d_def by simp
    with wr(1) [OF True] show ?thesis by simp
  next
    case False
    then have "d = ObjCurrentPurgeObjectIndex A" unfolding A1_def d_def by simp
    with wn(1,2,3) [OF False] show ?thesis by simp
  qed
  then have dL: "d \<le> n" "take d L = replicate d None" "None \<notin> set (drop d L)"
    by simp_all
  have s1: "GAsyncPurge s1 = A1" "GUnreachableObjects s1 = L" "Trace s1 = Trace s"
    by (simp_all add: s1_def L_def)
  have pre: "(if GObjCurrentPurgeObjectIndexNeedsReset s
            then (case BeginPurge s of
                    Inl e \<Rightarrow> Inl e
                  | Inr s1 \<Rightarrow> Inr (s1\<lparr>GObjCurrentPurgeObjectIndexNeedsReset := False\<rparr>))
            else Inr s) = Inr s1"
  proof (cases "GObjCurrentPurgeObjectIndexNeedsReset s")
    case True
    with wr w(2,3) have "BeginPurge s = Inr (s\<lparr>GAsyncPurge := A1\<rparr>)"
      unfolding BeginPurge_def IsFinished_def upd_purge_def A1_def A_def by simp
    with True show ?thesis by (simp add: s1_def)
  next
    case False
    then have "s1 = s" unfolding s1_def A1_def A_def by simp
    with False show ?thesis by simp
  qed
  obtain s2 where tick: "TickPurge env fuel u s1 = Inr s2"
    using run unfolding DestroyObjects_def pre by (cases "TickPurge env fuel u s1") simp_all
  have fin: "(if IsFinished s2
               then Inr (True,
                         upd_purge (\<lambda>p. p\<lparr>ObjectsDestroyedSinceLastMarkPhase := 0\<rparr>)
                           (s2\<lparr>GObjFinishDestroyHasBeenRoutedToAllObjects := False,
                               GObjPurgeIsRequired := False,
                               GObjCurrentPurgeObjectIndexNeedsReset := True\<rparr>))
               else Inr (False, s2)) = Inr (b, s')"
    using run unfolding DestroyObjects_def pre by (simp add: tick split: if_splits)
  from TickPurge_effect [OF tick] A1(1,2) dL(1) obtain k where
    k: "phase_state s2 = phase_state (purge_ticked k s1)"
    "Trace s2 = Trace s1 @ destroy_events (objects_of (take k (drop d L)))"
    "d + k \<le> n" "\<not> u \<longrightarrow> d + k = n"
    unfolding s1 d_def [symmetric] n_def [symmetric] by blast
  define evs where "evs = objects_of (take k (drop d L))"
  have tr2: "Trace s2 = Trace s @ destroy_events evs"
    using k(2) s1(3) by (simp add: evs_def)
  have L2: "take d L @ replicate k None @ drop (d + k) L = replicate (d + k) None @ drop (d + k) L"
    using dL(2) by (simp add: replicate_add)
  have p2: "phase_state s2 = phase_state
      (s\<lparr>GUnreachableObjects := replicate (d + k) None @ drop (d + k) L,
         GAsyncPurge := A1\<lparr>LastUnreachableObjectsCount := n,
           ObjectsDestroyedSinceLastMarkPhase := d + k,
           ObjCurrentPurgeObjectIndex := d + k,
           FinishedPurgeEvent := (d + k = n)\<rparr>,
         GObjCurrentPurgeObjectIndexNeedsReset := False\<rparr>)"
    unfolding k(1) purge_ticked_def Let_def s1 d_def [symmetric] n_def [symmetric] L2
    unfolding s1_def using A1(4,5) by (simp add: phase_state_data)
  note f2 = phase_state_eqD [OF p2, simplified]
  have fin2: "IsFinished s2 = (d + k = n)"
    unfolding IsFinished_def f2 using A1(1,2) k(3) by auto
  have due: "destroy_due s = evs @ objects_of (drop (d + k) L)"
    unfolding destroy_due_def evs_def L_def [symmetric]
    by (rule objects_of_destroyed [OF dL(2)])
  show ?thesis
  proof (cases "d + k = n")
    case True
    with fin fin2 have b: "b" and s': "s' = upd_purge (\<lambda>p. p\<lparr>ObjectsDestroyedSinceLastMarkPhase := 0\<rparr>)
                           (s2\<lparr>GObjFinishDestroyHasBeenRoutedToAllObjects := False,
                               GObjPurgeIsRequired := False,
                               GObjCurrentPurgeObjectIndexNeedsReset := True\<rparr>)"
      by simp_all
    have Af: "(GAsyncPurge s2)\<lparr>ObjectsDestroyedSinceLastMarkPhase := 0\<rparr> = purge_finished n"
      by (rule FAsyncPurge.equality) (simp_all add: f2(1) A1 purge_finished_def True)
    have p': "phase_state s' = phase_state
      (s\<lparr>GUnreachableObjects := replicate n None,
         GAsyncPurge := purge_finished n,
         GObjFinishDestroyHasBeenRoutedToAllObjects := False,
         GObjPurgeIsRequired := False,
         GObjCurrentPurgeObjectIndexNeedsReset := True\<rparr>)"
      unfolding s' upd_purge_def
      using True by (simp add: phase_state_data p2 Af) (simp add: n_def)
    note f' = phase_state_eqD [OF p', simplified] phase_state_ctlD [OF p', simplified]
    have tr': "Trace s' = Trace s @ destroy_events evs"
      using tr2 by (simp add: s' upd_purge_def)
    have "purge_progress s s'"
    proof (rule purge_progressI [OF _ _ tr'])
      show "purge_wf s'"
        using w by (simp add: purge_wf_def Let_def f' purge_finished_def n_def L_def)
      show "purge_done s' = purge_done s"
        by (rule purge_done_eqI) (simp_all add: f' n_def L_def)
      show "begin_destroy_calls (destroy_events evs) @ begin_destroy_due s' = begin_destroy_due s"
        using w(4) by (simp add: begin_destroy_due_def f' n_def L_def)
      show "mset (finish_destroy_calls (destroy_events evs)) + finish_destroy_due s' = finish_destroy_due s"
        using routed w by (simp add: finish_destroy_due_def f')
      show "destructor_calls (destroy_events evs) @ destroy_due s' = destroy_due s"
        unfolding due using True by (simp add: destroy_due_def f' n_def)
    qed simp
    with b show ?thesis by (simp add: f')
  next
    case False
    with fin fin2 have b: "\<not> b" and s': "s' = s2" by simp_all
    from False k(3,4) have lt: "d + k < n" and u: "u" by auto
    note f' = f2 [folded s'] phase_state_ctlD [OF p2, simplified, folded s']
    have "purge_progress s s'"
    proof (rule purge_progressI [OF _ _ tr2 [folded s']])
      have "set (drop (d + k) L) \<subseteq> set (drop d L)"
        by (simp add: set_drop_subset_set_drop)
      with dL(3) have "None \<notin> set (drop (d + k) L)" by blast
      then show "purge_wf s'"
        using w lt req routed A1 False
        by (simp add: purge_wf_def Let_def f' n_def L_def)
      show "purge_done s' = purge_done s"
        by (rule purge_done_eqI) (use lt in \<open>simp_all add: f' n_def L_def\<close>)
      show "begin_destroy_calls (destroy_events evs) @ begin_destroy_due s' = begin_destroy_due s"
        using w(4) lt by (simp add: begin_destroy_due_def f' n_def L_def)
      show "mset (finish_destroy_calls (destroy_events evs)) + finish_destroy_due s' = finish_destroy_due s"
        using routed w by (simp add: finish_destroy_due_def f')
      show "destructor_calls (destroy_events evs) @ destroy_due s' = destroy_due s"
        unfolding due by (simp add: destroy_due_def f' objects_of_append)
    qed simp
    with b u req show ?thesis by (simp add: f')
  qed
qed

lemma NeedsReset_same:
  "\<not> GObjCurrentPurgeObjectIndexNeedsReset s \<Longrightarrow>
     s\<lparr>GObjCurrentPurgeObjectIndexNeedsReset := False\<rparr> = s"
  by (rule gc_state.equality) simp_all

lemma RouteFinishDestroy_progress:
  assumes wf: "purge_wf s" and req: "GObjPurgeIsRequired s"
    and nr: "\<not> GObjFinishDestroyHasBeenRoutedToAllObjects s"
    and run: "RouteFinishDestroy cfg env fuel u s = Inr (b, s')"
  shows "purge_progress s s' \<and> GObjPurgeIsRequired s'
         \<and> (\<not> u \<longrightarrow> GObjFinishDestroyHasBeenRoutedToAllObjects s' \<and> \<not> b)"
proof -
  define L where "L = GUnreachableObjects s"
  define n where "n = length L"
  define pl where "pl = GGCObjectsPendingDestruction s"
  define cnt where "cnt = GGCObjectsPendingDestructionCount s"
  from wf req nr have w: "\<not> GExitPurge s"
    "NumObjectsToDestroyOnGameThread (GAsyncPurge s) = 0"
    "NumObjectsDestroyedOnGameThread (GAsyncPurge s) = 0" "None \<notin> set L"
    "LastUnreachableObjectsCount (GAsyncPurge s) \<le> ObjCurrentPurgeObjectIndex (GAsyncPurge s)"
    "FinishedPurgeEvent (GAsyncPurge s)"
    by (simp_all add: purge_wf_def Let_def L_def n_def)
  from wf req nr have wr: "pl = []" "cnt = 0" if "GObjCurrentPurgeObjectIndexNeedsReset s"
    using that by (simp_all add: purge_wf_def Let_def L_def n_def pl_def cnt_def)
  from wf req nr have wn: "GObjCurrentPurgeObjectIndex s \<le> n"
    "GObjCurrentPurgeObjectIndex s < n \<longrightarrow> length pl = cnt"
    if "\<not> GObjCurrentPurgeObjectIndexNeedsReset s"
    using that by (simp_all add: purge_wf_def Let_def L_def n_def pl_def cnt_def)
  from run have "\<not> \<not> GUnrechableObjectIndex s \<ge> n"
    unfolding RouteFinishDestroy_def n_def L_def by (auto split: if_splits)
  moreover from wf req nr have "GUnrechableObjectIndex s \<le> n"
    by (simp add: purge_wf_def Let_def L_def n_def split: if_splits)
  ultimately have ui: "GUnrechableObjectIndex s = n" by simp
  define p0 where "p0 = (if GObjCurrentPurgeObjectIndexNeedsReset s then 0
                         else GObjCurrentPurgeObjectIndex s)"
  define s1 where "s1 = s\<lparr>GObjCurrentPurgeObjectIndex := p0,
                           GObjCurrentPurgeObjectIndexNeedsReset := False\<rparr>"
  have s1eq: "(if GObjCurrentPurgeObjectIndexNeedsReset s
                  then s\<lparr>GObjCurrentPurgeObjectIndex := 0,
                         GObjCurrentPurgeObjectIndexNeedsReset := False\<rparr>
                  else s) = s1"
    unfolding s1_def p0_def by (simp add: NeedsReset_same)
  have s1: "GObjCurrentPurgeObjectIndex s1 = p0" "GUnreachableObjects s1 = L" "Trace s1 = Trace s"
    "GGCObjectsPendingDestruction s1 = pl" "GGCObjectsPendingDestructionCount s1 = cnt"
    by (simp_all add: s1_def L_def pl_def cnt_def)
  have p0: "p0 \<le> n" using wn(1) unfolding p0_def by simp
  have len: "length pl = cnt" if "p0 < n"
    using wr wn(2) that unfolding p0_def by (auto split: if_splits)
  obtain b1 ctr s2 where loop: "FinishDestroy_loop env u 0 (drop p0 L) s1 = Inr (b1, ctr, s2)"
    using run ui unfolding RouteFinishDestroy_def Let_def s1eq
    by (cases "FinishDestroy_loop env u 0 (drop p0 L) s1") (auto simp: s1 n_def L_def [symmetric])
  from FinishDestroy_loop_effect [OF loop] obtain k evs pnd where
    k: "phase_state s2 = phase_state
             (s1\<lparr>GObjCurrentPurgeObjectIndex := p0 + k,
                GGCObjectsPendingDestruction := pl @ pnd,
                GGCObjectsPendingDestructionCount := cnt + length pnd\<rparr>)"
    "Trace s2 = Trace s1 @ map ConditionalFinishDestroy evs"
    "k \<le> length (drop p0 L)"
    "mset evs + mset pnd = mset (objects_of (take k (drop p0 L)))"
    "\<not> b1 \<longrightarrow> k = length (drop p0 L)" "\<not> u \<longrightarrow> \<not> b1"
    unfolding s1 by blast
  have p2: "phase_state s2 = phase_state
             (s\<lparr>GObjCurrentPurgeObjectIndexNeedsReset := False,
                GObjCurrentPurgeObjectIndex := p0 + k,
                GGCObjectsPendingDestruction := pl @ pnd,
                GGCObjectsPendingDestructionCount := cnt + length pnd\<rparr>)"
    unfolding k(1) s1_def by (simp add: phase_state_data)
  note f2 = phase_state_eqD [OF p2, simplified] phase_state_ctlD [OF p2, simplified]
  have tr2: "Trace s2 = Trace s @ map ConditionalFinishDestroy evs"
    using k(2) s1(3) by simp
  have kn: "p0 + k \<le> n" using k(3) p0 by (simp add: n_def)
  have pend2: "mset (take (cnt + length pnd) (pl @ pnd)) = mset (take cnt pl) + mset pnd"
  proof (cases "p0 < n")
    case True
    from len [OF this] show ?thesis by simp
  next
    case False
    with k(3) have "k = 0" by (simp add: n_def)
    with k(4) have "pnd = []" by simp
    then show ?thesis by simp
  qed
  have due: "finish_destroy_due s
      = mset evs + (mset (objects_of (drop (p0 + k) L)) + mset (take (cnt + length pnd) (pl @ pnd)))"
  proof -
    have "objects_of (drop p0 L)
        = objects_of (take k (drop p0 L)) @ objects_of (drop k (drop p0 L))"
      by (rule objects_of_split [symmetric])
    then have "mset (objects_of (drop p0 L))
        = mset evs + mset pnd + mset (objects_of (drop (p0 + k) L))"
      using k(4) by (simp add: add.commute)
    then show ?thesis
      unfolding finish_destroy_due_def pend2
      using nr by (simp add: p0_def L_def pl_def cnt_def)
  qed
  have bd: "begin_destroy_due s = []"
    unfolding begin_destroy_due_def ui by (simp add: n_def L_def)
  show ?thesis
  proof (cases "p0 + k \<ge> n")
    case False
    then have lt: "p0 + k < n" by simp
    from run False have s': "s' = s2" and b: "b = b1"
      unfolding RouteFinishDestroy_def Let_def s1eq
      using ui by (simp_all add: s1 loop f2 n_def L_def [symmetric])
    from lt k(5) have "b1" by (auto simp: n_def)
    with k(6) have u: "u" by auto
    from lt have "p0 < n" by simp
    note len = len [OF this]
    note f' = f2 [folded s']
    have "purge_progress s s'"
    proof (rule purge_progressI [OF _ _ tr2 [folded s']])
      show "purge_wf s'"
        using w lt req nr len ui
        by (simp add: purge_wf_def Let_def f' n_def L_def)
      show "purge_done s' = purge_done s"
        by (rule purge_done_eqI) (simp_all add: f')
      show "begin_destroy_calls (map ConditionalFinishDestroy evs) @ begin_destroy_due s' = begin_destroy_due s"
        unfolding bd using ui by (simp add: begin_destroy_due_def f' n_def L_def)
      show "mset (finish_destroy_calls (map ConditionalFinishDestroy evs)) + finish_destroy_due s'
              = finish_destroy_due s"
        unfolding due using nr by (simp add: finish_destroy_due_def f' L_def)
      show "destructor_calls (map ConditionalFinishDestroy evs) @ destroy_due s' = destroy_due s"
        by (simp add: destroy_due_def f')
    qed simp
    with u req show ?thesis by (simp add: f')
  next
    case True
    with kn have full: "p0 + k = n" by simp
    obtain b2 s3 where pend: "PendingLoop cfg env u fuel ctr 0 (cnt + length pnd) s2 = Inr (b2, s3)"
      using run True ui unfolding RouteFinishDestroy_def Let_def s1eq
      by (cases "PendingLoop cfg env u fuel ctr 0 (cnt + length pnd) s2")
         (auto simp: s1 loop f2 n_def L_def [symmetric])
    have fin: "b = (b1 \<or> b2)" "s' = (if GGCObjectsPendingDestructionCount s3 = 0
                           then s3\<lparr>GGCObjectsPendingDestruction := [],
                                   GObjFinishDestroyHasBeenRoutedToAllObjects := True,
                                   GObjCurrentPurgeObjectIndexNeedsReset := True,
                                   GWarningTimeOutHasBeenDisplayedGC := False\<rparr>
                           else s3)"
      using run True ui unfolding RouteFinishDestroy_def Let_def s1eq
      by (simp_all add: s1 loop f2 pend n_def L_def [symmetric])
    from PendingLoop_pending [OF pend]
    have step: "pending_step s2 s3" and nolimit: "\<not> u \<longrightarrow> \<not> b2 \<and> GGCObjectsPendingDestructionCount s3 = 0"
      by simp_all
    define t3 where "t3 = new_events s2 s3"
    define pl3 where "pl3 = GGCObjectsPendingDestruction s3"
    define c3 where "c3 = GGCObjectsPendingDestructionCount s3"
    define w3 where "w3 = GWarningTimeOutHasBeenDisplayedGC s3"
    note st = step [unfolded pending_step_def, folded t3_def pl3_def c3_def w3_def]
    from st have p3: "phase_state s3 = phase_state
        (s2\<lparr>GGCObjectsPendingDestruction := pl3, GGCObjectsPendingDestructionCount := c3,
            GWarningTimeOutHasBeenDisplayedGC := w3\<rparr>)"
      by (rule conjunct1)
    from st have tr3: "Trace s3 = Trace s2 @ t3" and ev3: "begin_destroy_calls t3 = []"
      "destructor_calls t3 = []" "free_calls t3 = []"
      and fd3: "mset (finish_destroy_calls t3) + mset (take c3 pl3)
          = mset (take (cnt + length pnd) (pl @ pnd))"
      by (simp_all add: f2)
    have p3': "phase_state s3 = phase_state
             (s\<lparr>GObjCurrentPurgeObjectIndexNeedsReset := False,
                GObjCurrentPurgeObjectIndex := n,
                GGCObjectsPendingDestruction := pl3,
                GGCObjectsPendingDestructionCount := c3,
                GWarningTimeOutHasBeenDisplayedGC := w3\<rparr>)"
      unfolding p3 phase_state_data p2 full by (simp add: phase_state_data)
    have tr': "Trace s' = Trace s @ map ConditionalFinishDestroy evs @ t3"
      using tr3 tr2 by (simp add: fin(2))
    have calls: "begin_destroy_calls (map ConditionalFinishDestroy evs @ t3) = []"
      "finish_destroy_calls (map ConditionalFinishDestroy evs @ t3) = evs @ finish_destroy_calls t3"
      "destructor_calls (map ConditionalFinishDestroy evs @ t3) = []"
      "free_calls (map ConditionalFinishDestroy evs @ t3) = []"
      using ev3 by (simp_all add: calls_append begin_destroy_calls_append)
    show ?thesis
    proof (cases "c3 = 0")
      case True
      have p': "phase_state s' = phase_state
             (s\<lparr>GObjCurrentPurgeObjectIndexNeedsReset := True,
                GObjCurrentPurgeObjectIndex := n,
                GGCObjectsPendingDestruction := [],
                GGCObjectsPendingDestructionCount := 0,
                GWarningTimeOutHasBeenDisplayedGC := False,
                GObjFinishDestroyHasBeenRoutedToAllObjects := True\<rparr>)"
        using True unfolding fin(2) c3_def [symmetric]
        by (simp add: phase_state_data p3')
      note f' = phase_state_eqD [OF p', simplified] phase_state_ctlD [OF p', simplified]
      have "purge_progress s s'"
      proof (rule purge_progressI [OF _ _ tr'])
        show "purge_wf s'"
          using w req ui
          by (simp add: purge_wf_def Let_def f' n_def L_def)
        show "purge_done s' = purge_done s"
          by (rule purge_done_eqI) (simp_all add: f')
        show "begin_destroy_calls (map ConditionalFinishDestroy evs @ t3) @ begin_destroy_due s'
                = begin_destroy_due s"
          unfolding bd calls using ui by (simp add: begin_destroy_due_def f' n_def L_def)
        show "mset (finish_destroy_calls (map ConditionalFinishDestroy evs @ t3)) + finish_destroy_due s'
                = finish_destroy_due s"
          unfolding due calls using fd3 True full
          by (simp add: finish_destroy_due_def f' n_def)
        show "destructor_calls (map ConditionalFinishDestroy evs @ t3) @ destroy_due s' = destroy_due s"
          unfolding calls by (simp add: destroy_due_def f')
        show "free_calls (map ConditionalFinishDestroy evs @ t3)
                = destructor_calls (map ConditionalFinishDestroy evs @ t3)"
          unfolding calls ..
      qed
      moreover have "\<not> u \<longrightarrow> \<not> b" using fin(1) nolimit k(6) by simp
      ultimately show ?thesis using req by (simp add: f')
    next
      case False
      then have s': "s' = s3" unfolding fin(2) c3_def by simp
      from False nolimit have u: "u" by (auto simp: c3_def)
      note f' = phase_state_eqD [OF p3', simplified, folded s']
        phase_state_ctlD [OF p3', simplified, folded s']
      have "purge_progress s s'"
      proof (rule purge_progressI [OF _ _ tr'])
        show "purge_wf s'"
          using w req nr ui
          by (simp add: purge_wf_def Let_def f' n_def L_def)
        show "purge_done s' = purge_done s"
          by (rule purge_done_eqI) (simp_all add: f')
        show "begin_destroy_calls (map ConditionalFinishDestroy evs @ t3) @ begin_destroy_due s'
                = begin_destroy_due s"
          unfolding bd calls using ui by (simp add: begin_destroy_due_def f' n_def L_def)
        show "mset (finish_destroy_calls (map ConditionalFinishDestroy evs @ t3)) + finish_destroy_due s'
                = finish_destroy_due s"
          unfolding due calls using fd3 full nr
          by (simp add: finish_destroy_due_def f' n_def L_def)
        show "destructor_calls (map ConditionalFinishDestroy evs @ t3) @ destroy_due s' = destroy_due s"
          unfolding calls by (simp add: destroy_due_def f')
        show "free_calls (map ConditionalFinishDestroy evs @ t3)
                = destructor_calls (map ConditionalFinishDestroy evs @ t3)"
          unfolding calls ..
      qed
      with u req show ?thesis by (simp add: f')
    qed
  qed
qed

lemma purge_done_eqD:
  assumes "purge_done t = purge_done s"
  shows "GIsInitialLoad t = GIsInitialLoad s" "GExitPurge t = GExitPurge s"
    "GCLockHeld t = GCLockHeld s" "GCLockHeldByOther t = GCLockHeldByOther s"
    "GNumAttemptsSinceLastGC t = GNumAttemptsSinceLastGC s"
    "GIsGarbageCollecting t = GIsGarbageCollecting s"
    "GObjUnhashUnreachableIsInProgress t = GObjUnhashUnreachableIsInProgress s"
    "length (GUnreachableObjects t) = length (GUnreachableObjects s)"
  using arg_cong [OF assms, of GIsInitialLoad] arg_cong [OF assms, of GExitPurge]
    arg_cong [OF assms, of GCLockHeld] arg_cong [OF assms, of GCLockHeldByOther]
    arg_cong [OF assms, of GNumAttemptsSinceLastGC] arg_cong [OF assms, of GIsGarbageCollecting]
    arg_cong [OF assms, of GObjUnhashUnreachableIsInProgress]
    arg_cong [OF assms, of GObjCurrentPurgeObjectIndex]
  by (simp_all add: purge_done_def phase_state_def Let_def)

lemma purge_progress_flags:
  assumes pr: "purge_progress s0 t"
    and s0: "s0 = s\<lparr>GObjIncrementalPurgeIsInProgress := y, GIsGarbageCollecting := x\<rparr>"
    and t': "phase_state t' = phase_state
               (t\<lparr>GIsGarbageCollecting := GIsGarbageCollecting s,
                  GObjIncrementalPurgeIsInProgress := z\<rparr>)"
    and tr: "Trace t' = Trace t @ tr"
    and calls: "begin_destroy_calls tr = []" "finish_destroy_calls tr = []"
      "destructor_calls tr = []" "free_calls tr = []"
  shows "purge_progress s t'"
proof -
  define t1 where "t1 = new_events s0 t"
  note a = pr [unfolded purge_progress_def, folded t1_def]
  from a have dn: "purge_done t = purge_done s0" by simp
  note d = purge_done_eqD [OF dn, unfolded s0, simplified]
  note f = phase_state_eqD [OF t', simplified] phase_state_ctlD [OF t', simplified]
  have "purge_wf t' = purge_wf (t\<lparr>GIsGarbageCollecting := GIsGarbageCollecting s,
                  GObjIncrementalPurgeIsInProgress := z\<rparr>)"
    by (metis purge_wf_phase t')
  then have wf: "purge_wf t' = purge_wf t" by (simp add: purge_wf_def)
  have due: "begin_destroy_due t' = begin_destroy_due t"
    "finish_destroy_due t' = finish_destroy_due t" "destroy_due t' = destroy_due t"
    by (simp_all add: begin_destroy_due_def finish_destroy_due_def destroy_due_def f)
  have due0: "begin_destroy_due s0 = begin_destroy_due s"
    "finish_destroy_due s0 = finish_destroy_due s" "destroy_due s0 = destroy_due s"
    by (simp_all add: begin_destroy_due_def finish_destroy_due_def destroy_due_def s0)
  have tr0: "Trace s0 = Trace s" by (simp add: s0)
  show ?thesis
  proof (rule purge_progressI [where tr = "t1 @ tr"])
    show "purge_wf t'" using a wf by simp
    show "purge_done t' = purge_done s"
      by (rule purge_done_eqI) (simp_all add: f d)
    show "Trace t' = Trace s @ t1 @ tr" using a tr tr0 by simp
    show "begin_destroy_calls (t1 @ tr) @ begin_destroy_due t' = begin_destroy_due s"
      using a calls due due0 by (simp add: begin_destroy_calls_append)
    show "mset (finish_destroy_calls (t1 @ tr)) + finish_destroy_due t' = finish_destroy_due s"
      using a calls due due0 by (simp add: calls_append)
    show "destructor_calls (t1 @ tr) @ destroy_due t' = destroy_due s"
      using a calls due due0 by (simp add: calls_append)
    show "free_calls (t1 @ tr) = destructor_calls (t1 @ tr)"
      using a calls by (simp add: calls_append)
  qed
qed

lemma purge_wf_flags:
  "purge_wf (s\<lparr>GObjIncrementalPurgeIsInProgress := y, GIsGarbageCollecting := x\<rparr>) = purge_wf s"
  "purge_wf (s\<lparr>GIsGarbageCollecting := x\<rparr>) = purge_wf s"
  "purge_wf (s\<lparr>GObjIncrementalPurgeIsInProgress := y\<rparr>) = purge_wf s"
  by (simp_all add: purge_wf_def)

lemma IncrementalDestroyGarbage_progress:
  assumes wf: "purge_wf s" and req: "GObjPurgeIsRequired s"
    and run: "IncrementalDestroyGarbage cfg env fuel u s = Inr (b, s')"
  shows "purge_progress s s' \<and> (b = (\<not> GObjPurgeIsRequired s')) \<and> (\<not> u \<longrightarrow> b)"
proof -
  define s0 where "s0 = s\<lparr>GIsGarbageCollecting := True\<rparr>"
  have s0: "s0 = s\<lparr>GObjIncrementalPurgeIsInProgress := GObjIncrementalPurgeIsInProgress s,
                   GIsGarbageCollecting := True\<rparr>"
    by (simp add: s0_def)
  have wf0: "purge_wf s0" and req0: "GObjPurgeIsRequired s0"
    using wf req by (simp_all add: s0_def purge_wf_flags)
  have rt0: "GObjFinishDestroyHasBeenRoutedToAllObjects s0 = GObjFinishDestroyHasBeenRoutedToAllObjects s"
    by (simp add: s0_def)
  define R where "R = (if \<not> GObjFinishDestroyHasBeenRoutedToAllObjects s0
               then RouteFinishDestroy cfg env fuel u s0 else Inr (False, s0))"
  obtain b1 s1 where r1: "R = Inr (b1, s1)"
    using run unfolding IncrementalDestroyGarbage_def Let_def s0_def [symmetric] R_def [symmetric]
    by (cases R) auto
  have p1: "purge_progress s0 s1 \<and> GObjPurgeIsRequired s1
            \<and> (\<not> u \<longrightarrow> GObjFinishDestroyHasBeenRoutedToAllObjects s1 \<and> \<not> b1)"
  proof (cases "GObjFinishDestroyHasBeenRoutedToAllObjects s0")
    case True
    with r1 have "s1 = s0" "\<not> b1" unfolding R_def by simp_all
    with True wf0 req0 show ?thesis by (simp add: purge_progress_refl)
  next
    case False
    with r1 have "RouteFinishDestroy cfg env fuel u s0 = Inr (b1, s1)" unfolding R_def by simp
    from RouteFinishDestroy_progress [OF wf0 req0 False this] show ?thesis .
  qed
  then have wf1: "purge_wf s1" by (simp add: purge_progress_def)
  define D where "D = (if GObjFinishDestroyHasBeenRoutedToAllObjects s1 \<and> \<not> b1
                    then DestroyObjects env fuel u s1 else Inr (False, s1))"
  obtain bc s2 where r2: "D = Inr (bc, s2)"
    using run unfolding IncrementalDestroyGarbage_def Let_def s0_def [symmetric] R_def [symmetric] r1
    by (cases D) (auto simp: D_def)
  have fin: "b = bc" "s' = s2\<lparr>GIsGarbageCollecting := GIsGarbageCollecting s\<rparr>"
    using run unfolding IncrementalDestroyGarbage_def Let_def s0_def [symmetric] R_def [symmetric] r1
    by (simp_all add: D_def [symmetric] r2)
  have p2: "purge_progress s1 s2 \<and> (bc = (\<not> GObjPurgeIsRequired s2)) \<and> (\<not> u \<longrightarrow> bc)"
  proof (cases "GObjFinishDestroyHasBeenRoutedToAllObjects s1 \<and> \<not> b1")
    case True
    with r2 have "DestroyObjects env fuel u s1 = Inr (bc, s2)" unfolding D_def by simp
    from DestroyObjects_progress [OF wf1 _ _ this] p1 True show ?thesis by blast
  next
    case False
    with r2 have "s2 = s1" "\<not> bc" unfolding D_def by simp_all
    with False wf1 p1 show ?thesis by (auto simp: purge_progress_refl)
  qed
  from p1 p2 have "purge_progress s0 s2" by (blast intro: purge_progress_trans)
  then have "purge_progress s s'"
    by (rule purge_progress_flags [OF _ s0, where tr = "[]" and z = "GObjIncrementalPurgeIsInProgress s2"])
       (simp_all add: fin(2) phase_state_data)
  moreover have "GObjPurgeIsRequired s' = GObjPurgeIsRequired s2" by (simp add: fin(2))
  ultimately show ?thesis using p2 fin(1) by blast
qed

lemma Unhash_progress:
  assumes wf: "purge_wf s" and req: "GObjPurgeIsRequired s"
    and lt: "GUnrechableObjectIndex s < length (GUnreachableObjects s)"
    and run: "UnhashUnreachableObjects env u s = Inr (b, s')"
  shows "purge_progress s s' \<and> GObjPurgeIsRequired s' \<and> (\<not> u \<longrightarrow> \<not> b)"
proof -
  define L where "L = GUnreachableObjects s"
  define i where "i = GUnrechableObjectIndex s"
  from wf req lt have nr: "\<not> GObjFinishDestroyHasBeenRoutedToAllObjects s"
    by (auto simp: purge_wf_def Let_def split: if_splits)
  with wf req lt have w: "None \<notin> set L" "GObjCurrentPurgeObjectIndexNeedsReset s"
    by (auto simp: purge_wf_def Let_def L_def split: if_splits)
  have "None \<notin> set (drop i L)" using w(1) by (meson in_set_dropD)
  from Unhash_call [OF this [unfolded i_def L_def], of env u] run obtain k where
    k: "k \<le> length L - i"
    "s' = s\<lparr>GUnrechableObjectIndex := i + k,
            Trace := Trace s @ [Broadcast PreGarbageCollectConditionalBeginDestroy]
                      @ map ConditionalBeginDestroy (objects_of (take k (drop i L)))
                      @ [Broadcast PostGarbageCollectConditionalBeginDestroy],
            ClockPolls := ClockPolls s + (if u then (k + 9) div 10 else 0)\<rparr>"
    "u \<or> \<not> b"
    unfolding i_def [symmetric] L_def [symmetric] by auto
  define tr where "tr = [Broadcast PreGarbageCollectConditionalBeginDestroy]
                      @ map ConditionalBeginDestroy (objects_of (take k (drop i L)))
                      @ [Broadcast PostGarbageCollectConditionalBeginDestroy]"
  have calls: "begin_destroy_calls tr = objects_of (take k (drop i L))"
    "finish_destroy_calls tr = []" "destructor_calls tr = []" "free_calls tr = []"
    by (simp_all add: tr_def calls_append begin_destroy_calls_append begin_destroy_calls_map)
  have p': "phase_state s' = phase_state (s\<lparr>GUnrechableObjectIndex := i + k\<rparr>)"
    by (simp add: k(2) phase_state_data)
  note f' = phase_state_eqD [OF p', simplified] phase_state_ctlD [OF p', simplified]
  have "purge_progress s s'"
  proof (rule purge_progressI [where tr = tr])
    show "purge_wf s'"
      using wf req nr w(2) k(1) lt
      by (simp add: purge_wf_def Let_def f' L_def i_def)
    show "purge_done s' = purge_done s"
      by (rule purge_done_eqI) (simp_all add: f')
    show "Trace s' = Trace s @ tr" by (simp add: k(2) tr_def)
    have "objects_of (drop i L)
        = objects_of (take k (drop i L)) @ objects_of (drop k (drop i L))"
      by (rule objects_of_split [symmetric])
    then show "begin_destroy_calls tr @ begin_destroy_due s' = begin_destroy_due s"
      unfolding calls by (simp add: begin_destroy_due_def f' L_def i_def add.commute)
    show "mset (finish_destroy_calls tr) + finish_destroy_due s' = finish_destroy_due s"
      unfolding calls by (simp add: finish_destroy_due_def f')
    show "destructor_calls tr @ destroy_due s' = destroy_due s"
      unfolding calls by (simp add: destroy_due_def f')
    show "free_calls tr = destructor_calls tr" unfolding calls ..
  qed
  with k(3) req show ?thesis by (auto simp: f')
qed

lemma purge_complete:
  assumes wf: "purge_wf s" and np: "\<not> IsIncrementalPurgePending s"
  shows "phase_state s = purge_done s" "begin_destroy_due s = []"
    "finish_destroy_due s = {#}" "destroy_due s = []"
proof -
  from np have f: "\<not> GObjPurgeIsRequired s" "\<not> GObjIncrementalPurgeIsInProgress s"
    by (simp_all add: IsIncrementalPurgePending_def)
  note w = wf [unfolded purge_wf_def Let_def, simplified f, simplified]
  show "phase_state s = purge_done s"
    by (rule gc_state.equality) (use w f in \<open>simp_all add: purge_done_def phase_state_def Let_def\<close>)
  define n where "n = length (GUnreachableObjects s)"
  from w have L: "GUnreachableObjects s = replicate n None"
    unfolding n_def by simp
  show "begin_destroy_due s = []"
    unfolding begin_destroy_due_def L by simp
  show "finish_destroy_due s = {#}"
    unfolding finish_destroy_due_def L using w by simp
  show "destroy_due s = []"
    unfolding destroy_due_def L by simp
qed

lemma IncrementalPurgeGarbage_unfold:
  assumes "\<not> GExitPurge s"
  shows "IncrementalPurgeGarbage cfg env fuel u s =
     (if \<not> GObjPurgeIsRequired s \<and> \<not> GObjIncrementalPurgeIsInProgress s then Inr s
      else if \<not> GObjPurgeIsRequired s
      then Inr ((log_event MemoryTrim (s\<lparr>GObjIncrementalPurgeIsInProgress := True\<rparr>))
                  \<lparr>GObjIncrementalPurgeIsInProgress := False\<rparr>)
      else
        case (if GUnrechableObjectIndex s < length (GUnreachableObjects s)
              then UnhashUnreachableObjects env u
                     (s\<lparr>GObjIncrementalPurgeIsInProgress := True, GIsGarbageCollecting := True\<rparr>)
              else Inr (False, s\<lparr>GObjIncrementalPurgeIsInProgress := True, GIsGarbageCollecting := True\<rparr>)) of
          Inl e \<Rightarrow> Inl e
        | Inr (bTimeLimitReached, s3) \<Rightarrow>
            (case (if \<not> bTimeLimitReached
                   then IncrementalDestroyGarbage cfg env fuel u s3
                   else Inr (False, s3)) of
               Inl e \<Rightarrow> Inl e
             | Inr (bCompleted, s4) \<Rightarrow>
                 Inr ((if bCompleted then log_event (Broadcast PostPurgeGarbage) s4 else s4)
                        \<lparr>GIsGarbageCollecting := GIsGarbageCollecting s,
                         GObjIncrementalPurgeIsInProgress :=
                           (if bCompleted \<and> \<not> u then False
                            else GObjIncrementalPurgeIsInProgress
                                   (if bCompleted then log_event (Broadcast PostPurgeGarbage) s4 else s4))\<rparr>)))"
  using assms
  by (auto simp: IncrementalPurgeGarbage_def Let_def split: sum.splits prod.splits)

lemma IncrementalPurgeGarbage_progress:
  assumes wf: "purge_wf s" and run: "IncrementalPurgeGarbage cfg env fuel u s = Inr s'"
  shows "purge_progress s s' \<and> (\<not> u \<longrightarrow> \<not> IsIncrementalPurgePending s')"
proof -
  from wf have ne: "\<not> GExitPurge s" by (simp add: purge_wf_def Let_def)
  note run' = run [unfolded IncrementalPurgeGarbage_unfold [OF ne]]
  have same: "s = s\<lparr>GObjIncrementalPurgeIsInProgress := GObjIncrementalPurgeIsInProgress s,
                    GIsGarbageCollecting := GIsGarbageCollecting s\<rparr>"
    by simp
  show ?thesis
  proof (cases "GObjPurgeIsRequired s")
    case False
    show ?thesis
    proof (cases "GObjIncrementalPurgeIsInProgress s")
      case ip: False
      with False run' have "s' = s" by simp
      with wf False ip show ?thesis
        by (simp add: purge_progress_refl IsIncrementalPurgePending_def)
    next
      case ip: True
      with False run' have s': "s' = (log_event MemoryTrim (s\<lparr>GObjIncrementalPurgeIsInProgress := True\<rparr>))
                  \<lparr>GObjIncrementalPurgeIsInProgress := False\<rparr>"
        by simp
      have "purge_progress s s'"
        by (rule purge_progress_flags [OF purge_progress_refl [OF wf] same,
              where tr = "[MemoryTrim]" and z = False])
           (simp_all add: s' phase_state_data log_event_def)
      moreover have "\<not> IsIncrementalPurgePending s'"
        using False by (simp add: s' IsIncrementalPurgePending_def log_event_def)
      ultimately show ?thesis by simp
    qed
  next
    case req: True
    define s2 where "s2 = s\<lparr>GObjIncrementalPurgeIsInProgress := True, GIsGarbageCollecting := True\<rparr>"
    have wf2: "purge_wf s2" and req2: "GObjPurgeIsRequired s2"
      using wf req by (simp_all add: s2_def purge_wf_flags)
    have s2f: "GUnrechableObjectIndex s2 = GUnrechableObjectIndex s"
      "GUnreachableObjects s2 = GUnreachableObjects s"
      by (simp_all add: s2_def)
    define U where "U = (if GUnrechableObjectIndex s < length (GUnreachableObjects s)
              then UnhashUnreachableObjects env u s2 else Inr (False, s2))"
    note run2 = run' [folded s2_def, folded U_def]
    obtain bT s3 where r1: "U = Inr (bT, s3)"
      using run2 req by (cases U) auto
    have p1: "purge_progress s2 s3 \<and> GObjPurgeIsRequired s3 \<and> (\<not> u \<longrightarrow> \<not> bT)"
    proof (cases "GUnrechableObjectIndex s < length (GUnreachableObjects s)")
      case True
      with r1 have "UnhashUnreachableObjects env u s2 = Inr (bT, s3)" unfolding U_def by simp
      from Unhash_progress [OF wf2 req2 _ this] True show ?thesis by (simp add: s2f)
    next
      case False
      with r1 have "s3 = s2" "\<not> bT" unfolding U_def by simp_all
      with wf2 req2 show ?thesis by (simp add: purge_progress_refl)
    qed
    then have wf3: "purge_wf s3" by (simp add: purge_progress_def)
    define D where "D = (if \<not> bT then IncrementalDestroyGarbage cfg env fuel u s3 else Inr (False, s3))"
    obtain bc s4 where r2: "D = Inr (bc, s4)"
      using run2 req unfolding r1 by (cases D) (auto simp: D_def)
    have s': "s' = (if bc then log_event (Broadcast PostPurgeGarbage) s4 else s4)
                        \<lparr>GIsGarbageCollecting := GIsGarbageCollecting s,
                         GObjIncrementalPurgeIsInProgress :=
                           (if bc \<and> \<not> u then False
                            else GObjIncrementalPurgeIsInProgress
                                   (if bc then log_event (Broadcast PostPurgeGarbage) s4 else s4))\<rparr>"
      using run2 req unfolding r1 by (simp add: D_def [symmetric] r2)
    have p2: "purge_progress s3 s4 \<and> (bc = (\<not> GObjPurgeIsRequired s4)) \<and> (\<not> u \<longrightarrow> bc)"
    proof (cases bT)
      case False
      with r2 have "IncrementalDestroyGarbage cfg env fuel u s3 = Inr (bc, s4)" unfolding D_def by simp
      from IncrementalDestroyGarbage_progress [OF wf3 _ this] p1 show ?thesis by blast
    next
      case True
      with r2 have "s4 = s3" "\<not> bc" unfolding D_def by simp_all
      with True wf3 p1 show ?thesis by (auto simp: purge_progress_refl)
    qed
    from p1 p2 have p24: "purge_progress s2 s4" by (blast intro: purge_progress_trans)
    have "purge_progress s s'"
      by (rule purge_progress_flags [OF p24 s2_def,
            where tr = "if bc then [Broadcast PostPurgeGarbage] else []"
              and z = "if bc \<and> \<not> u then False else GObjIncrementalPurgeIsInProgress s4"])
         (simp_all add: s' phase_state_data log_event_def)
    moreover have "\<not> IsIncrementalPurgePending s'" if "\<not> u"
    proof -
      from that p2 have "bc" "\<not> GObjPurgeIsRequired s4" by blast+
      with that show ?thesis
        by (simp add: s' IsIncrementalPurgePending_def log_event_def)
    qed
    ultimately show ?thesis by blast
  qed
qed

lemma IncrementalPurge_sliced_progress:
  "purge_wf s \<Longrightarrow> IncrementalPurge_sliced cfg calls s = Inr s' \<Longrightarrow> purge_progress s s'"
proof (induction calls arbitrary: s)
  case Nil
  then show ?case by (simp add: purge_progress_refl)
next
  case (Cons call calls)
  obtain env fuel where call: "call = (env, fuel)" by (cases call)
  show ?case
  proof (cases "IsIncrementalPurgePending s")
    case False
    with Cons.prems show ?thesis by (simp add: call purge_progress_refl)
  next
    case True
    with Cons.prems(2) obtain t where
      t: "IncrementalPurgeGarbage cfg env fuel True s = Inr t"
      and r: "IncrementalPurge_sliced cfg calls t = Inr s'"
      by (auto simp: call split: sum.splits)
    from IncrementalPurgeGarbage_progress [OF Cons.prems(1) t]
    have p: "purge_progress s t" by simp
    then have "purge_wf t" by (simp add: purge_progress_def)
    from Cons.IH [OF this r] p show ?thesis by (blast intro: purge_progress_trans)
  qed
qed

lemma purge_progress_complete:
  assumes "purge_progress s t" and "\<not> IsIncrementalPurgePending t"
  shows "phase_state t = purge_done s"
    "begin_destroy_calls (new_events s t) = begin_destroy_due s"
    "mset (finish_destroy_calls (new_events s t)) = finish_destroy_due s"
    "destructor_calls (new_events s t) = destroy_due s"
    "free_calls (new_events s t) = destroy_due s"
proof -
  note a = assms(1) [unfolded purge_progress_def]
  from a have wf: "purge_wf t" by simp
  note c = purge_complete [OF wf assms(2)]
  show "phase_state t = purge_done s" using a c(1) by simp
  show "begin_destroy_calls (new_events s t) = begin_destroy_due s" using a c(2) by simp
  show "mset (finish_destroy_calls (new_events s t)) = finish_destroy_due s" using a c(3) by simp
  show "destructor_calls (new_events s t) = destroy_due s" using a c(4) by simp
  then show "free_calls (new_events s t) = destroy_due s" using a by simp
qed

text \<open>
  C3 (as the code has it). From a state that satisfies the invariant of the purge globals:
  if a call of \<open>IncrementalPurgeGarbage\<close> without a time limit returns, and a run of
  time-limited calls, each with its own clock and its own answers of
  \<^verbatim>\<open>IsReadyForFinishDestroy\<close>, made while a purge is pending, has left none pending, then
  after both no purge is pending and the globals are the same (everything but the trace and
  the counters of the questions put to the environment); and in both runs
  \<^verbatim>\<open>ConditionalBeginDestroy\<close>, the destructor and the free go to the same objects in the
  same order, those the state still owed them to, once for each entry of
  \<^verbatim>\<open>GUnreachableObjects\<close>, and \<^verbatim>\<open>ConditionalFinishDestroy\<close> goes to the same multiset of
  objects, those still owed it (in an order that depends on when each object is ready).
\<close>

theorem C3_time_sliced_purge:
  assumes "purge_wf s"
    and "IncrementalPurgeGarbage cfg env fuel False s = Inr s1"
    and "IncrementalPurge_sliced cfg calls s = Inr s2"
    and "\<not> IsIncrementalPurgePending s2"
  shows "\<not> IsIncrementalPurgePending s1
       \<and> phase_state s2 = phase_state s1
       \<and> begin_destroy_calls (new_events s s2) = begin_destroy_calls (new_events s s1)
       \<and> mset (finish_destroy_calls (new_events s s2)) = mset (finish_destroy_calls (new_events s s1))
       \<and> destructor_calls (new_events s s2) = destructor_calls (new_events s s1)
       \<and> free_calls (new_events s s2) = free_calls (new_events s s1)
       \<and> begin_destroy_calls (new_events s s1) = begin_destroy_due s
       \<and> mset (finish_destroy_calls (new_events s s1)) = finish_destroy_due s
       \<and> destructor_calls (new_events s s1) = destroy_due s
       \<and> free_calls (new_events s s1) = destroy_due s"
proof -
  from IncrementalPurgeGarbage_progress [OF assms(1,2)]
  have p1: "purge_progress s s1" and n1: "\<not> IsIncrementalPurgePending s1" by simp_all
  from IncrementalPurge_sliced_progress [OF assms(1,3)]
  have p2: "purge_progress s s2" .
  note c1 = purge_progress_complete [OF p1 n1]
  note c2 = purge_progress_complete [OF p2 assms(4)]
  show ?thesis
    using n1 unfolding c1 c2 by simp
qed

lemma PendingPass_end:
  "\<not> cur < GGCObjectsPendingDestructionCount s \<Longrightarrow>
     PendingPass env u c cur s = Inr (False, c, s)"
  by (subst PendingPass.simps) simp

lemma PendingPass_next:
  "cur < GGCObjectsPendingDestructionCount s \<Longrightarrow>
   GGCObjectsPendingDestructionCount s \<le> length (GGCObjectsPendingDestruction s) \<Longrightarrow>
     PendingPass env u c cur s =
       (case PendingPass_step env cur s of
          (Cur', s2) \<Rightarrow>
            if u \<and> c mod 10 = 0 then
                 (case poll_time_limit env s2 of
                    (True, s3) \<Rightarrow> Inr (True, c + 1, s3)
                  | (False, s3) \<Rightarrow> PendingPass env u (c + 1) Cur' s3)
            else PendingPass env u (c + 1) Cur' s2)"
  by (subst PendingPass.simps) (simp add: Let_def)

lemmas purge_eval = IncrementalPurgeGarbage_def UnhashUnreachableObjects_def
  IncrementalDestroyGarbage_def RouteFinishDestroy_def query_ready_def poll_time_limit_def
  DestroyObjects_def BeginPurge_def IsFinished_def upd_purge_def TickPurge_def
  TickDestroyGameThreadObjects_def log_event_def Let_def PendingPass_end PendingPass_next
  PendingPass_step_def FinishDestroy_stall_check_def IsIncrementalPurgePending_def
  leftover_state_def gc_idle_def purge_idle_def gc_config_default_def

lemma leftover_wf: "purge_wf leftover_state"
  by (simp add: purge_wf_def leftover_state_def gc_idle_def purge_idle_def)

lemma stall_abort:
  "IncrementalPurgeGarbage stall_config stall_env fuel False leftover_state
     = Inl (if fuel = 0 then OutOfFuel else FatalError)"
  by (cases fuel) (simp_all add: purge_eval stall_config_def stall_env_def)

lemma stall_sliced:
  "\<exists>s2. IncrementalPurge_sliced stall_config (sliced_calls stall_env) leftover_state = Inr s2
     \<and> \<not> IsIncrementalPurgePending s2
     \<and> Trace s2 = [Broadcast PreGarbageCollectConditionalBeginDestroy, ConditionalBeginDestroy 40,
          Broadcast PostGarbageCollectConditionalBeginDestroy,
          ConditionalFinishDestroy 40, Destructor 40, FreeUObject 40,
          Broadcast PostPurgeGarbage, MemoryTrim]"
  by (simp add: purge_eval sliced_calls_def stall_config_def stall_env_def)

text \<open>
  C3 as stated fails when \<^verbatim>\<open>FinishDestroy\<close> stalls. On a cooked build for a platform that
  is not a desktop, with object 40 not ready the first two times it is asked and the stall
  timer run out, the call without a time limit ends in the abort of the stall check and
  returns no state, whatever the fuel; three time-limited calls in the same environment,
  which never test the stall timer, complete the purge.
\<close>

theorem C3_stall_abort_counterexample:
  "purge_wf leftover_state \<and> IsIncrementalPurgePending leftover_state
   \<and> (\<forall>fuel. \<exists>e. IncrementalPurgeGarbage stall_config stall_env fuel False leftover_state = Inl e)
   \<and> (\<exists>s2. IncrementalPurge_sliced stall_config (sliced_calls stall_env) leftover_state = Inr s2
          \<and> \<not> IsIncrementalPurgePending s2
          \<and> new_events leftover_state s2
              = [Broadcast PreGarbageCollectConditionalBeginDestroy, ConditionalBeginDestroy 40,
                 Broadcast PostGarbageCollectConditionalBeginDestroy,
                 ConditionalFinishDestroy 40, Destructor 40, FreeUObject 40,
                 Broadcast PostPurgeGarbage, MemoryTrim])"
proof -
  have "IsIncrementalPurgePending leftover_state"
    by (simp add: IsIncrementalPurgePending_def leftover_state_def)
  moreover have "Trace leftover_state = []"
    by (simp add: leftover_state_def gc_idle_def)
  ultimately show ?thesis
    using leftover_wf stall_abort stall_sliced by (simp add: new_events_def)
qed

lemma leftover_no_limit:
  "\<exists>s1. IncrementalPurgeGarbage gc_config_default unhash_env 1 False leftover_state = Inr s1"
  by (simp add: purge_eval unhash_env_def)

lemma leftover_sliced:
  "\<exists>s2. IncrementalPurge_sliced gc_config_default (sliced_calls unhash_env) leftover_state = Inr s2
     \<and> \<not> IsIncrementalPurgePending s2"
  by (simp add: purge_eval sliced_calls_def unhash_env_def)

lemma leftover_due:
  "begin_destroy_due leftover_state = [40]" "finish_destroy_due leftover_state = {#40#}"
  "destroy_due leftover_state = [40]"
  by (simp_all add: begin_destroy_due_def finish_destroy_due_def destroy_due_def
      leftover_state_def gc_idle_def)

theorem C3_time_sliced_purge_witness:
  "purge_wf leftover_state
   \<and> (\<exists>s1 s2. IncrementalPurgeGarbage gc_config_default unhash_env 1 False leftover_state = Inr s1
        \<and> IncrementalPurge_sliced gc_config_default (sliced_calls unhash_env) leftover_state = Inr s2
        \<and> \<not> IsIncrementalPurgePending s2
        \<and> \<not> IsIncrementalPurgePending s1
        \<and> phase_state s2 = phase_state s1
        \<and> begin_destroy_calls (new_events leftover_state s2) = [40]
        \<and> mset (finish_destroy_calls (new_events leftover_state s2)) = {#40#}
        \<and> destructor_calls (new_events leftover_state s2) = [40]
        \<and> free_calls (new_events leftover_state s2) = [40]
        \<and> begin_destroy_calls (new_events leftover_state s1) = [40]
        \<and> mset (finish_destroy_calls (new_events leftover_state s1)) = {#40#}
        \<and> destructor_calls (new_events leftover_state s1) = [40]
        \<and> free_calls (new_events leftover_state s1) = [40])"
proof -
  from leftover_no_limit obtain s1 where
    r1: "IncrementalPurgeGarbage gc_config_default unhash_env 1 False leftover_state = Inr s1" ..
  from leftover_sliced obtain s2 where
    r2: "IncrementalPurge_sliced gc_config_default (sliced_calls unhash_env) leftover_state = Inr s2"
    and np: "\<not> IsIncrementalPurgePending s2"
    by (elim exE conjE)
  note c = C3_time_sliced_purge [OF leftover_wf r1 r2 np, unfolded leftover_due]
  show ?thesis
  proof (rule conjI)
    show "purge_wf leftover_state" by (rule leftover_wf)
    from c r1 r2 np
    have "IncrementalPurgeGarbage gc_config_default unhash_env 1 False leftover_state = Inr s1
        \<and> IncrementalPurge_sliced gc_config_default (sliced_calls unhash_env) leftover_state = Inr s2
        \<and> \<not> IsIncrementalPurgePending s2
        \<and> \<not> IsIncrementalPurgePending s1
        \<and> phase_state s2 = phase_state s1
        \<and> begin_destroy_calls (new_events leftover_state s2) = [40]
        \<and> mset (finish_destroy_calls (new_events leftover_state s2)) = {#40#}
        \<and> destructor_calls (new_events leftover_state s2) = [40]
        \<and> free_calls (new_events leftover_state s2) = [40]
        \<and> begin_destroy_calls (new_events leftover_state s1) = [40]
        \<and> mset (finish_destroy_calls (new_events leftover_state s1)) = {#40#}
        \<and> destructor_calls (new_events leftover_state s1) = [40]
        \<and> free_calls (new_events leftover_state s1) = [40]"
      by simp
    then show "\<exists>s1 s2. IncrementalPurgeGarbage gc_config_default unhash_env 1 False leftover_state = Inr s1
        \<and> IncrementalPurge_sliced gc_config_default (sliced_calls unhash_env) leftover_state = Inr s2
        \<and> \<not> IsIncrementalPurgePending s2
        \<and> \<not> IsIncrementalPurgePending s1
        \<and> phase_state s2 = phase_state s1
        \<and> begin_destroy_calls (new_events leftover_state s2) = [40]
        \<and> mset (finish_destroy_calls (new_events leftover_state s2)) = {#40#}
        \<and> destructor_calls (new_events leftover_state s2) = [40]
        \<and> free_calls (new_events leftover_state s2) = [40]
        \<and> begin_destroy_calls (new_events leftover_state s1) = [40]
        \<and> mset (finish_destroy_calls (new_events leftover_state s1)) = {#40#}
        \<and> destructor_calls (new_events leftover_state s1) = [40]
        \<and> free_calls (new_events leftover_state s1) = [40]"
      by (intro exI)
  qed
qed

end
